(* ===== verification/Prelude.thy ===== *)
theory Prelude
  imports Main "HOL-Library.Word" "HOL-Library.AList" "HOL-Library.Multiset"
    "HOL-Library.Char_ord" "HOL-Library.List_Lexorder"
begin

text \<open>
  What the components share: the collections of simplification rules, machine integers of
  the C++ types \<^verbatim>\<open>int\<close> and \<^verbatim>\<open>int64_t\<close> as integers with their range and the conversion that
  narrows them, the decimal printing and reading of the standard library
  (\<^verbatim>\<open>std::to_string\<close>, \<^verbatim>\<open>std::stoi\<close>), \<^verbatim>\<open>std::getline\<close> on a byte stream, and the generic
  lemmas on lists and characters that the component proofs use. A \<^verbatim>\<open>std::string\<close> is a
  \<^typ>\<open>string\<close>: a list of bytes.
\<close>

named_theorems wire_simps \<open>text on the wire and in the log\<close>
named_theorems handler_defs \<open>the handlers of a node\<close>

section \<open>Machine integers\<close>

definition int_range :: "nat \<Rightarrow> int \<Rightarrow> bool" where
  "int_range w x \<longleftrightarrow> - (2 ^ (w - 1)) \<le> x \<and> x < 2 ^ (w - 1)"

abbreviation int32 :: "int \<Rightarrow> bool" where
  "int32 \<equiv> int_range 32"

abbreviation int64 :: "int \<Rightarrow> bool" where
  "int64 \<equiv> int_range 64"

text \<open>The conversion of an integer to a signed type of \<open>w\<close> bits keeps the low bits.\<close>

definition narrow :: "nat \<Rightarrow> int \<Rightarrow> int" where
  "narrow w x = (x + 2 ^ (w - 1)) mod 2 ^ w - 2 ^ (w - 1)"

lemma narrow_id: "int_range w x \<Longrightarrow> 0 < w \<Longrightarrow> narrow w x = x"
proof -
  assume r: "int_range w x" and w: "0 < w"
  have "(2::int) ^ w = 2 * 2 ^ (w - 1)"
    using w by (cases w) auto
  with r show ?thesis
    by (auto simp: narrow_def int_range_def)
qed

lemma narrow_range: "0 < w \<Longrightarrow> int_range w (narrow w x)"
proof -
  assume w: "0 < w"
  have d: "(2::int) ^ w = 2 * 2 ^ (w - 1)"
    using w by (cases w) auto
  have "0 \<le> (x + 2 ^ (w - 1)) mod 2 ^ w" "(x + 2 ^ (w - 1)) mod 2 ^ w < 2 ^ w"
    by auto
  with d show ?thesis
    by (auto simp: narrow_def int_range_def)
qed

lemma narrow32_id [simp]: "int32 x \<Longrightarrow> narrow 32 x = x"
  by (simp add: narrow_id)

lemma narrow64_id [simp]: "int64 x \<Longrightarrow> narrow 64 x = x"
  by (simp add: narrow_id)

lemma int32_int64: "int32 x \<Longrightarrow> int64 x"
  by (simp add: int_range_def)

section \<open>Decimal numerals\<close>

definition digit_char :: "nat \<Rightarrow> char" where
  "digit_char d = char_of (48 + d)"

definition is_digit :: "char \<Rightarrow> bool" where
  "is_digit c \<longleftrightarrow> 48 \<le> (of_char c :: nat) \<and> (of_char c :: nat) \<le> 57"

definition digit_val :: "char \<Rightarrow> nat" where
  "digit_val c = of_char c - 48"

fun show_nat :: "nat \<Rightarrow> string" where
  "show_nat n = (if n < 10 then [digit_char n]
     else show_nat (n div 10) @ [digit_char (n mod 10)])"

declare show_nat.simps [simp del]

definition to_string :: "int \<Rightarrow> string" where
  "to_string i = (if i < 0 then CHR ''-'' # show_nat (nat (- i)) else show_nat (nat i))"

definition dec_val :: "string \<Rightarrow> nat" where
  "dec_val s = foldl (\<lambda>a c. 10 * a + digit_val c) 0 s"

lemma of_char_digit_char [simp]: "d < 10 \<Longrightarrow> (of_char (digit_char d) :: nat) = 48 + d"
  by (simp add: digit_char_def)

lemma is_digit_digit_char [simp]: "d < 10 \<Longrightarrow> is_digit (digit_char d)"
  by (simp add: is_digit_def)

lemma digit_val_digit_char [simp]: "d < 10 \<Longrightarrow> digit_val (digit_char d) = d"
  by (simp add: digit_val_def)

lemma digit_char_digit_val [simp]: "is_digit c \<Longrightarrow> digit_char (digit_val c) = c"
  by (simp add: is_digit_def digit_val_def digit_char_def)

lemma digit_val_less [simp]: "is_digit c \<Longrightarrow> digit_val c < 10"
  unfolding is_digit_def digit_val_def by linarith

lemma dec_val_Nil [simp]: "dec_val [] = 0"
  by (simp add: dec_val_def)

lemma dec_val_snoc [simp]: "dec_val (s @ [c]) = 10 * dec_val s + digit_val c"
  by (simp add: dec_val_def)

lemma dec_val_singleton [simp]: "dec_val [c] = digit_val c"
  by (simp add: dec_val_def)

lemma dec_val_show_nat [simp]: "dec_val (show_nat n) = n"
proof (induction n rule: show_nat.induct)
  case (1 n)
  show ?case
  proof (cases "n < 10")
    case True
    then show ?thesis by (simp add: show_nat.simps [of n])
  next
    case False
    with "1" show ?thesis by (simp add: show_nat.simps [of n])
  qed
qed

lemma show_nat_digits: "c \<in> set (show_nat n) \<Longrightarrow> is_digit c"
proof (induction n rule: show_nat.induct)
  case (1 n)
  then show ?case
    by (auto simp: show_nat.simps [of n] split: if_splits)
qed

lemma show_nat_not_Nil [simp]: "show_nat n \<noteq> []"
  by (simp add: show_nat.simps [of n])

lemma show_nat_hd: "0 < n \<Longrightarrow> hd (show_nat n) \<noteq> CHR ''0''"
proof (induction n rule: show_nat.induct)
  case (1 n)
  show ?case
  proof (cases "n < 10")
    case True
    have "(of_char (digit_char n) :: nat) \<noteq> of_char (CHR ''0'')"
      using True "1.prems" by simp
    then have "digit_char n \<noteq> CHR ''0''" by (metis)
    then show ?thesis using True by (simp add: show_nat.simps [of n])
  next
    case False
    with "1" show ?thesis by (simp add: show_nat.simps [of n])
  qed
qed

lemma show_nat_inject [simp]: "show_nat m = show_nat n \<longleftrightarrow> m = n"
  by (metis dec_val_show_nat)

lemma is_digit_not_punct [simp]:
  "\<not> is_digit (CHR ''-'')" "\<not> is_digit (CHR ''+'')" "\<not> is_digit (CHR ''|'')"
  "\<not> is_digit (CHR '','')" "\<not> is_digit (CHR '':'')" "\<not> is_digit (CHR ''.'')"
  "\<not> is_digit (CHR 0x0A)" "\<not> is_digit (CHR 0x22)"
  by (simp_all add: is_digit_def)

lemma show_nat_no_minus: "CHR ''-'' \<notin> set (show_nat n)"
  using show_nat_digits [of "CHR ''-''" n] by auto

lemma to_string_chars: "c \<in> set (to_string i) \<Longrightarrow> is_digit c \<or> c = CHR ''-''"
  by (auto simp: to_string_def dest: show_nat_digits split: if_splits)

lemma to_string_inject [simp]: "to_string i = to_string j \<longleftrightarrow> i = j"
proof
  assume eq: "to_string i = to_string j"
  have h: "hd (to_string k) = CHR ''-'' \<longleftrightarrow> k < 0" for k
    using show_nat_no_minus [of "nat k"] show_nat_not_Nil [of "nat k"]
    by (auto simp: to_string_def) (metis list.set_sel(1) show_nat_no_minus show_nat_not_Nil)
  from eq h [of i] h [of j] have "i < 0 \<longleftrightarrow> j < 0" by simp
  with eq show "i = j"
    by (auto simp: to_string_def split: if_splits)
qed simp

lemma to_string_0 [simp]: "to_string 0 = ''0''"
  by code_simp

lemma to_string_not_Nil [simp]: "to_string i \<noteq> []"
  by (simp add: to_string_def)

text \<open>
  \<^verbatim>\<open>std::stoi\<close>: leading white space, an optional sign, then the longest run of digits.
  No digit is \<^verbatim>\<open>std::invalid_argument\<close>, a value outside \<^verbatim>\<open>int\<close> is \<^verbatim>\<open>std::out_of_range\<close>.
\<close>

datatype std_exn = invalid_argument string | out_of_range_exn | json_exception int string
  | runtime_error string

text \<open>The text of an exception; \<open>json_exception\<close> carries the identifier and the text that
  \<^verbatim>\<open>nlohmann::json\<close> gives its exceptions.\<close>

fun what :: "std_exn \<Rightarrow> string" where
  "what (invalid_argument s) = s"
| "what out_of_range_exn = ''stoi''"
| "what (json_exception i s) = s"
| "what (runtime_error s) = s"

definition is_space :: "char \<Rightarrow> bool" where
  "is_space c \<longleftrightarrow> c = CHR '' '' \<or> (9 \<le> (of_char c :: nat) \<and> (of_char c :: nat) \<le> 13)"

definition stoi :: "string \<Rightarrow> std_exn + int" where
  "stoi s = (let t = dropWhile is_space s;
       neg = (t \<noteq> [] \<and> hd t = CHR ''-'');
       u = (if t \<noteq> [] \<and> (hd t = CHR ''-'' \<or> hd t = CHR ''+'') then tl t else t);
       ds = takeWhile is_digit u;
       v = (if neg then - int (dec_val ds) else int (dec_val ds))
     in if ds = [] then Inl (invalid_argument ''stoi'')
        else if int32 v then Inr v else Inl out_of_range_exn)"

lemma stoi_to_string: "int32 i \<Longrightarrow> stoi (to_string i) = Inr i"
proof -
  assume r: "int32 i"
  have sp: "\<not> is_space c" if "is_digit c \<or> c = CHR ''-''" for c
    using that by (auto simp: is_space_def is_digit_def)
  have dw: "dropWhile is_space (to_string i) = to_string i"
    using to_string_not_Nil [of i] to_string_chars [of "hd (to_string i)" i] sp
    by (cases "to_string i") auto
  have tw: "takeWhile is_digit (show_nat n) = show_nat n" for n
    by (simp add: takeWhile_eq_all_conv show_nat_digits)
  have hd1: "is_digit (hd (show_nat n))" for n
    using show_nat_not_Nil [of n] show_nat_digits [of "hd (show_nat n)" n]
    by (meson list.set_sel(1))
  have nd: "hd (show_nat n) \<noteq> CHR ''-''" "hd (show_nat n) \<noteq> CHR ''+''" for n
    using hd1 [of n] by auto
  show ?thesis
  proof (cases "i < 0")
    case True
    then have "to_string i = CHR ''-'' # show_nat (nat (- i))"
      by (simp add: to_string_def)
    with dw True r show ?thesis by (simp add: stoi_def Let_def tw)
  next
    case False
    then have "to_string i = show_nat (nat i)"
      by (simp add: to_string_def)
    with dw False r show ?thesis by (simp add: stoi_def Let_def tw nd)
  qed
qed

section \<open>Lines of a stream\<close>

text \<open>
  \<^verbatim>\<open>std::getline(is, str, delim)\<close> on the bytes still to be read: it fails when there are
  none, otherwise it takes the bytes up to the delimiter, which it consumes, or to the end.
\<close>

definition std_getline :: "char \<Rightarrow> string \<Rightarrow> (string \<times> string) option" where
  "std_getline d s = (if s = [] then None
     else Some (takeWhile (\<lambda>c. c \<noteq> d) s, tl (dropWhile (\<lambda>c. c \<noteq> d) s)))"

lemma std_getline_Nil [simp]: "std_getline d [] = None"
  by (simp add: std_getline_def)

lemma std_getline_delim [simp]:
  "d \<notin> set x \<Longrightarrow> std_getline d (x @ d # r) = Some (x, r)"
proof -
  assume a: "d \<notin> set x"
  have "takeWhile (\<lambda>c. c \<noteq> d) (x @ d # r) = x"
    using a by (induction x) auto
  moreover have "dropWhile (\<lambda>c. c \<noteq> d) (x @ d # r) = d # r"
    using a by (induction x) auto
  ultimately show ?thesis by (simp add: std_getline_def)
qed

lemma std_getline_last:
  "d \<notin> set x \<Longrightarrow> x \<noteq> [] \<Longrightarrow> std_getline d x = Some (x, [])"
proof -
  assume a: "d \<notin> set x" and ne: "x \<noteq> []"
  have "tl (dropWhile (\<lambda>c. c \<noteq> d) x) = []" "takeWhile (\<lambda>c. c \<noteq> d) x = x"
    using a by (induction x) auto
  with ne show ?thesis by (simp add: std_getline_def)
qed

lemma std_getline_shorter: "std_getline d s = Some (x, r) \<Longrightarrow> length r < length s"
proof -
  assume a: "std_getline d s = Some (x, r)"
  then have ne: "s \<noteq> []" and r: "r = tl (dropWhile (\<lambda>c. c \<noteq> d) s)"
    by (auto simp: std_getline_def split: if_splits)
  have "length (dropWhile (\<lambda>c. c \<noteq> d) s) \<le> length s"
    by (rule length_dropWhile_le)
  with ne r show ?thesis by (cases s) (auto split: if_splits)
qed

lemma std_getline_no_delim: "std_getline d s = Some (x, r) \<Longrightarrow> d \<notin> set x"
  by (auto simp: std_getline_def dest: set_takeWhileD split: if_splits)

text \<open>All the pieces that a loop of \<^verbatim>\<open>std::getline\<close> reads.\<close>

function getlines :: "char \<Rightarrow> string \<Rightarrow> string list" where
  "getlines d s = (case std_getline d s of None \<Rightarrow> [] | Some (x, r) \<Rightarrow> x # getlines d r)"
  by pat_completeness auto
termination
  by (relation "measure (\<lambda>(d, s). length s)") (auto dest: std_getline_shorter)

declare getlines.simps [simp del]

lemma getlines_Nil [simp]: "getlines d [] = []"
  by (simp add: getlines.simps)

lemma getlines_line [simp]: "d \<notin> set x \<Longrightarrow> getlines d (x @ d # r) = x # getlines d r"
  by (simp add: getlines.simps [of d "x @ d # r"])

lemma getlines_concat:
  assumes "\<And>x. x \<in> set xs \<Longrightarrow> d \<notin> set x"
  shows "getlines d (concat (map (\<lambda>x. x @ [d]) xs)) = xs"
  using assms by (induction xs) auto

section \<open>Functional refinement\<close>

text \<open>
  A component implements an abstract machine: \<open>exec\<close> is a step of the component, \<open>spec\<close>
  the step of the abstract machine, \<open>abst\<close> reads the abstract state off the concrete one,
  \<open>inv\<close> is the component's invariant, and \<open>ok\<close> are the inputs the contract covers.
\<close>

locale refinement =
  fixes abst :: "'s \<Rightarrow> 'a"
    and inv :: "'s \<Rightarrow> bool"
    and ok :: "'i \<Rightarrow> bool"
    and exec :: "'s \<Rightarrow> 'i \<Rightarrow> 's"
    and spec :: "'a \<Rightarrow> 'i \<Rightarrow> 'a"
  assumes inv_exec: "inv s \<Longrightarrow> ok i \<Longrightarrow> inv (exec s i)"
    and abst_exec: "inv s \<Longrightarrow> ok i \<Longrightarrow> abst (exec s i) = spec (abst s) i"
begin

lemma run_inv: "inv s \<Longrightarrow> (\<And>i. i \<in> set is \<Longrightarrow> ok i) \<Longrightarrow> inv (foldl exec s is)"
  by (induction "is" arbitrary: s) (auto simp: inv_exec)

lemma run_abst:
  "inv s \<Longrightarrow> (\<And>i. i \<in> set is \<Longrightarrow> ok i) \<Longrightarrow> abst (foldl exec s is) = foldl spec (abst s) is"
  by (induction "is" arbitrary: s) (auto simp: inv_exec abst_exec)

end

section \<open>Sums as results\<close>

text \<open>A computation that may throw: \<open>Inl\<close> is the exception, \<open>Inr\<close> the result.\<close>

fun sum_bind :: "'e + 'a \<Rightarrow> ('a \<Rightarrow> 'e + 'b) \<Rightarrow> 'e + 'b" where
  "sum_bind (Inl e) f = Inl e"
| "sum_bind (Inr a) f = f a"

lemma sum_bind_Inr_conv: "sum_bind x f = Inr b \<longleftrightarrow> (\<exists>a. x = Inr a \<and> f a = Inr b)"
  by (cases x) auto

lemma sum_bind_cong [fundef_cong]:
  "x = y \<Longrightarrow> (\<And>a. y = Inr a \<Longrightarrow> f a = g a) \<Longrightarrow> sum_bind x f = sum_bind y g"
  by (cases y) auto

end
