(* ===== verification/Std_Map.thy ===== *)
theory Std_Map
  imports Prelude
begin

text \<open>
  The associative containers of the C++ standard library that the node uses. A
  \<^verbatim>\<open>std::map\<close> is the list of its entries in the order of the keys, so that iterators,
  \<^verbatim>\<open>lower_bound\<close> and the walk of the hash ring are list operations; a
  \<^verbatim>\<open>std::unordered_map\<close> is an association list with distinct keys whose order carries no
  meaning (the operations of \<^verbatim>\<open>HOL-Library.AList\<close>). The locale \<open>finite_map\<close> is what the
  components rely on; both containers interpret it.
\<close>

section \<open>The interface\<close>

locale finite_map =
  fixes lookup :: "'m \<Rightarrow> 'k \<Rightarrow> 'v option"
    and assign :: "'k \<Rightarrow> 'v \<Rightarrow> 'm \<Rightarrow> 'm"
    and erase :: "'k \<Rightarrow> 'm \<Rightarrow> 'm"
    and entries :: "'m \<Rightarrow> ('k \<times> 'v) list"
    and wf :: "'m \<Rightarrow> bool"
  assumes lookup_entries: "wf m \<Longrightarrow> lookup m = map_of (entries m)"
    and distinct_entries: "wf m \<Longrightarrow> distinct (map fst (entries m))"
    and lookup_assign: "wf m \<Longrightarrow> lookup (assign k v m) = (lookup m)(k \<mapsto> v)"
    and lookup_erase: "wf m \<Longrightarrow> lookup (erase k m) = (lookup m)(k := None)"
    and wf_assign: "wf m \<Longrightarrow> wf (assign k v m)"
    and wf_erase: "wf m \<Longrightarrow> wf (erase k m)"
begin

lemma wf_assign_list: "wf m \<Longrightarrow> wf (foldl (\<lambda>m (k, v). assign k v m) m ps)"
  by (induction ps arbitrary: m) (auto simp: wf_assign)

lemma lookup_assign_list:
  "wf m \<Longrightarrow> lookup (foldl (\<lambda>m (k, v). assign k v m) m ps) = lookup m ++ map_of (rev ps)"
proof (induction ps arbitrary: m)
  case Nil
  then show ?case by simp
next
  case (Cons p ps)
  obtain k v where p: "p = (k, v)" by force
  have "lookup (foldl (\<lambda>m (k, v). assign k v m) m (p # ps)) =
      (lookup m)(k \<mapsto> v) ++ map_of (rev ps)"
    using Cons p by (simp add: wf_assign lookup_assign fun_upd_def)
  also have "\<dots> = lookup m ++ map_of (rev (p # ps))"
    using p by (auto simp: map_add_def fun_eq_iff split: option.splits)
  finally show ?case .
qed

lemma entry_iff: "wf m \<Longrightarrow> (k, v) \<in> set (entries m) \<longleftrightarrow> lookup m k = Some v"
  by (simp add: lookup_entries distinct_entries)

lemma size_dom: "wf m \<Longrightarrow> length (entries m) = card (dom (lookup m))"
  using distinct_entries [of m]
  by (simp add: lookup_entries dom_map_of_conv_image_fst) (metis distinct_card length_map list.set_map)

end

section \<open>std::map\<close>

type_synonym ('k, 'v) std_map = "('k \<times> 'v) list"

definition map_wf :: "('k::linorder, 'v) std_map \<Rightarrow> bool" where
  "map_wf m \<longleftrightarrow> sorted_wrt (<) (map fst m)"

text \<open>\<open>m[k] = v\<close>: the entry of the key is overwritten, or a new one is put in its place.\<close>

fun map_assign :: "'k::linorder \<Rightarrow> 'v \<Rightarrow> ('k, 'v) std_map \<Rightarrow> ('k, 'v) std_map" where
  "map_assign k v [] = [(k, v)]"
| "map_assign k v (e # es) =
     (if fst e < k then e # map_assign k v es
      else if fst e = k then (k, v) # es
      else (k, v) # e # es)"

definition map_erase :: "'k \<Rightarrow> ('k, 'v) std_map \<Rightarrow> ('k, 'v) std_map" where
  "map_erase k m = filter (\<lambda>e. fst e \<noteq> k) m"

text \<open>An iterator is the list of the entries from it on; the end iterator is the empty list.\<close>

definition lower_bound :: "'k::linorder \<Rightarrow> ('k, 'v) std_map \<Rightarrow> ('k, 'v) std_map" where
  "lower_bound k m = dropWhile (\<lambda>e. fst e < k) m"

lemma map_wf_Nil [simp]: "map_wf []"
  by (simp add: map_wf_def)

lemma map_wf_Cons [simp]: "map_wf (e # es) \<longleftrightarrow> (\<forall>x\<in>set es. fst e < fst x) \<and> map_wf es"
  by (auto simp: map_wf_def)

lemma map_wf_append:
  "map_wf (xs @ ys) \<longleftrightarrow> map_wf xs \<and> map_wf ys \<and> (\<forall>x\<in>set xs. \<forall>y\<in>set ys. fst x < fst y)"
  by (auto simp: map_wf_def sorted_wrt_append)

lemma map_wf_distinct: "map_wf m \<Longrightarrow> distinct (map fst m)"
  by (induction m) fastforce+

lemma map_wf_filter: "map_wf m \<Longrightarrow> map_wf (filter P m)"
  by (induction m) auto

lemma map_wf_map: "(\<And>e. fst (f e) = fst e) \<Longrightarrow> map_wf (map f m) = map_wf m"
  by (simp add: map_wf_def comp_def)

lemma map_of_map_assign [simp]: "map_of (map_assign k v m) = (map_of m)(k \<mapsto> v)"
  by (induction m) auto

lemma set_map_assign: "map_wf m \<Longrightarrow> set (map_assign k v m) = {e \<in> set m. fst e \<noteq> k} \<union> {(k, v)}"
  by (induction m) auto

lemma map_wf_assign: "map_wf m \<Longrightarrow> map_wf (map_assign k v m)"
  by (induction m) (auto simp: set_map_assign)

lemma map_assign_restore:
  "map_wf m \<Longrightarrow> map_of m k = Some v \<Longrightarrow> map_assign k v (map_assign k w m) = m"
proof (induction m)
  case (Cons e es)
  have "fst e < k" if "fst e \<noteq> k"
    using Cons.prems that by (fastforce simp: fun_upd_def dest: map_of_SomeD split: if_splits)
  with Cons show ?case by (cases e) (auto simp: fun_upd_def split: if_splits)
qed simp

lemma map_of_erase: "map_of (map_erase k m) = (map_of m)(k := None)"
  by (induction m) (auto simp: map_erase_def)

interpretation smap: finite_map map_of map_assign map_erase "\<lambda>m. m" map_wf
  by unfold_locales
    (simp_all add: map_wf_distinct map_of_erase map_wf_assign, simp add: map_erase_def map_wf_filter)

lemma lower_bound_keys: "map_wf m \<Longrightarrow> set (lower_bound k m) = {e \<in> set m. k \<le> fst e}"
proof (induction m)
  case Nil
  then show ?case by (simp add: lower_bound_def)
next
  case (Cons e es)
  then show ?case
    by (auto simp: lower_bound_def dest: order_less_imp_le)
qed

section \<open>std::unordered_map\<close>

text \<open>
  The iteration order of a \<^verbatim>\<open>std::unordered_map\<close> is unspecified: an operation of the program
  that walks over one takes the walk as an argument, a function that permutes the entries.
\<close>

type_synonym ('k, 'v) unordered_map = "('k \<times> 'v) list"

definition umap_wf :: "('k, 'v) unordered_map \<Rightarrow> bool" where
  "umap_wf m \<longleftrightarrow> distinct (map fst m)"

definition walk_ok :: "(('k \<times> 'v) list \<Rightarrow> ('k \<times> 'v) list) \<Rightarrow> bool" where
  "walk_ok iter \<longleftrightarrow> (\<forall>m. mset (iter m) = mset m)"

lemma umap_wf_Nil [simp]: "umap_wf []"
  by (simp add: umap_wf_def)

lemma umap_wf_update [simp]: "umap_wf m \<Longrightarrow> umap_wf (AList.update k v m)"
  by (simp add: umap_wf_def distinct_update)

lemma umap_wf_delete [simp]: "umap_wf m \<Longrightarrow> umap_wf (AList.delete k m)"
  by (simp add: umap_wf_def distinct_delete)

interpretation umap: finite_map map_of AList.update AList.delete "\<lambda>m. m" umap_wf
  by unfold_locales (simp_all add: update_conv' delete_conv', simp_all add: umap_wf_def)

lemma map_of_update_list:
  "map_of (foldl (\<lambda>m (k, v). AList.update k v m) m ps) = map_of m ++ map_of (rev ps)"
proof (induction ps rule: rev_induct)
  case (snoc p ps)
  obtain k v where p: "p = (k, v)" by force
  have "map_of (rev (ps @ [p])) = (map_of (rev ps))(k \<mapsto> v)"
    by (simp add: p fun_upd_def)
  with snoc show ?case by (simp only: foldl_append foldl.simps p split update_conv' map_add_upd)
qed simp

lemma walk_ok_id [simp]: "walk_ok (\<lambda>m. m)"
  by (simp add: walk_ok_def)

lemma walk_ok_rev [simp]: "walk_ok rev"
  by (simp add: walk_ok_def)

lemma walk_set: "walk_ok iter \<Longrightarrow> set (iter m) = set m"
  unfolding walk_ok_def by (metis set_mset_mset)

lemma walk_distinct:
  assumes "walk_ok iter" "umap_wf m"
  shows "umap_wf (iter m)"
proof -
  have "mset (map fst (iter m)) = mset (map fst m)"
    using assms(1) by (simp add: walk_ok_def)
  with assms(2) show ?thesis
    unfolding umap_wf_def by (metis distinct_count_atmost_1 set_mset_mset)
qed

lemma walk_map_of:
  assumes "walk_ok iter" "umap_wf m"
  shows "map_of (iter m) = map_of m"
proof
  fix k
  have "map_of (iter m) k = Some v \<longleftrightarrow> map_of m k = Some v" for v
    using assms walk_distinct [OF assms] walk_set [OF assms(1), of m]
    by (metis map_of_eq_Some_iff umap_wf_def)
  then show "map_of (iter m) k = map_of m k"
    by (metis not_None_eq)
qed

end
