(* ===== verification/Utils.thy ===== *)
theory Utils
  imports Std_Map
begin

text \<open>
  \<^verbatim>\<open>include/utils.h\<close> and the message type names of \<^verbatim>\<open>node/utils.cpp\<close>: log levels and the
  logger, message types, node descriptions, and messages with their default field values.
\<close>

section \<open>Logger\<close>

text \<open>The level \<^verbatim>\<open>INF\<close> is called \<open>INFO\<close>: the short name is a binder of Isabelle.\<close>

datatype LogLevel = DBG | INFO | WRN | ERR

fun level_rank :: "LogLevel \<Rightarrow> nat" where
  "level_rank DBG = 0"
| "level_rank INFO = 1"
| "level_rank WRN = 2"
| "level_rank ERR = 3"

lemma level_rank_inject [simp]: "level_rank a = level_rank b \<longleftrightarrow> a = b"
  by (cases a; cases b) simp_all

instantiation LogLevel :: linorder
begin
definition less_eq_LogLevel :: "LogLevel \<Rightarrow> LogLevel \<Rightarrow> bool" where
  "less_eq_LogLevel a b \<longleftrightarrow> level_rank a \<le> level_rank b"
definition less_LogLevel :: "LogLevel \<Rightarrow> LogLevel \<Rightarrow> bool" where
  "less_LogLevel a b \<longleftrightarrow> level_rank a < level_rank b"
instance
  by standard (auto simp: less_eq_LogLevel_def less_LogLevel_def)
end

record Logger =
  min_level :: LogLevel
  lg_node_id :: int
  lg_out :: string

definition Logger_init :: Logger where
  "Logger_init = \<lparr>min_level = INFO, lg_node_id = 0, lg_out = []\<rparr>"

definition set_level :: "LogLevel \<Rightarrow> Logger \<Rightarrow> Logger" where
  "set_level l lg = lg\<lparr>min_level := l\<rparr>"

definition set_node_id :: "int \<Rightarrow> Logger \<Rightarrow> Logger" where
  "set_node_id i lg = lg\<lparr>lg_node_id := i\<rparr>"

fun level_str :: "LogLevel \<Rightarrow> string" where
  "level_str DBG = ''DEBUG''"
| "level_str INFO = ''INFO ''"
| "level_str WRN = ''WARN ''"
| "level_str ERR = ''ERROR''"

text \<open>The line goes to the standard output, here the text written so far; \<open>ms\<close> is the clock.\<close>

definition log_line :: "int \<Rightarrow> LogLevel \<Rightarrow> string \<Rightarrow> Logger \<Rightarrow> Logger" where
  "log_line ms lvl msg lg = (if lvl < min_level lg then lg
     else lg\<lparr>lg_out := lg_out lg @ ''['' @ to_string ms @ ''] [Node '' @ to_string (lg_node_id lg)
        @ ''] ['' @ level_str lvl @ ''] '' @ msg @ [CHR 0x0A]\<rparr>)"

lemma log_below_level: "lvl < min_level lg \<Longrightarrow> log_line ms lvl msg lg = lg"
  by (simp add: log_line_def)

lemma log_default_hides_debug:
  "log_line ms lvl msg Logger_init = Logger_init \<longleftrightarrow> lvl = DBG"
  by (cases lvl) (auto simp: log_line_def Logger_init_def less_LogLevel_def)

section \<open>Message types\<close>

datatype MsgType = PUT | GET | DEL | REPLICATE | HEARTBEAT | ELECTION | LEADER | ACK
  | SYNC_REQUEST | SYNC_DATA | UNKNOWN

fun msgtype_to_str :: "MsgType \<Rightarrow> string" where
  "msgtype_to_str PUT = ''PUT''"
| "msgtype_to_str GET = ''GET''"
| "msgtype_to_str DEL = ''DELETE''"
| "msgtype_to_str REPLICATE = ''REPLICATE''"
| "msgtype_to_str HEARTBEAT = ''HEARTBEAT''"
| "msgtype_to_str ELECTION = ''ELECTION''"
| "msgtype_to_str LEADER = ''LEADER''"
| "msgtype_to_str ACK = ''ACK''"
| "msgtype_to_str SYNC_REQUEST = ''SYNC_REQUEST''"
| "msgtype_to_str SYNC_DATA = ''SYNC_DATA''"
| "msgtype_to_str UNKNOWN = ''UNKNOWN''"

definition str_to_msgtype :: "string \<Rightarrow> MsgType" where
  "str_to_msgtype s =
    (if s = ''PUT'' then PUT
     else if s = ''GET'' then GET
     else if s = ''DELETE'' then DEL
     else if s = ''REPLICATE'' then REPLICATE
     else if s = ''HEARTBEAT'' then HEARTBEAT
     else if s = ''ELECTION'' then ELECTION
     else if s = ''LEADER'' then LEADER
     else if s = ''ACK'' then ACK
     else if s = ''SYNC_REQUEST'' then SYNC_REQUEST
     else if s = ''SYNC_DATA'' then SYNC_DATA
     else UNKNOWN)"

lemma str_to_msgtype_inverse [simp]: "str_to_msgtype (msgtype_to_str t) = t"
  by (cases t) (simp_all add: str_to_msgtype_def)

lemma str_to_msgtype_known:
  "str_to_msgtype s = t \<Longrightarrow> t \<noteq> UNKNOWN \<Longrightarrow> s = msgtype_to_str t"
  by (auto simp: str_to_msgtype_def split: if_splits)

section \<open>Node descriptions\<close>

record NodeInfo =
  ni_id :: int
  ni_host :: string
  ni_port :: int
  ni_alive :: bool

definition addr :: "NodeInfo \<Rightarrow> string" where
  "addr n = ni_host n @ '':'' @ to_string (ni_port n)"

text \<open>The comparison operator of \<^verbatim>\<open>NodeInfo\<close> looks at the identifier only.\<close>

definition node_eq :: "NodeInfo \<Rightarrow> NodeInfo \<Rightarrow> bool" where
  "node_eq a b \<longleftrightarrow> ni_id a = ni_id b"

section \<open>Messages\<close>

record Message =
  m_type :: MsgType
  m_key :: string
  m_value :: string
  m_node_id :: int
  m_term :: int
  m_timestamp :: int
  m_success :: bool
  m_error :: string
  m_kv_pairs :: "(string \<times> string) list"

definition Message0 :: Message where
  "Message0 = \<lparr>m_type = UNKNOWN, m_key = [], m_value = [], m_node_id = 0, m_term = 0,
     m_timestamp = 0, m_success = False, m_error = [], m_kv_pairs = []\<rparr>"

lemma Message0_simps [simp]:
  "m_type Message0 = UNKNOWN" "m_key Message0 = []" "m_value Message0 = []"
  "m_node_id Message0 = 0" "m_term Message0 = 0" "m_timestamp Message0 = 0"
  "\<not> m_success Message0" "m_error Message0 = []" "m_kv_pairs Message0 = []"
  by (simp_all add: Message0_def)

end
