(* ===== verification/Wal_Recovery.thy ===== *)
theory Wal_Recovery
  imports Storage_Engine
begin

text \<open>
  Replay of the log against the table: the operations on separator-free texts keep the
  engine durable, so a restart rebuilds the table; and the cases the log format does not
  cover (a separator inside a key or a value, a line cut short by a crash).
\<close>

section \<open>Lines of the log\<close>

definition wal_body :: "string \<Rightarrow> string \<Rightarrow> string \<Rightarrow> int \<Rightarrow> string" where
  "wal_body oper key val ts = oper @ ''|'' @ key @ ''|'' @ val @ ''|'' @ to_string ts"

lemma wal_line_body: "wal_line oper key val ts = wal_body oper key val ts @ [CHR 0x0A]"
  by (simp add: wal_line_def wal_body_def)

lemma to_string_clean [simp]: "wal_clean (to_string i)"
  using to_string_chars [of _ i] by (fastforce simp: wal_clean_def)

lemma wal_clean_append [simp]: "wal_clean (a @ b) \<longleftrightarrow> wal_clean a \<and> wal_clean b"
  by (auto simp: wal_clean_def)

lemma wal_clean_Nil [simp]: "wal_clean []"
  by (simp add: wal_clean_def)

lemma to_string_no_newline [simp]: "CHR 0x0A \<notin> set (to_string i)"
  using to_string_clean [of i] by (simp add: wal_clean_def)

lemma wal_cleanD: "wal_clean s \<Longrightarrow> CHR ''|'' \<notin> set s" "wal_clean s \<Longrightarrow> CHR 0x0A \<notin> set s"
  by (simp_all add: wal_clean_def)

lemma getlines_append:
  "line_closed a \<Longrightarrow> getlines (CHR 0x0A) (a @ b) = getlines (CHR 0x0A) a @ getlines (CHR 0x0A) b"
proof (induction "length a" arbitrary: a rule: less_induct)
  case less
  show ?case
  proof (cases "a = []")
    case False
    with less.prems have "CHR 0x0A \<in> set a"
      by (metis last_in_set line_closed_def)
    then obtain x r where a: "a = x @ CHR 0x0A # r" and x: "CHR 0x0A \<notin> set x"
      by (metis split_list_first)
    have "line_closed r" "length r < length a"
      using less.prems a by (auto simp: line_closed_def split: if_splits)
    then have "getlines (CHR 0x0A) (r @ b) = getlines (CHR 0x0A) r @ getlines (CHR 0x0A) b"
      by (rule less.hyps [rotated])
    then show ?thesis using a x by simp
  qed simp
qed

definition replay :: "string \<Rightarrow> (string, string) unordered_map" where
  "replay w = fst (recover (Some w) [])"

lemma replayed_replay: "replayed e = replay (se_wal e)"
  by (simp add: replayed_def replay_def)

lemma recover_line_fst: "fst (recover_line st l) = fst (recover_line (fst st, 0) l)"
  by (auto simp: recover_line_def split: option.splits)

lemma recover_lines_fst:
  "fst (foldl recover_line st ls) = foldl (\<lambda>m l. fst (recover_line (m, 0) l)) (fst st) ls"
proof (induction ls arbitrary: st)
  case (Cons l ls)
  then show ?case using recover_line_fst [of st l] by simp
qed simp

lemma replay_append:
  "line_closed w \<Longrightarrow>
   replay (w @ b) = foldl (\<lambda>m l. fst (recover_line (m, 0) l)) (replay w) (getlines (CHR 0x0A) b)"
  by (simp add: replay_def recover_def getlines_append recover_lines_fst)

lemma recover_line_fields:
  assumes "CHR ''|'' \<notin> set oper" "CHR ''|'' \<notin> set key" "CHR ''|'' \<notin> set val"
  shows "fst (recover_line (m, n) (oper @ CHR ''|'' # key @ CHR ''|'' # val @ CHR ''|'' # rest)) =
    (if oper = ''PUT'' then AList.update key val m
     else if oper = ''DEL'' then AList.delete key m else m)"
  using assms by (simp add: recover_line_def)

lemma wal_line_closed [simp]: "line_closed (w @ wal_line oper k v ts)"
  by (simp add: wal_line_def line_closed_def)

lemma append_wal_closed [simp]:
  "line_closed (se_wal e) \<Longrightarrow> line_closed (se_wal (append_wal ts oper k v e))"
  by (simp add: append_wal_def)

lemma replay_wal_line:
  assumes "line_closed w" "wal_clean oper" "wal_clean k" "wal_clean v"
  shows "replay (w @ wal_line oper k v ts) =
    (if oper = ''PUT'' then AList.update k v (replay w)
     else if oper = ''DEL'' then AList.delete k (replay w) else replay w)"
proof -
  have nl: "CHR 0x0A \<notin> set (wal_body oper k v ts)"
    using assms by (auto simp: wal_body_def wal_clean_def)
  have g: "getlines (CHR 0x0A) (wal_line oper k v ts) = [wal_body oper k v ts]"
    using getlines_line [OF nl, of "[]"] by (simp add: wal_line_body)
  show ?thesis
    using assms recover_line_fields [of oper k v "replay w" 0 "to_string ts"]
    by (simp add: replay_append g wal_body_def wal_clean_def)
qed

lemma append_wal_replay:
  assumes "se_open e" "line_closed (se_wal e)" "wal_clean oper" "wal_clean k" "wal_clean v"
  shows "replayed (append_wal ts oper k v e) =
    (if oper = ''PUT'' then AList.update k v (replayed e)
     else if oper = ''DEL'' then AList.delete k (replayed e) else replayed e)"
  using assms by (simp add: replayed_replay append_wal_def replay_wal_line)

lemma oper_clean [simp]: "wal_clean ''PUT''" "wal_clean ''DEL''"
  by (simp_all add: wal_clean_def)

lemma append_batch_replay:
  assumes "se_open e" "line_closed (se_wal e)" "\<forall>(k, v) \<in> set ps. wal_clean k \<and> wal_clean v"
  shows "line_closed (se_wal (append_batch ts ps e)) \<and>
    map_of (replayed (append_batch ts ps e)) = map_of (replayed e) ++ map_of (rev ps)"
  using assms
proof (induction ts ps e rule: append_batch.induct)
  case (1 ts e)
  then show ?case by simp
next
  case (2 ts k v ps e)
  let ?e = "append_wal (ts 0) ''PUT'' k v e"
  have IH: "line_closed (se_wal (append_batch (\<lambda>i. ts (Suc i)) ps ?e)) \<and>
      map_of (replayed (append_batch (\<lambda>i. ts (Suc i)) ps ?e)) =
      map_of (replayed ?e) ++ map_of (rev ps)"
    using 2 by simp
  have "map_of (replayed ?e) = (map_of (replayed e))(k \<mapsto> v)"
    using "2.prems" by (simp add: append_wal_replay update_conv')
  with IH show ?case
    by (auto simp: map_add_def fun_eq_iff split: option.splits)
qed

section \<open>Durability\<close>

lemma replayed_cong: "se_wal a = se_wal b \<Longrightarrow> replayed a = replayed b"
  by (simp add: replayed_def)

lemma put_mem_wal [simp]:
  "se_wal (put_mem k v e) = se_wal e" "se_open (put_mem k v e) = se_open e"
  "replayed (put_mem k v e) = replayed e"
  by (simp_all add: put_mem_def replayed_def)

lemma put_batch_mem_wal [simp]:
  "se_wal (put_batch_mem ps e) = se_wal e" "se_open (put_batch_mem ps e) = se_open e"
  "replayed (put_batch_mem ps e) = replayed e"
  by (simp_all add: put_batch_mem_def replayed_def)

lemma durable_wal_exec:
  assumes d: "durable e" and c: "op_clean i"
  shows "line_closed (se_wal (store_exec e i)) \<and>
    map_of (replayed (store_exec e i)) = store_spec (map_of (replayed e)) i"
proof (cases i)
  case (OpPut ts k v)
  with d c show ?thesis
    by (simp add: put_def durable_def append_wal_replay update_conv')
next
  case (OpDel ts k)
  show ?thesis
  proof (cases "map_of (se_store e) k")
    case None
    with OpDel d show ?thesis
      by (auto simp: del_def del_mem_def durable_def store_abs_def)
  next
    case (Some v)
    let ?e = "e\<lparr>se_store := AList.delete k (se_store e)\<rparr>"
    have "replayed ?e = replayed e"
      by (rule replayed_cong) simp
    with Some OpDel d c show ?thesis
      by (simp add: del_def del_mem_def durable_def append_wal_replay delete_conv')
  qed
next
  case (OpBatch ts ps)
  with d c append_batch_replay [of "put_batch_mem ps e" ps ts] show ?thesis
    by (simp add: put_batch_def durable_def)
qed

lemma durable_exec: "durable e \<Longrightarrow> op_clean i \<Longrightarrow> durable (store_exec e i)"
  using durable_wal_exec [of e i]
  by (simp add: durable_def store_inv_exec store_exec_abs)

interpretation wal_ref: refinement "\<lambda>e. map_of (replayed e)" durable op_clean store_exec store_spec
  by unfold_locales (simp_all add: durable_exec durable_wal_exec)

definition restart :: "StorageEngine \<Rightarrow> StorageEngine" where
  "restart e = StorageEngine_ctor (se_wal_path e) (Some (se_wal e)) True"

lemma umap_wf_recover_lines:
  "umap_wf (fst st) \<Longrightarrow> umap_wf (fst (foldl recover_line st ls))"
proof (induction ls arbitrary: st)
  case (Cons l ls)
  have "umap_wf (fst (recover_line st l))"
    using Cons.prems by (auto simp: recover_line_def split: option.splits)
  with Cons show ?case by simp
qed simp

lemma umap_wf_recover: "umap_wf m \<Longrightarrow> umap_wf (fst (recover disk m))"
  using umap_wf_recover_lines [of "(m, 0)"] by (simp add: recover_def split: option.splits)

lemma store_inv_ctor: "store_inv (StorageEngine_ctor p disk a)"
  by (simp add: store_inv_def StorageEngine_ctor_def umap_wf_recover)

lemma restart_store: "se_store (restart e) = replayed e"
  by (simp add: restart_def StorageEngine_ctor_def replayed_def)

lemma durable_restart:
  assumes "durable e"
  shows "durable (restart e)" "store_abs (restart e) = store_abs e"
proof -
  have r: "se_wal (restart e) = se_wal e" "se_open (restart e)"
    by (simp_all add: restart_def StorageEngine_ctor_def)
  show s: "store_abs (restart e) = store_abs e"
    using assms by (simp add: store_abs_def restart_store durable_def)
  have "store_inv (restart e)"
    by (simp add: restart_def store_inv_ctor)
  with assms r s show "durable (restart e)"
    by (simp add: durable_def replayed_replay)
qed

lemma durable_fresh: "durable (StorageEngine_ctor p None True)"
  by (simp add: durable_def store_inv_def StorageEngine_ctor_def line_closed_def replayed_def
      recover_def store_abs_def)

lemma durable_run: "durable e \<Longrightarrow> (\<And>i. i \<in> set is \<Longrightarrow> op_clean i) \<Longrightarrow> durable (foldl store_exec e is)"
  by (rule wal_ref.run_inv)

section \<open>Separators and torn lines\<close>

lemma replay_one_line:
  assumes "line_closed w" "CHR 0x0A \<notin> set l"
  shows "replay (w @ l @ [CHR 0x0A]) = fst (recover_line (replay w, 0) l)"
  using assms getlines_line [of "CHR 0x0A" l "[]"] by (simp add: replay_append)

lemma line_closed_snoc [simp]: "line_closed (w @ l @ [CHR 0x0A])"
  by (simp add: line_closed_def)

lemma replay_torn_line:
  assumes "line_closed w" "CHR 0x0A \<notin> set l" "l \<noteq> []"
  shows "replay (w @ l) = fst (recover_line (replay w, 0) l)"
proof -
  have "getlines (CHR 0x0A) l = [l]"
    using assms by (simp add: getlines.simps [of _ l] std_getline_last)
  with assms show ?thesis by (simp add: replay_append)
qed

text \<open>The state a crash leaves when only \<open>n\<close> bytes of the record of a put reached the file.\<close>

definition torn_put :: "nat \<Rightarrow> int \<Rightarrow> string \<Rightarrow> string \<Rightarrow> StorageEngine \<Rightarrow> StorageEngine" where
  "torn_put n ts k v e = e\<lparr>se_wal := se_wal e @ take n (wal_line ''PUT'' k v ts)\<rparr>"

lemma restart_abs: "store_abs (restart e) = map_of (replay (se_wal e))"
  by (simp add: store_abs_def restart_store replayed_replay)

lemma durable_map: "durable e \<Longrightarrow> map_of (replay (se_wal e)) = store_abs e"
  by (simp add: durable_def replayed_replay)

lemma recover_put_line:
  assumes "wal_clean k" "wal_clean v" "v \<noteq> []"
  shows "fst (recover_line (m, n) (''PUT|'' @ k @ ''|'' @ v)) = AList.update k v m"
    and "fst (recover_line (m, n) (''PUT|'' @ k @ ''|'' @ v @ ''|'' @ r)) = AList.update k v m"
  using assms std_getline_delim [of "CHR ''|''" "''PUT''"]
  by (simp_all add: recover_line_def wal_clean_def std_getline_last)

section \<open>Properties\<close>

text \<open>C17: every run of puts, deletes and batches on a storage engine acts on its table as the
  same run acts on a finite map, and keeps the keys of the table distinct.\<close>

theorem store_refines_map:
  assumes "store_inv e"
  shows "store_abs (foldl store_exec e ops) = foldl store_spec (store_abs e) ops \<and>
    store_inv (foldl store_exec e ops)"
  using store_ref.run_abst [of e ops] store_ref.run_inv [of e ops] assms by simp

theorem store_refines_map_witness:
  "store_abs (foldl store_exec (StorageEngine_ctor ''w'' None True)
     [OpPut 1 ''a'' ''x'', OpPut 2 ''b'' ''y'', OpDel 3 ''a'']) = [''b'' \<mapsto> ''y'']"
proof -
  let ?e = "StorageEngine_ctor ''w'' None True"
  let ?ops = "[OpPut 1 ''a'' ''x'', OpPut 2 ''b'' ''y'', OpDel 3 ''a'']"
  have "store_abs (foldl store_exec ?e ?ops) = foldl store_spec (store_abs ?e) ?ops"
    using store_refines_map [OF store_inv_ctor, of "''w''" None True ?ops] by blast
  also have "store_abs ?e = Map.empty"
    by (simp add: StorageEngine_ctor_def recover_def store_abs_def)
  finally show ?thesis by (auto simp: fun_eq_iff)
qed

text \<open>What a caller sees of the operations of the storage engine: a put is read back and
  leaves the other keys, a delete removes its key only, reports whether the key was there and
  changes nothing, not even the log, when it was not, and a batch acts as its puts in order.\<close>

theorem store_crud:
  "get k' (put ts k v e) = (if k' = k then Some v else get k' e) \<and>
   get k' (fst (del ts k e)) = (if k' = k then None else get k' e) \<and>
   snd (del ts k e) = (get k e \<noteq> None) \<and>
   (get k e = None) = (fst (del ts k e) = e) \<and>
   get k' (put_batch bts ps e) = (case map_of (rev ps) k' of None \<Rightarrow> get k' e | Some w \<Rightarrow> Some w)"
proof -
  have "fst (del ts k e) = e \<Longrightarrow> get k e = None"
    using del_store [of ts k e] by (metis fun_upd_same get_abs)
  moreover have "get k e = None \<Longrightarrow> fst (del ts k e) = e"
    by (simp add: del_def del_mem_def get_def)
  ultimately have d: "(get k e = None) = (fst (del ts k e) = e)"
    by blast
  have p: "get k' (put ts k v e) = (if k' = k then Some v else get k' e)"
    by (simp add: get_def update_conv')
  have r: "get k' (fst (del ts k e)) = (if k' = k then None else get k' e)"
    using del_store [of ts k e] by (simp add: get_abs)
  have b: "get k' (put_batch bts ps e) = (case map_of (rev ps) k' of None \<Rightarrow> get k' e | Some w \<Rightarrow> Some w)"
    unfolding get_def by (simp add: map_of_update_list map_add_def)
  show ?thesis
    by (intro conjI p r d b del_removed)
qed

text \<open>C1: crash recovery. However often the node is restarted, and whatever puts, deletes and
  batches on separator-free texts it runs in between, the log rebuilds at each restart
  exactly the table that the operations so far had produced.\<close>

theorem crash_recovery:
  assumes "durable e" and "\<forall>ops \<in> set lives. \<forall>i \<in> set ops. op_clean i"
  shows "store_abs (foldl (\<lambda>e ops. restart (foldl store_exec e ops)) e lives) =
      foldl store_spec (store_abs e) (concat lives) \<and>
    durable (foldl (\<lambda>e ops. restart (foldl store_exec e ops)) e lives)"
  using assms
proof (induction lives arbitrary: e)
  case (Cons ops lives)
  let ?e = "foldl store_exec e ops"
  have d: "durable ?e"
    using Cons.prems by (intro durable_run) auto
  have "store_abs (restart ?e) = foldl store_spec (store_abs e) ops"
    using Cons.prems(1) store_ref.run_abst [of e ops]
    by (simp add: durable_restart(2) [OF d] durable_def)
  with Cons.IH [OF durable_restart(1) [OF d]] Cons.prems(2) show ?case by simp
qed simp

theorem crash_recovery_witness:
  "store_abs (foldl (\<lambda>e ops. restart (foldl store_exec e ops)) (StorageEngine_ctor ''w'' None True)
     [[OpPut 1 ''a'' ''x'', OpPut 2 ''b'' ''y''], [OpDel 3 ''a'', OpPut 4 ''b'' ''z'']]) =
   [''b'' \<mapsto> ''z'']"
proof -
  let ?e = "StorageEngine_ctor ''w'' None True"
  let ?lives = "[[OpPut 1 ''a'' ''x'', OpPut 2 ''b'' ''y''], [OpDel 3 ''a'', OpPut 4 ''b'' ''z'']]"
  have c: "\<forall>ops \<in> set ?lives. \<forall>i \<in> set ops. op_clean i"
    by (simp add: wal_clean_def)
  have "store_abs (foldl (\<lambda>e ops. restart (foldl store_exec e ops)) ?e ?lives) =
      foldl store_spec (store_abs ?e) (concat ?lives)"
    using crash_recovery [OF durable_fresh c] by blast
  also have "store_abs ?e = Map.empty"
    by (simp add: StorageEngine_ctor_def recover_def store_abs_def)
  finally show ?thesis by (auto simp: fun_eq_iff)
qed

text \<open>C21: the log does not escape its separators. A put whose value holds a separator, a
  number, a line end and the text of a log record for another key is replayed as two
  records: after a restart the other key has the value chosen by the writer.\<close>

theorem wal_injection:
  assumes "durable e" "wal_clean k" "wal_clean x" "wal_clean k2" "wal_clean y"
  shows "store_abs (restart (put ts k (x @ ''|0'' @ [CHR 0x0A] @ ''PUT|'' @ k2 @ ''|'' @ y) e)) =
    (store_abs e)(k \<mapsto> x, k2 \<mapsto> y)"
proof -
  let ?v = "x @ ''|0'' @ [CHR 0x0A] @ ''PUT|'' @ k2 @ ''|'' @ y"
  have eq: "se_wal (put ts k ?v e) =
      (se_wal e @ wal_line ''PUT'' k x 0) @ wal_line ''PUT'' k2 y ts"
    using assms(1) by (simp add: put_def append_wal_def put_mem_def durable_def wal_line_def)
  have "line_closed (se_wal e)"
    using assms(1) by (simp add: durable_def)
  then have "replay ((se_wal e @ wal_line ''PUT'' k x 0) @ wal_line ''PUT'' k2 y ts) =
      AList.update k2 y (AList.update k x (replay (se_wal e)))"
    using assms by (subst replay_wal_line) (simp_all add: replay_wal_line)
  then show ?thesis
    using assms(1) unfolding restart_abs eq by (simp add: update_conv' durable_map)
qed

theorem wal_injection_witness:
  "get ''admin'' (restart (put 7 ''note'' (''hi'' @ ''|0'' @ [CHR 0x0A] @ ''PUT|'' @ ''admin'' @ ''|'' @ ''yes'')
     (StorageEngine_ctor ''w'' None True))) = Some ''yes''"
  using wal_injection [OF durable_fresh [of "''w''"], of "''note''" "''hi''" "''admin''" "''yes''" 7]
  by (simp add: get_abs wal_clean_def)

text \<open>C22: a log record cut short by a crash is accepted when the cut falls inside the value: the
  key is recovered with a truncated value. The next record is then appended to the cut line,
  so that the first put after the restart is lost at the restart after it.\<close>

theorem torn_write:
  assumes "durable e" "wal_clean k" "wal_clean v" "v \<noteq> []" "wal_clean k2" "wal_clean v2"
    and "torn = torn_put (5 + length k + length v) tc k (v @ w) e"
  shows "store_abs (restart torn) = (store_abs e)(k \<mapsto> v) \<and>
    store_abs (restart (put ts k2 v2 (restart torn))) = (store_abs e)(k \<mapsto> v @ ''PUT'')"
proof -
  let ?cut = "''PUT|'' @ k @ ''|'' @ v"
  have cut: "take (5 + length k + length v) (wal_line ''PUT'' k (v @ w) tc) = ?cut"
    by (simp add: wal_line_def eval_nat_numeral)
  have lc: "line_closed (se_wal e)" and nl: "CHR 0x0A \<notin> set ?cut"
    using assms by (auto simp: durable_def wal_clean_def)
  have "map_of (replay (se_wal e @ ?cut)) = (store_abs e)(k \<mapsto> v)"
    using assms replay_torn_line [OF lc nl]
    by (simp add: recover_put_line [simplified] update_conv' durable_map)
  then have torn: "store_abs (restart torn) = (store_abs e)(k \<mapsto> v)"
    using assms(7) cut by (simp add: restart_abs torn_put_def)
  let ?line = "''PUT|'' @ k @ ''|'' @ (v @ ''PUT'') @ ''|'' @ k2 @ ''|'' @ v2 @ ''|'' @ to_string ts"
  have "se_wal (put ts k2 v2 (restart torn)) = se_wal e @ ?line @ [CHR 0x0A]"
    using assms(7) cut
    by (simp add: put_def append_wal_def restart_def StorageEngine_ctor_def put_mem_def
        torn_put_def wal_line_def)
  moreover have "CHR 0x0A \<notin> set ?line"
    using assms by (auto simp: wal_clean_def)
  ultimately have "store_abs (restart (put ts k2 v2 (restart torn))) =
      map_of (fst (recover_line (replay (se_wal e), 0) ?line))"
    using replay_one_line [OF lc] by (metis restart_abs)
  then show ?thesis
    using torn assms recover_put_line(2) [of k "v @ ''PUT''" "replay (se_wal e)" 0]
    by (simp add: update_conv' durable_map)
qed

theorem torn_write_witness:
  "\<exists>torn. torn = torn_put (5 + length ''k'' + length ''ab'') 1 ''k'' (''ab'' @ ''cd'') (StorageEngine_ctor ''w'' None True) \<and>
     get ''k'' (restart torn) = Some ''ab'' \<and>
     get ''j'' (restart (put 2 ''j'' ''v'' (restart torn))) = None"
proof -
  let ?e = "StorageEngine_ctor ''w'' None True"
  let ?torn = "torn_put (5 + length ''k'' + length ''ab'') 1 ''k'' (''ab'' @ ''cd'') ?e"
  have c: "wal_clean ''k''" "wal_clean ''ab''" "''ab'' \<noteq> []" "wal_clean ''j''" "wal_clean ''v''"
    by (simp_all add: wal_clean_def)
  have "store_abs ?e = Map.empty"
    by (simp add: StorageEngine_ctor_def recover_def store_abs_def)
  with torn_write [OF durable_fresh c refl, where tc = 1 and w = "''cd''" and ts = 2]
  show ?thesis by (simp add: get_abs)
qed

end
