(* ===== verification/Storage_Concurrency.thy ===== *)
theory Storage_Concurrency
  imports Wal_Recovery
begin

text \<open>
  Concurrent use of the storage engine. The source changes the table under one lock and appends to
  the log under another, so that the appends of an operation may come after steps of other
  threads. A thread holds the appends of its current operation and the operations it still has
  to do; a step is one critical section of one thread. The lemmas show that a restart recovers
  the table whenever no append is pending and different threads use different keys, and that it
  may not when two threads write one key.
\<close>

section \<open>Threads\<close>

type_synonym wal_record = "int \<times> string \<times> string \<times> string"

text \<open>The first critical section of an operation, and the records it still has to append.\<close>

fun op_mem :: "store_op \<Rightarrow> StorageEngine \<Rightarrow> StorageEngine \<times> wal_record list" where
  "op_mem (OpPut ts k v) e = (put_mem k v e, [(ts, ''PUT'', k, v)])"
| "op_mem (OpDel ts k) e = (case del_mem k e of (e', removed) \<Rightarrow> (e', if removed then [(ts, ''DEL'', k, [])] else []))"
| "op_mem (OpBatch tms ps) e = (put_batch_mem ps e, map (\<lambda>(i, k, v). (tms i, ''PUT'', k, v)) (enumerate 0 ps))"

fun append_record :: "wal_record \<Rightarrow> StorageEngine \<Rightarrow> StorageEngine" where
  "append_record (ts, oper, k, v) e = append_wal ts oper k v e"

type_synonym store_thread = "wal_record list \<times> store_op list"

inductive conc_step :: "StorageEngine \<times> store_thread list \<Rightarrow> StorageEngine \<times> store_thread list \<Rightarrow> bool" where
  conc_mem: "i < length ths \<Longrightarrow> ths ! i = ([], oper # ops) \<Longrightarrow> op_mem oper e = (e', pend) \<Longrightarrow>
    conc_step (e, ths) (e', ths[i := (pend, ops)])"
| conc_log: "i < length ths \<Longrightarrow> ths ! i = (r # pend, ops) \<Longrightarrow>
    conc_step (e, ths) (append_record r e, ths[i := (pend, ops)])"

inductive_cases conc_stepE: "conc_step (e, ths) s'"

section \<open>One thread\<close>

text \<open>Without interference the critical sections of an operation make up the operation.\<close>

lemma append_batch_records:
  "append_batch (\<lambda>i. tms (n + i)) ps e = fold append_record (map (\<lambda>(i, k, v). (tms i, ''PUT'', k, v)) (enumerate n ps)) e"
proof (induction ps arbitrary: n e)
  case (Cons p ps)
  obtain k v where p: "p = (k, v)" by force
  show ?case using Cons.IH [of "Suc n"] by (simp add: p)
qed simp

lemma op_sections: "op_mem oper e = (e', pend) \<Longrightarrow> fold append_record pend e' = store_exec e oper"
  using append_batch_records [where n = 0]
  by (cases oper) (auto simp: put_def del_def put_batch_def split: prod.splits)

lemma run_records:
  "conc_step\<^sup>*\<^sup>* (e, [(pend, ops)]) (fold append_record pend e, [([], ops)])"
proof (induction pend arbitrary: e)
  case (Cons r pend)
  have "conc_step (e, [(r # pend, ops)]) (append_record r e, [(r # pend, ops)][0 := (pend, ops)])"
    by (rule conc_log) simp_all
  with Cons.IH [of "append_record r e"] show ?case by (simp add: converse_rtranclp_into_rtranclp)
qed simp

lemma run_alone: "conc_step\<^sup>*\<^sup>* (e, [([], ops)]) (foldl store_exec e ops, [([], [])])"
proof (induction ops arbitrary: e)
  case (Cons oper ops)
  obtain e' pend where o: "op_mem oper e = (e', pend)" by force
  have "conc_step (e, [([], oper # ops)]) (e', [([], oper # ops)][0 := (pend, ops)])"
    by (rule conc_mem [OF _ _ o]) simp_all
  then have "conc_step (e, [([], oper # ops)]) (e', [(pend, ops)])" by simp
  also have "conc_step\<^sup>*\<^sup>* (e', [(pend, ops)]) (store_exec e oper, [([], ops)])"
    using run_records [of e' pend ops] by (simp add: op_sections [OF o])
  also note Cons.IH [of "store_exec e oper"]
  finally show ?case by simp
qed simp

section \<open>Threads with keys of their own\<close>

fun op_keys :: "store_op \<Rightarrow> string set" where
  "op_keys (OpPut ts k v) = {k}"
| "op_keys (OpDel ts k) = {k}"
| "op_keys (OpBatch tms ps) = fst ` set ps"

text \<open>What a record does to the table that a replay builds.\<close>

fun record_spec :: "wal_record \<Rightarrow> kv_state \<Rightarrow> kv_state" where
  "record_spec (ts, oper, k, v) m = (if oper = ''PUT'' then m(k \<mapsto> v) else m(k := None))"

fun record_ok :: "string set \<Rightarrow> wal_record \<Rightarrow> bool" where
  "record_ok K (ts, oper, k, v) \<longleftrightarrow> (oper = ''PUT'' \<or> oper = ''DEL'') \<and> wal_clean k \<and> wal_clean v \<and> k \<in> K"

text \<open>
  The keys are divided among the threads by \<open>K\<close>. The invariant: what the log replays to, changed by
  the records that a thread has still to append, is the table on the keys of the thread.
\<close>

definition conc_inv :: "(string \<Rightarrow> nat) \<Rightarrow> StorageEngine \<times> store_thread list \<Rightarrow> bool" where
  "conc_inv own = (\<lambda>(e, ths). store_inv e \<and> se_open e \<and> line_closed (se_wal e) \<and>
     (\<forall>i < length ths. (\<forall>r \<in> set (fst (ths ! i)). record_ok {k. own k = i} r) \<and>
        (\<forall>oper \<in> set (snd (ths ! i)). op_clean oper \<and> (\<forall>k \<in> op_keys oper. own k = i))) \<and>
     (\<forall>k. (if own k < length ths then fold record_spec (fst (ths ! own k)) (map_of (replayed e)) k
        else map_of (replayed e) k) = store_abs e k))"

lemma record_spec_cong:
  "m k = m' k \<Longrightarrow> fold record_spec rs m k = fold record_spec rs m' k"
proof (induction rs arbitrary: m m')
  case (Cons r rs)
  have "record_spec r m k = record_spec r m' k" using Cons.prems by (cases r) simp
  with Cons.IH [of "record_spec r m" "record_spec r m'"] show ?case by simp
qed simp

lemma record_spec_other:
  "(\<And>r. r \<in> set rs \<Longrightarrow> record_ok K r) \<Longrightarrow> k \<notin> K \<Longrightarrow> fold record_spec rs m k = m k"
proof (induction rs arbitrary: m)
  case (Cons r rs)
  obtain ts oper k' v where r: "r = (ts, oper, k', v)" by (cases r)
  have "k' \<noteq> k" using Cons.prems(1) [of r] Cons.prems(2) by (auto simp: r)
  with Cons.IH [of "record_spec r m"] Cons.prems show ?case by (simp add: r)
qed simp

lemma append_record_replay:
  assumes "se_open e" "line_closed (se_wal e)" "record_ok K r"
  shows "map_of (replayed (append_record r e)) = record_spec r (map_of (replayed e))"
    "se_open (append_record r e)" "line_closed (se_wal (append_record r e))" "store_abs (append_record r e) = store_abs e"
    "store_inv (append_record r e) = store_inv e"
  using assms
  by (cases r; auto simp: append_wal_replay update_conv' delete_conv' store_abs_def store_inv_def)+

text \<open>The first section of an operation leaves the log alone, and its records bring the log in line.\<close>

lemma batch_records_spec:
  "fold record_spec (map (\<lambda>(i, k, v). (tms i, ''PUT'', k, v)) (enumerate n ps)) m = m ++ map_of (rev ps)"
proof (induction ps arbitrary: n m)
  case (Cons p ps)
  obtain k v where p: "p = (k, v)" by force
  have "fold record_spec (map (\<lambda>(i, k, v). (tms i, ''PUT'', k, v)) (enumerate n (p # ps))) m =
      fold record_spec (map (\<lambda>(i, k, v). (tms i, ''PUT'', k, v)) (enumerate (Suc n) ps)) (m(k \<mapsto> v))"
    by (simp add: p)
  also have "\<dots> = m(k \<mapsto> v) ++ map_of (rev ps)" by (rule Cons.IH)
  also have "\<dots> = m ++ map_of (rev (p # ps))" by (simp add: p)
  finally show ?case .
qed simp

lemma op_mem_result:
  assumes "op_mem oper e = (e', pend)" "store_inv e" "op_clean oper"
  shows "se_wal e' = se_wal e" "se_open e' = se_open e" "store_inv e'"
    "store_abs e' = store_spec (store_abs e) oper" "fold record_spec pend (store_abs e) = store_abs e'"
    "r \<in> set pend \<Longrightarrow> record_ok (op_keys oper) r"
proof -
  have e: "fold append_record pend e' = store_exec e oper" using op_sections [OF assms(1)] .
  have "se_store (append_record r f) = se_store f" for r f by (cases r) simp
  then have "se_store (fold append_record rs f) = se_store f" for rs f by (induction rs arbitrary: f) simp_all
  then have keep: "store_abs (fold append_record rs f) = store_abs f" "store_inv (fold append_record rs f) = store_inv f" for rs f
    by (simp_all add: store_abs_def store_inv_def)
  show w: "se_wal e' = se_wal e" "se_open e' = se_open e"
    using assms(1) by (cases oper; auto simp: put_mem_def del_mem_def put_batch_mem_def split: option.splits prod.splits)+
  show "store_inv e'" and abs: "store_abs e' = store_spec (store_abs e) oper"
    using keep [of pend e'] e store_inv_exec [OF assms(2), of oper] store_exec_abs [OF assms(2), of oper] by simp_all
  show "fold record_spec pend (store_abs e) = store_abs e'"
  proof (cases oper)
    case (OpPut ts k v)
    then show ?thesis using assms(1) unfolding abs by auto
  next
    case (OpDel ts k)
    show ?thesis
    proof (cases "map_of (se_store e) k")
      case None
      then have "(store_abs e)(k := None) = store_abs e" by (simp add: store_abs_def fun_upd_idem)
      with None OpDel assms(1) show ?thesis unfolding abs by (auto simp: del_mem_def)
    next
      case (Some v)
      with OpDel assms(1) show ?thesis unfolding abs by (auto simp: del_mem_def)
    qed
  next
    case (OpBatch tms ps)
    then show ?thesis using assms(1) unfolding abs by (auto simp: batch_records_spec)
  qed
  show "r \<in> set pend \<Longrightarrow> record_ok (op_keys oper) r"
  proof (cases oper)
    case (OpBatch tms ps)
    assume "r \<in> set pend"
    then obtain i k v where r: "r = (tms i, ''PUT'', k, v)" "(k, v) \<in> set ps"
      using assms(1) OpBatch by (auto simp: in_set_enumerate_eq) (metis nth_mem)
    with assms(3) OpBatch show ?thesis by force
  qed (use assms(1,3) in \<open>auto simp: del_mem_def split: option.splits if_splits\<close>)
qed

lemma conc_invD:
  assumes "conc_inv own (e, ths)"
  shows "store_inv e" "se_open e" "line_closed (se_wal e)"
    "i < length ths \<Longrightarrow> r \<in> set (fst (ths ! i)) \<Longrightarrow> record_ok {k. own k = i} r"
    "i < length ths \<Longrightarrow> oper \<in> set (snd (ths ! i)) \<Longrightarrow> op_clean oper"
    "i < length ths \<Longrightarrow> oper \<in> set (snd (ths ! i)) \<Longrightarrow> k \<in> op_keys oper \<Longrightarrow> own k = i"
    "own k < length ths \<Longrightarrow> fold record_spec (fst (ths ! own k)) (map_of (replayed e)) k = store_abs e k"
    "\<not> own k < length ths \<Longrightarrow> map_of (replayed e) k = store_abs e k"
proof -
  have "\<forall>k. (if own k < length ths then fold record_spec (fst (ths ! own k)) (map_of (replayed e)) k
        else map_of (replayed e) k) = store_abs e k"
    using assms by (simp add: conc_inv_def)
  then show "own k < length ths \<Longrightarrow> fold record_spec (fst (ths ! own k)) (map_of (replayed e)) k = store_abs e k"
    "\<not> own k < length ths \<Longrightarrow> map_of (replayed e) k = store_abs e k" by presburger+
qed (use assms in \<open>auto simp: conc_inv_def\<close>)

lemma conc_invI:
  assumes "store_inv e" "se_open e" "line_closed (se_wal e)"
    and "\<And>i. i < length ths \<Longrightarrow> (\<forall>r \<in> set (fst (ths ! i)). record_ok {k. own k = i} r) \<and>
        (\<forall>oper \<in> set (snd (ths ! i)). op_clean oper \<and> (\<forall>k \<in> op_keys oper. own k = i))"
    and "\<And>k. (if own k < length ths then fold record_spec (fst (ths ! own k)) (map_of (replayed e)) k
        else map_of (replayed e) k) = store_abs e k"
  shows "conc_inv own (e, ths)"
  unfolding conc_inv_def prod.case using assms by blast

text \<open>An operation changes the table at its keys only.\<close>

lemma store_spec_other: "k \<notin> op_keys oper \<Longrightarrow> store_spec m oper k = m k"
  by (cases oper) (auto simp: map_add_def map_of_eq_None_iff split: option.split dest!: map_of_SomeD intro: rev_image_eqI)

lemma conc_mem_inv:
  assumes inv: "conc_inv own (e, ths)" and i: "i < length ths" "ths ! i = ([], oper # ops)" and o: "op_mem oper e = (e', pend)"
  shows "conc_inv own (e', ths[i := (pend, ops)])"
proof -
  note I = conc_invD [OF inv]
  have c: "op_clean oper" "\<And>k. k \<in> op_keys oper \<Longrightarrow> own k = i" using I(5,6) [OF i(1), of oper] i(2) by simp_all
  note R = op_mem_result [OF o I(1) c(1)]
  have rep: "replayed e' = replayed e" using R(1) by (rule replayed_cong)
  have pend: "record_ok {k. own k = i} r" if "r \<in> set pend" for r
    using R(6) [OF that] c(2) by (cases r) auto
  have val: "(if own k < length (ths[i := (pend, ops)]) then fold record_spec (fst (ths[i := (pend, ops)] ! own k)) (map_of (replayed e')) k
      else map_of (replayed e') k) = store_abs e' k" for k
  proof (cases "own k = i")
    case True
    have "map_of (replayed e) k = store_abs e k" using I(7) [of k] True i by simp
    then have "fold record_spec pend (map_of (replayed e)) k = fold record_spec pend (store_abs e) k" by (rule record_spec_cong)
    with R(5) True i(1) show ?thesis by (simp add: rep)
  next
    case False
    then have "store_abs e' k = store_abs e k" using c(2) store_spec_other [of k oper] R(4) by auto
    with I(7,8) [of k] False show ?thesis by (simp add: rep)
  qed
  have th: "(\<forall>r \<in> set (fst (ths[i := (pend, ops)] ! j)). record_ok {k. own k = j} r) \<and>
      (\<forall>oper \<in> set (snd (ths[i := (pend, ops)] ! j)). op_clean oper \<and> (\<forall>k \<in> op_keys oper. own k = j))" if "j < length ths" for j
    using I(4-6) [OF that] I(5,6) [OF i(1)] pend i that by (cases "j = i") auto
  show ?thesis
    by (rule conc_invI [OF R(3) _ _ th val]) (simp_all add: R(1,2) I(2,3))
qed

lemma conc_log_inv:
  assumes inv: "conc_inv own (e, ths)" and i: "i < length ths" "ths ! i = (r # pend, ops)"
  shows "conc_inv own (append_record r e, ths[i := (pend, ops)])"
proof -
  note I = conc_invD [OF inv]
  have ok: "record_ok {k. own k = i} r" using I(4) [OF i(1)] i(2) by simp
  note A = append_record_replay [OF I(2,3) ok]
  have val: "(if own k < length (ths[i := (pend, ops)])
      then fold record_spec (fst (ths[i := (pend, ops)] ! own k)) (record_spec r (map_of (replayed e))) k
      else record_spec r (map_of (replayed e)) k) = store_abs e k" for k
  proof (cases "own k = i")
    case True
    with I(7) [of k] i show ?thesis by simp
  next
    case False
    then have "record_spec r (map_of (replayed e)) k = map_of (replayed e) k"
      using record_spec_other [of "[r]" "{k. own k = i}" k] ok by simp
    from record_spec_cong [of "record_spec r (map_of (replayed e))" k "map_of (replayed e)", OF this] this I(7,8) [of k] False show ?thesis by simp
  qed
  have th: "(\<forall>r \<in> set (fst (ths[i := (pend, ops)] ! j)). record_ok {k. own k = j} r) \<and>
      (\<forall>oper \<in> set (snd (ths[i := (pend, ops)] ! j)). op_clean oper \<and> (\<forall>k \<in> op_keys oper. own k = j))" if "j < length ths" for j
    using I(4-6) [OF that] i that by (cases "j = i") auto
  show ?thesis
    by (rule conc_invI [OF _ A(2,3) th]) (simp_all only: A(5) I(1) length_list_update, simp only: A(1,4) val [unfolded length_list_update])
qed

lemma conc_inv_steps: "conc_step\<^sup>*\<^sup>* s s' \<Longrightarrow> conc_inv own s \<Longrightarrow> conc_inv own s'"
proof (induction rule: rtranclp_induct)
  case (step s' s'')
  from step.hyps(2) step.IH [OF step.prems] show ?case
    by cases (auto intro: conc_mem_inv conc_log_inv)
qed

section \<open>Properties\<close>

text \<open>C39: concurrent writers with keys of their own. Threads put, delete and load batches at the same
  time, each on its own keys and with texts that hold no separator; the critical sections of
  the table and of the log interleave in any way. Whenever no record is waiting to be appended,
  a restart recovers the table as it is.\<close>

theorem concurrent_recovery:
  assumes "durable e" "conc_step\<^sup>*\<^sup>* (e, map (\<lambda>ops. ([], ops)) opss) (e', ths)"
    and "\<And>i oper. i < length opss \<Longrightarrow> oper \<in> set (opss ! i) \<Longrightarrow> op_clean oper \<and> (\<forall>k \<in> op_keys oper. own k = i)"
    and "\<And>t. t \<in> set ths \<Longrightarrow> fst t = []"
  shows "durable e' \<and> store_abs (restart e') = store_abs e'"
proof -
  have "conc_inv own (e, map (\<lambda>ops. ([], ops)) opss)"
    using assms(1,3) by (simp add: conc_inv_def durable_def)
  then have inv: "conc_inv own (e', ths)" by (rule conc_inv_steps [OF assms(2)])
  have "map_of (replayed e') k = store_abs e' k" for k
    using conc_invD(7,8) [OF inv, of k] assms(4) [of "ths ! own k"] by (cases "own k < length ths") auto
  then have "durable e'" using conc_invD(1-3) [OF inv] by (auto simp: durable_def)
  with durable_restart show ?thesis by blast
qed

theorem concurrent_recovery_witness:
  "\<exists>e' ths. conc_step\<^sup>*\<^sup>* (StorageEngine_ctor ''w'' None True, [([], [OpPut 1 ''a'' ''x'', OpDel 2 ''a'']), ([], [])]) (e', ths) \<and>
     (\<forall>t \<in> set ths. fst t = []) \<and> store_abs (restart e') = store_abs e' \<and> store_abs e' ''a'' = Some ''x''"
proof -
  let ?e = "StorageEngine_ctor ''w'' None True" and ?ops = "[OpDel 2 ''a'']"
  let ?e1 = "put_mem ''a'' ''x'' ?e" and ?r = "(1, ''PUT'', ''a'', ''x'')"
  let ?e2 = "append_record ?r ?e1"
  have "conc_step (?e, [([], OpPut 1 ''a'' ''x'' # ?ops), ([], [])]) (?e1, [([], OpPut 1 ''a'' ''x'' # ?ops), ([], [])][0 := ([?r], ?ops)])"
    by (rule conc_mem, simp, simp, simp)
  moreover have "conc_step (?e1, [([?r], ?ops), ([], [])]) (?e2, [([?r], ?ops), ([], [])][0 := ([], ?ops)])"
    by (rule conc_log) simp_all
  ultimately have st: "conc_step\<^sup>*\<^sup>* (?e, map (\<lambda>ops. ([], ops)) [[OpPut 1 ''a'' ''x'', OpDel 2 ''a''], []]) (?e2, [([], ?ops), ([], [])])"
    by simp
  have "durable ?e2 \<and> store_abs (restart ?e2) = store_abs ?e2"
    by (rule concurrent_recovery [OF durable_fresh st, where own = "\<lambda>_. 0"])
      (auto simp: less_Suc_eq wal_clean_def)
  moreover have "store_abs ?e2 ''a'' = Some ''x''" by (simp add: store_abs_def put_mem_def update_conv')
  ultimately show ?thesis using st by (intro exI conjI) auto
qed

text \<open>C40: two threads that put one key may leave a log that replays to the value that was overwritten:
  the table and the log are changed under different locks, so the second writer of the table
  may be the first to append. After all threads are done, the table has one value and a restart
  gives the other.\<close>

theorem concurrent_put_race:
  assumes "durable e" "wal_clean k" "wal_clean v1" "wal_clean v2"
  shows "\<exists>e'. conc_step\<^sup>*\<^sup>* (e, [([], [OpPut t1 k v1]), ([], [OpPut t2 k v2])]) (e', [([], []), ([], [])]) \<and>
    store_abs e' k = Some v2 \<and> store_abs (restart e') k = Some v1"
proof -
  let ?r1 = "(t1, ''PUT'', k, v1)" and ?r2 = "(t2, ''PUT'', k, v2)"
  let ?e2 = "put_mem k v2 (put_mem k v1 e)"
  have "conc_step (e, [([], [OpPut t1 k v1]), ([], [OpPut t2 k v2])])
      (put_mem k v1 e, [([], [OpPut t1 k v1]), ([], [OpPut t2 k v2])][0 := ([?r1], [])])"
    by (rule conc_mem, simp, simp, simp)
  moreover have "conc_step (put_mem k v1 e, [([?r1], []), ([], [OpPut t2 k v2])])
      (?e2, [([?r1], []), ([], [OpPut t2 k v2])][1 := ([?r2], [])])"
    by (rule conc_mem, simp, simp, simp)
  moreover have "conc_step (?e2, [([?r1], []), ([?r2], [])]) (append_record ?r2 ?e2, [([?r1], []), ([?r2], [])][1 := ([], [])])"
    by (rule conc_log) simp_all
  moreover have "conc_step (append_record ?r2 ?e2, [([?r1], []), ([], [])])
      (append_record ?r1 (append_record ?r2 ?e2), [([?r1], []), ([], [])][0 := ([], [])])"
    by (rule conc_log) simp_all
  ultimately have st: "conc_step\<^sup>*\<^sup>* (e, [([], [OpPut t1 k v1]), ([], [OpPut t2 k v2])])
      (append_record ?r1 (append_record ?r2 ?e2), [([], []), ([], [])])"
    by (simp add: converse_rtranclp_into_rtranclp)
  have w: "se_open ?e2" "line_closed (se_wal ?e2)"
    using assms(1) by (simp_all add: durable_def put_mem_def)
  have ok: "record_ok UNIV ?r1" "record_ok UNIV ?r2" using assms(2-4) by simp_all
  note A2 = append_record_replay [OF w ok(2)]
  note A1 = append_record_replay [OF A2(2,3) ok(1)]
  have "store_abs (append_record ?r1 (append_record ?r2 ?e2)) k = Some v2"
    using A1(4) A2(4) by (simp add: store_abs_def put_mem_def update_conv')
  moreover have "store_abs (restart (append_record ?r1 (append_record ?r2 ?e2))) k = Some v1"
    using A1(1) by (simp add: store_abs_def restart_store)
  ultimately show ?thesis using st by blast
qed

theorem concurrent_put_race_witness:
  "\<exists>e'. conc_step\<^sup>*\<^sup>* (StorageEngine_ctor ''w'' None True, [([], [OpPut 1 ''k'' ''a'']), ([], [OpPut 2 ''k'' ''b''])]) (e', [([], []), ([], [])]) \<and>
     store_abs e' ''k'' = Some ''b'' \<and> store_abs (restart e') ''k'' = Some ''a''"
  using concurrent_put_race [OF durable_fresh, of "''k''" "''a''" "''b''"] by (simp add: wal_clean_def)

end
