(* ===== verification/Json_Value.thy ===== *)
theory Json_Value
  imports Std_Map
begin

text \<open>
  The values of \<^verbatim>\<open>nlohmann::json\<close> (\<^verbatim>\<open>include/nlohmann/json.hpp\<close>) and the accessors that the
  message code calls. An object is a \<^verbatim>\<open>std::map\<close> ordered by the bytes of its keys, an integer
  is a 64-bit integer, signed or unsigned, and a floating-point number is an IEEE double: a
  sign, a mantissa and a binary exponent, or an infinity. An accessor that throws returns
  \<open>Inl\<close>. The library is compiled with \<^verbatim>\<open>JSON_DIAGNOSTICS\<close> off, its default.
\<close>

section \<open>Doubles\<close>

datatype double = Finite bool nat int | Infinite bool

fun bit_length :: "nat \<Rightarrow> nat" where
  "bit_length n = (if n = 0 then 0 else Suc (bit_length (n div 2)))"

declare bit_length.simps [simp del]

text \<open>Rounding of a quotient to the nearest integer, ties to even.\<close>

definition round_even :: "nat \<Rightarrow> nat \<Rightarrow> nat" where
  "round_even p q = (let d = p div q; r = p mod q
     in if 2 * r < q then d else if q < 2 * r then Suc d else if even d then d else Suc d)"

text \<open>The exponent of the leading bit of \<open>p / q\<close>.\<close>

definition floor_log2 :: "nat \<Rightarrow> nat \<Rightarrow> int" where
  "floor_log2 p q = (let k = int (bit_length p) - int (bit_length q);
       ge = (if 0 \<le> k then q * 2 ^ nat k \<le> p else q \<le> p * 2 ^ nat (- k))
     in if ge then k else k - 1)"

text \<open>The double nearest to \<open>p / q\<close>: 53 bits, exponents from -1074 on, overflow to infinity.\<close>

definition round_double :: "bool \<Rightarrow> nat \<Rightarrow> nat \<Rightarrow> double" where
  "round_double neg p q = (if p = 0 then Finite neg 0 0
     else let e = max (-1074) (floor_log2 p q - 52);
              m = (if 0 \<le> e then round_even p (q * 2 ^ nat e) else round_even (p * 2 ^ nat (- e)) q)
          in if 0 \<le> e \<and> 2 ^ 1024 \<le> m * 2 ^ nat e then Infinite neg else Finite neg m e)"

definition isfinite :: "double \<Rightarrow> bool" where
  "isfinite x = (case x of Finite _ _ _ \<Rightarrow> True | Infinite _ \<Rightarrow> False)"

text \<open>
  \<^verbatim>\<open>std::strtod\<close> on the text of a JSON number: digits, an optional fraction, an optional
  exponent. The text is in the grammar of the lexer, so the whole of it is converted.
\<close>

definition strtod :: "string \<Rightarrow> double" where
  "strtod s =
    (let neg = (s \<noteq> [] \<and> hd s = CHR ''-'');
         t = (if neg then tl s else s);
         ip = takeWhile is_digit t; r = dropWhile is_digit t;
         fp = (if r \<noteq> [] \<and> hd r = CHR ''.'' then takeWhile is_digit (tl r) else []);
         r = (if r \<noteq> [] \<and> hd r = CHR ''.'' then dropWhile is_digit (tl r) else r);
         x = (if r = [] then [] else tl r);
         xneg = (x \<noteq> [] \<and> hd x = CHR ''-'');
         xd = (if x \<noteq> [] \<and> (hd x = CHR ''-'' \<or> hd x = CHR ''+'') then tl x else x);
         e = (if xneg then - int (dec_val xd) else int (dec_val xd)) - int (length fp);
         d = dec_val (ip @ fp)
     in if 0 \<le> e then round_double neg (d * 10 ^ nat e) 1 else round_double neg d (10 ^ nat (- e)))"

text \<open>
  \<^verbatim>\<open>static_cast\<close> of a double to a signed integer of \<open>w\<close> bits: truncation. A value outside the
  range is undefined in C++; this is the value that the conversion instruction of x86-64 gives.
\<close>

definition double_to_int :: "nat \<Rightarrow> double \<Rightarrow> int" where
  "double_to_int w x = (case x of Infinite _ \<Rightarrow> - (2 ^ (w - 1))
     | Finite neg m e \<Rightarrow>
        (let t = (if 0 \<le> e then int m * 2 ^ nat e else int (m div 2 ^ nat (- e)));
             v = (if neg then - t else t)
         in if int_range w v then v else - (2 ^ (w - 1))))"

section \<open>Values\<close>

datatype json = JNull | JObject "(string \<times> json) list" | JArray "json list" | JString string
  | JBoolean bool | JInteger int | JUnsigned int | JFloat double
  | JBinary "nat list" "nat option" | JDiscarded

fun type_name :: "json \<Rightarrow> string" where
  "type_name JNull = ''null''"
| "type_name (JObject _) = ''object''"
| "type_name (JArray _) = ''array''"
| "type_name (JString _) = ''string''"
| "type_name (JBoolean _) = ''boolean''"
| "type_name (JBinary _ _) = ''binary''"
| "type_name JDiscarded = ''discarded''"
| "type_name (JInteger _) = ''number''"
| "type_name (JUnsigned _) = ''number''"
| "type_name (JFloat _) = ''number''"

section \<open>Exceptions\<close>

definition exn_name :: "string \<Rightarrow> int \<Rightarrow> string" where
  "exn_name ename i = ''[json.exception.'' @ ename @ ''.'' @ to_string i @ ''] ''"

definition type_error :: "int \<Rightarrow> string \<Rightarrow> std_exn" where
  "type_error i w = json_exception i (exn_name ''type_error'' i @ w)"

definition out_of_range :: "int \<Rightarrow> string \<Rightarrow> std_exn" where
  "out_of_range i w = json_exception i (exn_name ''out_of_range'' i @ w)"

text \<open>The position of the lexer, for the text of parse errors.\<close>

record position_t =
  chars_read_total :: nat
  chars_read_current_line :: nat
  lines_read :: nat

definition position_string :: "position_t \<Rightarrow> string" where
  "position_string pos = '' at line '' @ to_string (int (lines_read pos + 1)) @ '', column ''
     @ to_string (int (chars_read_current_line pos))"

definition parse_error :: "int \<Rightarrow> position_t \<Rightarrow> string \<Rightarrow> std_exn" where
  "parse_error i pos w = json_exception i
     (exn_name ''parse_error'' i @ ''parse error'' @ position_string pos @ '': '' @ w)"

section \<open>Accessors\<close>

text \<open>\<open>get<int64_t>()\<close>, \<open>get<int>()\<close> (which also takes a Boolean), \<open>get<bool>()\<close>, \<open>get<std::string>()\<close>.\<close>

fun get_arithmetic_value :: "json \<Rightarrow> std_exn + int" where
  "get_arithmetic_value (JUnsigned n) = Inr (narrow 64 n)"
| "get_arithmetic_value (JInteger n) = Inr n"
| "get_arithmetic_value (JFloat x) = Inr (double_to_int 64 x)"
| "get_arithmetic_value j = Inl (type_error 302 (''type must be number, but is '' @ type_name j))"

fun get_int :: "json \<Rightarrow> std_exn + int" where
  "get_int (JUnsigned n) = Inr (narrow 32 n)"
| "get_int (JInteger n) = Inr (narrow 32 n)"
| "get_int (JFloat x) = Inr (double_to_int 32 x)"
| "get_int (JBoolean b) = Inr (if b then 1 else 0)"
| "get_int j = Inl (type_error 302 (''type must be number, but is '' @ type_name j))"

fun get_boolean :: "json \<Rightarrow> std_exn + bool" where
  "get_boolean (JBoolean b) = Inr b"
| "get_boolean j = Inl (type_error 302 (''type must be boolean, but is '' @ type_name j))"

fun get_str :: "json \<Rightarrow> std_exn + string" where
  "get_str (JString s) = Inr s"
| "get_str j = Inl (type_error 302 (''type must be string, but is '' @ type_name j))"

text \<open>\<open>j.value(key, default)\<close>, with the conversion that the type of the default selects.\<close>

fun value_or :: "(json \<Rightarrow> std_exn + 'a) \<Rightarrow> string \<Rightarrow> 'a \<Rightarrow> json \<Rightarrow> std_exn + 'a" where
  "value_or conv key dflt (JObject m) =
     (case map_of m key of Some j \<Rightarrow> conv j | None \<Rightarrow> Inr dflt)"
| "value_or conv key dflt j = Inl (type_error 306 (''cannot use value() with '' @ type_name j))"

fun contains :: "string \<Rightarrow> json \<Rightarrow> bool" where
  "contains key (JObject m) \<longleftrightarrow> map_of m key \<noteq> None"
| "contains key j \<longleftrightarrow> False"

text \<open>\<open>j[key] = v\<close>: null becomes an object, and only objects have keys.\<close>

fun set_key :: "string \<Rightarrow> json \<Rightarrow> json \<Rightarrow> std_exn + json" where
  "set_key key v JNull = Inr (JObject [(key, v)])"
| "set_key key v (JObject m) = Inr (JObject (map_assign key v m))"
| "set_key key v j =
     Inl (type_error 305 (''cannot use operator[] with a string argument with '' @ type_name j))"

text \<open>\<open>j[key]\<close> read: a missing key is added with the value null.\<close>

fun at_key :: "string \<Rightarrow> json \<Rightarrow> std_exn + json \<times> json" where
  "at_key key JNull = Inr (JObject [(key, JNull)], JNull)"
| "at_key key (JObject m) = (case map_of m key of Some v \<Rightarrow> Inr (JObject m, v)
     | None \<Rightarrow> Inr (JObject (map_assign key JNull m), JNull))"
| "at_key key j =
     Inl (type_error 305 (''cannot use operator[] with a string argument with '' @ type_name j))"

text \<open>\<open>j[idx]\<close>: null becomes an array, and an array is filled with nulls up to the index.\<close>

definition resize :: "nat \<Rightarrow> json list \<Rightarrow> json list" where
  "resize n xs = (if n \<le> length xs then take n xs else xs @ replicate (n - length xs) JNull)"

fun at_index :: "nat \<Rightarrow> json \<Rightarrow> std_exn + json \<times> json" where
  "at_index idx JNull = Inr (JArray (resize (Suc idx) []), JNull)"
| "at_index idx (JArray xs) = (let xs' = (if length xs \<le> idx then resize (idx + 1) xs else xs)
     in Inr (JArray xs', xs' ! idx))"
| "at_index idx j =
     Inl (type_error 305 (''cannot use operator[] with a numeric argument with '' @ type_name j))"

lemma at_index_defined: "at_index idx (JArray xs) = Inr (j, v) \<Longrightarrow>
    v = (if idx < length xs then xs ! idx else JNull)"
  by (auto simp: Let_def resize_def nth_append split: if_splits)

text \<open>\<open>json(init)\<close> and \<open>push_back(init)\<close> for an initializer list of values.\<close>

fun string_pair :: "json \<Rightarrow> bool" where
  "string_pair (JArray [JString _, _]) \<longleftrightarrow> True"
| "string_pair j \<longleftrightarrow> False"

fun emplace_pair :: "(string \<times> json) list \<Rightarrow> json \<Rightarrow> (string \<times> json) list" where
  "emplace_pair m (JArray [JString k, v]) =
     (case map_of m k of None \<Rightarrow> map_assign k v m | Some _ \<Rightarrow> m)"
| "emplace_pair m j = m"

definition json_init :: "json list \<Rightarrow> json" where
  "json_init vs = (if list_all string_pair vs then JObject (foldl emplace_pair [] vs) else JArray vs)"

fun push_back :: "json \<Rightarrow> json \<Rightarrow> std_exn + json" where
  "push_back v JNull = Inr (JArray [v])"
| "push_back v (JArray xs) = Inr (JArray (xs @ [v]))"
| "push_back v j = Inl (type_error 308 (''cannot use push_back() with '' @ type_name j))"

fun push_back_init :: "json list \<Rightarrow> json \<Rightarrow> std_exn + json" where
  "push_back_init [JString k, v] (JObject m) =
     Inr (JObject (case map_of m k of None \<Rightarrow> map_assign k v m | Some _ \<Rightarrow> m))"
| "push_back_init vs j = push_back (json_init vs) j"

lemma json_init_strings [simp]: "json_init [JString k, JString v] = JArray [JString k, JString v]"
  by (simp add: json_init_def)

text \<open>What a range-based loop over a value visits.\<close>

fun json_elements :: "json \<Rightarrow> json list" where
  "json_elements (JObject m) = map snd m"
| "json_elements (JArray xs) = xs"
| "json_elements JNull = []"
| "json_elements j = [j]"

section \<open>Well-formed values\<close>

text \<open>Keys in order and distinct, integers in the range of their type: what the library builds.\<close>

fun json_ok :: "json \<Rightarrow> bool" where
  "json_ok (JObject m) \<longleftrightarrow> map_wf m \<and> (\<forall>e \<in> set m. json_ok (snd e))"
| "json_ok (JArray xs) \<longleftrightarrow> (\<forall>x \<in> set xs. json_ok x)"
| "json_ok (JInteger n) \<longleftrightarrow> int64 n"
| "json_ok (JUnsigned n) \<longleftrightarrow> 0 \<le> n \<and> n < 2 ^ 64"
| "json_ok j \<longleftrightarrow> True"

lemma set_key_ok: "json_ok j \<Longrightarrow> json_ok v \<Longrightarrow> set_key k v j = Inr j' \<Longrightarrow> json_ok j'"
  by (cases j) (auto simp: map_wf_assign set_map_assign)

end
