(* ===== verification/Json_Serializer.thy ===== *)
theory Json_Serializer
  imports Json_Value
begin

text \<open>
  The serializer of \<^verbatim>\<open>nlohmann::json\<close>: the UTF-8 automaton with its table, the escaping of
  strings through the 512-byte buffer, the printing of integers into the 64-byte buffer, and
  \<^verbatim>\<open>dump\<close> without indentation, the only way the node calls it. The characters written to the
  output adapter are the result; an exception is \<open>Inl\<close>. The printing of finite
  floating-point numbers (\<open>to_chars\<close>) is an argument: no message holds one.
\<close>

datatype error_handler_t = strict | replace | ignore

section \<open>The UTF-8 automaton\<close>

abbreviation (input) UTF8_ACCEPT :: nat where "UTF8_ACCEPT \<equiv> 0"
abbreviation (input) UTF8_REJECT :: nat where "UTF8_REJECT \<equiv> 1"

text \<open>The first part of the table: the class of a byte.\<close>

definition utf8d_types :: "nat list" where
  "utf8d_types = replicate 128 0 @ replicate 16 1 @ replicate 16 9 @ replicate 32 7
     @ [8, 8] @ replicate 30 2
     @ [0xA, 3, 3, 3, 3, 3, 3, 3, 3, 3, 3, 3, 3, 4, 3, 3]
     @ [0xB, 6, 6, 6, 5, 8, 8, 8, 8, 8, 8, 8, 8, 8, 8, 8]"

text \<open>The second part: the next state, sixteen entries per state.\<close>

definition utf8d_states :: "nat list" where
  "utf8d_states =
    [0, 1, 2, 3, 5, 8, 7, 1, 1, 1, 4, 6, 1, 1, 1, 1,
     1, 1, 1, 1, 1, 1, 1, 1, 1, 1, 1, 1, 1, 1, 1, 1,
     1, 0, 1, 1, 1, 1, 1, 0, 1, 0, 1, 1, 1, 1, 1, 1,
     1, 2, 1, 1, 1, 1, 1, 2, 1, 2, 1, 1, 1, 1, 1, 1,
     1, 1, 1, 1, 1, 1, 1, 2, 1, 1, 1, 1, 1, 1, 1, 1,
     1, 2, 1, 1, 1, 1, 1, 1, 1, 2, 1, 1, 1, 1, 1, 1,
     1, 1, 1, 1, 1, 1, 1, 3, 1, 3, 1, 1, 1, 1, 1, 1,
     1, 3, 1, 1, 1, 1, 1, 3, 1, 3, 1, 1, 1, 1, 1, 1,
     1, 3, 1, 1, 1, 1, 1, 1, 1, 1, 1, 1, 1, 1, 1, 1]"

definition utf8d :: "nat list" where
  "utf8d = utf8d_types @ utf8d_states"

text \<open>
  One byte: the new state and the new code point. The bit operations act on disjoint bits, so
  they are written as arithmetic: \<^verbatim>\<open>(byte & 0x3f) | (codep << 6)\<close> and \<^verbatim>\<open>(0xFF >> type) & byte\<close>.
\<close>

definition decode :: "nat \<Rightarrow> nat \<Rightarrow> nat \<Rightarrow> nat \<times> nat" where
  "decode state codep byte =
    (let ty = utf8d ! byte;
         codep' = (if state \<noteq> UTF8_ACCEPT then (byte mod 64 + 64 * codep) mod 2 ^ 32
                   else if ty \<le> 8 then byte mod 2 ^ (8 - ty) else 0)
     in (utf8d ! (256 + state * 16 + ty), codep'))"

section \<open>Escaping\<close>

definition hex_digit :: "nat \<Rightarrow> char" where
  "hex_digit d = (if d < 10 then char_of (48 + d) else char_of (87 + d))"

text \<open>The format \<^verbatim>\<open>%04x\<close> for a 16-bit number.\<close>

definition hex4 :: "nat \<Rightarrow> string" where
  "hex4 n = [hex_digit (n div 4096 mod 16), hex_digit (n div 256 mod 16),
     hex_digit (n div 16 mod 16), hex_digit (n mod 16)]"

definition hex_upper :: "nat \<Rightarrow> char" where
  "hex_upper d = (if d < 10 then char_of (48 + d) else char_of (55 + d))"

definition hex_bytes :: "nat \<Rightarrow> string" where
  "hex_bytes b = [hex_upper (b div 16), hex_upper (b mod 16)]"

text \<open>What an accepted code point appends to the buffer; \<open>c\<close> is its last byte.\<close>

definition escape_codepoint :: "bool \<Rightarrow> nat \<Rightarrow> char \<Rightarrow> string" where
  "escape_codepoint ensure_ascii cp c =
    (if cp = 0x08 then [CHR 0x5C, CHR ''b'']
     else if cp = 0x09 then [CHR 0x5C, CHR ''t'']
     else if cp = 0x0A then [CHR 0x5C, CHR ''n'']
     else if cp = 0x0C then [CHR 0x5C, CHR ''f'']
     else if cp = 0x0D then [CHR 0x5C, CHR ''r'']
     else if cp = 0x22 then [CHR 0x5C, CHR 0x22]
     else if cp = 0x5C then [CHR 0x5C, CHR 0x5C]
     else if cp \<le> 0x1F \<or> ensure_ascii \<and> 0x7F \<le> cp then
       (if cp \<le> 0xFFFF then [CHR 0x5C, CHR ''u''] @ hex4 cp
        else [CHR 0x5C, CHR ''u''] @ hex4 ((0xD7C0 + cp div 1024) mod 65536)
           @ [CHR 0x5C, CHR ''u''] @ hex4 ((0xDC00 + cp mod 1024) mod 65536))
     else [c])"

text \<open>The variables of the loop; \<open>bytes\<close> is the length of the used part of the buffer.\<close>

record esc_state =
  es_codepoint :: nat
  es_state :: nat
  es_buffer :: string
  es_accept :: nat
  es_undumped :: nat
  es_out :: string

definition esc_init :: esc_state where
  "esc_init = \<lparr>es_codepoint = 0, es_state = UTF8_ACCEPT, es_buffer = [], es_accept = 0,
     es_undumped = 0, es_out = []\<rparr>"

text \<open>The buffer is written out when fewer than 13 of its 512 bytes are left.\<close>

definition esc_flush :: "esc_state \<Rightarrow> esc_state" where
  "esc_flush s = (if 512 - length (es_buffer s) < 13
     then s\<lparr>es_out := es_out s @ es_buffer s, es_buffer := []\<rparr> else s)"

definition esc_accept :: "bool \<Rightarrow> nat \<Rightarrow> char \<Rightarrow> esc_state \<Rightarrow> esc_state" where
  "esc_accept ensure_ascii cp c s =
    (let s = esc_flush (s\<lparr>es_buffer := es_buffer s @ escape_codepoint ensure_ascii cp c\<rparr>)
     in s\<lparr>es_accept := length (es_buffer s), es_undumped := 0\<rparr>)"

definition replacement :: "bool \<Rightarrow> string" where
  "replacement ensure_ascii = (if ensure_ascii then [CHR 0x5C, CHR ''u''] @ ''fffd''
     else [CHR 0xEF, CHR 0xBF, CHR 0xBD])"

text \<open>A byte that the automaton rejects, when the handler is not \<open>strict\<close>.\<close>

definition esc_reject :: "error_handler_t \<Rightarrow> bool \<Rightarrow> esc_state \<Rightarrow> esc_state" where
  "esc_reject eh ensure_ascii s =
    (let s = s\<lparr>es_buffer := take (es_accept s) (es_buffer s)\<rparr>;
         s = (if eh = replace
              then let s = esc_flush (s\<lparr>es_buffer := es_buffer s @ replacement ensure_ascii\<rparr>)
                   in s\<lparr>es_accept := length (es_buffer s)\<rparr>
              else s)
     in s\<lparr>es_undumped := 0, es_state := UTF8_ACCEPT\<rparr>)"

lemma esc_reject_undumped [simp]: "es_undumped (esc_reject eh ea s) = 0"
  by (simp add: esc_reject_def Let_def)

text \<open>The loop over the bytes; \<open>--i\<close> reads the byte again, and can do so once.\<close>

function esc_loop ::
    "error_handler_t \<Rightarrow> bool \<Rightarrow> nat \<Rightarrow> string \<Rightarrow> esc_state \<Rightarrow> std_exn + esc_state" where
  "esc_loop eh ea i [] s = Inr s"
| "esc_loop eh ea i (c # cs) s =
    (case decode (es_state s) (es_codepoint s) (of_char c) of (st, cp) \<Rightarrow>
      let s = s\<lparr>es_state := st, es_codepoint := cp\<rparr> in
      if st = UTF8_ACCEPT then esc_loop eh ea (Suc i) cs (esc_accept ea cp c s)
      else if st = UTF8_REJECT then
        (if eh = strict
         then Inl (type_error 316 (''invalid UTF-8 byte at index '' @ to_string (int i) @ '': 0x''
           @ hex_bytes (of_char c)))
         else if 0 < es_undumped s then esc_loop eh ea i (c # cs) (esc_reject eh ea s)
         else esc_loop eh ea (Suc i) cs (esc_reject eh ea s))
      else esc_loop eh ea (Suc i) cs
        (s\<lparr>es_buffer := (if ea then es_buffer s else es_buffer s @ [c]),
           es_undumped := Suc (es_undumped s)\<rparr>))"
  by pat_completeness auto

termination
  by (relation "measures [\<lambda>(eh, ea, i, cs, s). length cs, \<lambda>(eh, ea, i, cs, s). es_undumped s]")
    auto

declare esc_loop.simps(2) [simp del]

definition dump_escaped :: "error_handler_t \<Rightarrow> bool \<Rightarrow> string \<Rightarrow> std_exn + string" where
  "dump_escaped eh ea str = sum_bind (esc_loop eh ea 0 str esc_init) (\<lambda>s.
     if es_state s = UTF8_ACCEPT then Inr (es_out s @ es_buffer s)
     else (case eh of
        strict \<Rightarrow> Inl (type_error 316 (''incomplete UTF-8 string; last byte: 0x''
           @ hex_bytes (of_char (last str))))
      | ignore \<Rightarrow> Inr (es_out s @ take (es_accept s) (es_buffer s))
      | replace \<Rightarrow> Inr (es_out s @ take (es_accept s) (es_buffer s) @ replacement ea)))"

section \<open>Integers\<close>

function count_digits :: "nat \<Rightarrow> nat \<Rightarrow> nat" where
  "count_digits n_digits x =
    (if x < 10 then n_digits
     else if x < 100 then n_digits + 1
     else if x < 1000 then n_digits + 2
     else if x < 10000 then n_digits + 3
     else count_digits (n_digits + 4) (x div 10000))"
  by pat_completeness auto
termination by (relation "measure snd") auto

declare count_digits.simps [simp del]

definition digits_to_99 :: "nat \<Rightarrow> char \<times> char" where
  "digits_to_99 i = (digit_char (i div 10), digit_char (i mod 10))"

text \<open>Two digits at a time, from the end of the buffer to its beginning.\<close>

function fill_digits :: "nat \<Rightarrow> nat \<Rightarrow> string \<Rightarrow> string" where
  "fill_digits abs_value p buf =
    (if 100 \<le> abs_value then
       let d = digits_to_99 (abs_value mod 100)
       in fill_digits (abs_value div 100) (p - 2) (buf[p - 1 := snd d, p - 2 := fst d])
     else if 10 \<le> abs_value then
       let d = digits_to_99 abs_value in buf[p - 1 := snd d, p - 2 := fst d]
     else buf[p - 1 := char_of (48 + abs_value)])"
  by pat_completeness auto
termination by (relation "measure fst") auto

declare fill_digits.simps [simp del]

definition remove_sign :: "int \<Rightarrow> nat" where
  "remove_sign x = nat (- (x + 1)) + 1"

definition number_buffer :: string where
  "number_buffer = replicate 64 (CHR 0x00)"

definition dump_integer :: "int \<Rightarrow> string" where
  "dump_integer x =
    (if x = 0 then ''0''
     else let abs_value = (if x < 0 then remove_sign x else nat x);
              buf = (if x < 0 then number_buffer[0 := CHR ''-''] else number_buffer);
              n_chars = (if x < 0 then 1 + count_digits 1 abs_value else count_digits 1 abs_value)
          in take n_chars (fill_digits abs_value n_chars buf))"

section \<open>Values\<close>

definition dump_float :: "(double \<Rightarrow> string) \<Rightarrow> double \<Rightarrow> string" where
  "dump_float to_chars x = (if isfinite x then to_chars x else ''null'')"

text \<open>The first elements with a comma after each, then the last one.\<close>

fun join_dumps :: "(std_exn + string) list \<Rightarrow> std_exn + string" where
  "join_dumps [] = Inr []"
| "join_dumps [d] = d"
| "join_dumps (d # ds) = sum_bind d (\<lambda>s. sum_bind (join_dumps ds) (\<lambda>t. Inr (s @ '','' @ t)))"

definition dump_string :: "error_handler_t \<Rightarrow> bool \<Rightarrow> string \<Rightarrow> std_exn + string" where
  "dump_string eh ea s = sum_bind (dump_escaped eh ea s) (\<lambda>t. Inr ([CHR 0x22] @ t @ [CHR 0x22]))"

definition join_ints :: "nat list \<Rightarrow> string" where
  "join_ints bs = (if bs = [] then []
     else concat (map (\<lambda>b. dump_integer (int b) @ '','') (butlast bs)) @ dump_integer (int (last bs)))"

definition dump_binary :: "nat list \<Rightarrow> nat option \<Rightarrow> string" where
  "dump_binary bs sub = [CHR ''{'', CHR 0x22] @ ''bytes'' @ [CHR 0x22] @ '':['' @ join_ints bs
     @ ''],'' @ [CHR 0x22] @ ''subtype'' @ [CHR 0x22, CHR '':'']
     @ (case sub of Some t \<Rightarrow> dump_integer (int t) @ ''}'' | None \<Rightarrow> ''null}'')"

text \<open>The values without parts.\<close>

fun dump_scalar :: "(double \<Rightarrow> string) \<Rightarrow> json \<Rightarrow> string" where
  "dump_scalar fl (JBoolean b) = (if b then ''true'' else ''false'')"
| "dump_scalar fl (JInteger n) = dump_integer n"
| "dump_scalar fl (JUnsigned n) = dump_integer n"
| "dump_scalar fl (JFloat x) = dump_float fl x"
| "dump_scalar fl JDiscarded = ''<discarded>''"
| "dump_scalar fl j = ''null''"

fun serializer_dump ::
    "(double \<Rightarrow> string) \<Rightarrow> error_handler_t \<Rightarrow> bool \<Rightarrow> json \<Rightarrow> std_exn + string" where
  "serializer_dump fl eh ea (JObject m) = (if m = [] then Inr ''{}''
     else sum_bind (join_dumps (map (\<lambda>e. sum_bind (dump_string eh ea (fst e)) (\<lambda>k.
            sum_bind (serializer_dump fl eh ea (snd e)) (\<lambda>v. Inr (k @ '':'' @ v)))) m))
          (\<lambda>s. Inr (''{'' @ s @ ''}'')))"
| "serializer_dump fl eh ea (JArray xs) = (if xs = [] then Inr ''[]''
     else sum_bind (join_dumps (map (serializer_dump fl eh ea) xs)) (\<lambda>s. Inr (''['' @ s @ '']'')))"
| "serializer_dump fl eh ea (JString s) = dump_string eh ea s"
| "serializer_dump fl eh ea (JBinary bs sub) = Inr (dump_binary bs sub)"
| "serializer_dump fl eh ea j = Inr (dump_scalar fl j)"

text \<open>\<open>basic_json::dump\<close> with its default arguments.\<close>

definition json_dump :: "(double \<Rightarrow> string) \<Rightarrow> json \<Rightarrow> std_exn + string" where
  "json_dump fl j = serializer_dump fl strict False j"

end
