(* ===== verification/Json_Utf8.thy ===== *)
theory Json_Utf8
  imports Json_Serializer
begin

text \<open>
  UTF-8 as the lexer reads it, byte ranges per first byte, and the proof that the table-driven
  automaton of the serializer accepts the same strings. For these the strict serializer writes
  the string with each special byte escaped, and for every other string it throws.
\<close>

text \<open>The ranges of the bytes that must follow a first byte; \<open>None\<close> is an ill-formed byte.\<close>

definition utf8_ranges :: "nat \<Rightarrow> (nat \<times> nat) list option" where
  "utf8_ranges b =
    (if b < 0x80 then Some []
     else if 0xC2 \<le> b \<and> b \<le> 0xDF then Some [(0x80, 0xBF)]
     else if b = 0xE0 then Some [(0xA0, 0xBF), (0x80, 0xBF)]
     else if b = 0xED then Some [(0x80, 0x9F), (0x80, 0xBF)]
     else if 0xE1 \<le> b \<and> b \<le> 0xEF then Some [(0x80, 0xBF), (0x80, 0xBF)]
     else if b = 0xF0 then Some [(0x90, 0xBF), (0x80, 0xBF), (0x80, 0xBF)]
     else if 0xF1 \<le> b \<and> b \<le> 0xF3 then Some [(0x80, 0xBF), (0x80, 0xBF), (0x80, 0xBF)]
     else if b = 0xF4 then Some [(0x80, 0x8F), (0x80, 0xBF), (0x80, 0xBF)]
     else None)"

abbreviation in_byte_range :: "nat \<times> nat \<Rightarrow> nat \<Rightarrow> bool" where
  "in_byte_range r b \<equiv> fst r \<le> b \<and> b \<le> snd r"

text \<open>The ranges still due, then the rest of the string.\<close>

fun utf8_run :: "(nat \<times> nat) list \<Rightarrow> string \<Rightarrow> bool" where
  "utf8_run rs [] \<longleftrightarrow> rs = []"
| "utf8_run [] (c # cs) \<longleftrightarrow>
     (case utf8_ranges (of_char c) of None \<Rightarrow> False | Some rs \<Rightarrow> utf8_run rs cs)"
| "utf8_run (r # rs) (c # cs) \<longleftrightarrow> in_byte_range r (of_char c) \<and> utf8_run rs cs"

definition utf8_valid :: "string \<Rightarrow> bool" where
  "utf8_valid s \<longleftrightarrow> utf8_run [] s"

section \<open>The automaton\<close>

lemma utf8d_type:
  "b < 256 \<Longrightarrow> utf8d ! b =
    (if b < 128 then 0 else if b < 144 then 1 else if b < 160 then 9 else if b < 192 then 7
     else if b < 194 then 8 else if b < 224 then 2 else if b = 224 then 10
     else if b = 237 then 4 else if b < 240 then 3 else if b = 240 then 11
     else if b < 244 then 6 else if b = 244 then 5 else 8)"
proof -
  have "list_all (\<lambda>b. utf8d ! b =
    (if b < 128 then 0 else if b < 144 then 1 else if b < 160 then 9 else if b < 192 then 7
     else if b < 194 then 8 else if b < 224 then 2 else if b = 224 then 10
     else if b = 237 then 4 else if b < 240 then 3 else if b = 240 then 11
     else if b < 244 then 6 else if b = 244 then 5 else 8)) [0..<256]"
    by code_simp
  then show "b < 256 \<Longrightarrow> ?thesis" by (simp add: list_all_iff)
qed

lemma utf8d_state:
  "utf8d ! (256 + k) = utf8d_states ! k"
proof -
  have l: "length utf8d_types = 256" by (simp add: utf8d_types_def)
  show ?thesis using nth_append_length_plus [of utf8d_types utf8d_states k] l
    by (simp add: utf8d_def)
qed

text \<open>The ranges that a state of the automaton waits for, and what is known of the code point.\<close>

definition due :: "nat \<Rightarrow> (nat \<times> nat) list" where
  "due st = (if st = 2 then [(0x80, 0xBF)]
     else if st = 3 then [(0x80, 0xBF), (0x80, 0xBF)]
     else if st = 4 then [(0xA0, 0xBF), (0x80, 0xBF)]
     else if st = 5 then [(0x80, 0x9F), (0x80, 0xBF)]
     else if st = 6 then [(0x90, 0xBF), (0x80, 0xBF), (0x80, 0xBF)]
     else if st = 7 then [(0x80, 0xBF), (0x80, 0xBF), (0x80, 0xBF)]
     else if st = 8 then [(0x80, 0x8F), (0x80, 0xBF), (0x80, 0xBF)]
     else [])"

definition cp_ok :: "nat \<Rightarrow> nat \<Rightarrow> bool" where
  "cp_ok st cp \<longleftrightarrow> st = 0 \<or> st = 2 \<and> 2 \<le> cp \<and> cp < 2 ^ 16 \<or> st = 3 \<and> 1 \<le> cp \<and> cp < 2 ^ 10
     \<or> st = 4 \<and> cp = 0 \<or> st = 5 \<and> cp = 13 \<or> st = 6 \<and> cp = 0 \<or> st = 7 \<and> 1 \<le> cp \<and> cp < 8
     \<or> st = 8 \<and> cp = 4"

lemma utf8d_states_0:
  "utf8d_states ! 0 = 0" "utf8d_states ! Suc 0 = 1" "utf8d_states ! 2 = 2" "utf8d_states ! 3 = 3"
  "utf8d_states ! 4 = 5" "utf8d_states ! 5 = 8" "utf8d_states ! 6 = 7" "utf8d_states ! 7 = 1"
  "utf8d_states ! 8 = 1" "utf8d_states ! 9 = 1" "utf8d_states ! 10 = 4" "utf8d_states ! 11 = 6"
  by (simp_all add: utf8d_states_def)

lemma decode_first:
  assumes "b < 256" "decode 0 cp b = (st, cp')"
  shows "case utf8_ranges b of None \<Rightarrow> st = 1
    | Some rs \<Rightarrow> due st = rs \<and> cp_ok st cp' \<and> (st = 0 \<longrightarrow> cp' = b \<and> b < 128) \<and> (st \<noteq> 0 \<longrightarrow> 128 \<le> b)"
proof -
  have st: "st = utf8d_states ! (utf8d ! b)"
    and cp: "cp' = (if utf8d ! b \<le> 8 then b mod 2 ^ (8 - utf8d ! b) else 0)"
    using assms(2) utf8d_state [of "utf8d ! b"] by (auto simp: decode_def Let_def)
  have m: "194 \<le> b \<Longrightarrow> b < 224 \<Longrightarrow> b mod 64 = b - 192"
    "225 \<le> b \<Longrightarrow> b < 240 \<Longrightarrow> b mod 32 = b - 224"
    "241 \<le> b \<Longrightarrow> b < 244 \<Longrightarrow> b mod 4 = b - 240"
    by (auto intro!: mod_nat_eqI)
  show ?thesis
    using m assms(1) unfolding st cp utf8d_type [OF assms(1)]
    by (auto simp: utf8_ranges_def utf8d_states_0 due_def cp_ok_def)
qed

lemma utf8d_next:
  assumes "2 \<le> st" "st \<le> 8" "ty \<le> 11"
  shows "utf8d_states ! (st * 16 + ty) =
    (if (if st = 4 then ty = 7 else if st = 5 then ty = 1 \<or> ty = 9 else if st = 6 then ty = 7 \<or> ty = 9
        else if st = 8 then ty = 1 else ty = 1 \<or> ty = 7 \<or> ty = 9)
     then (if st = 2 then 0 else if st \<le> 5 then 2 else 3) else 1)"
proof -
  have "list_all (\<lambda>st. list_all (\<lambda>ty. utf8d_states ! (st * 16 + ty) =
    (if (if st = 4 then ty = 7 else if st = 5 then ty = 1 \<or> ty = 9 else if st = 6 then ty = 7 \<or> ty = 9
        else if st = 8 then ty = 1 else ty = 1 \<or> ty = 7 \<or> ty = 9)
     then (if st = 2 then 0 else if st \<le> 5 then 2 else 3) else 1)) [0..<12]) [2..<9]"
    by code_simp
  then have "\<forall>st \<in> set [2..<9]. \<forall>ty \<in> set [0..<12]. utf8d_states ! (st * 16 + ty) =
    (if (if st = 4 then ty = 7 else if st = 5 then ty = 1 \<or> ty = 9 else if st = 6 then ty = 7 \<or> ty = 9
        else if st = 8 then ty = 1 else ty = 1 \<or> ty = 7 \<or> ty = 9)
     then (if st = 2 then 0 else if st \<le> 5 then 2 else 3) else 1)"
    unfolding list_all_iff .
  moreover have "st \<in> set [2..<9]" "ty \<in> set [0..<12]"
    unfolding set_upt using assms by auto
  ultimately show ?thesis by blast
qed

lemma decode_next:
  assumes "b < 256" "st \<noteq> 0" "cp_ok st cp" "decode st cp b = (st', cp')"
  shows "if in_byte_range (hd (due st)) b
    then due st' = tl (due st) \<and> cp_ok st' cp' \<and> st' \<noteq> 1 \<and> (st' = 0 \<longrightarrow> 128 \<le> cp') else st' = 1"
proof -
  have st: "2 \<le> st" "st \<le> 8" and ty: "utf8d ! b \<le> 11"
    using assms(2,3) by (auto simp: cp_ok_def utf8d_type [OF assms(1)])
  have st': "st' = utf8d_states ! (st * 16 + utf8d ! b)"
    and cp': "cp' = (b mod 64 + 64 * cp) mod 2 ^ 32"
    using assms(2,4) utf8d_state [of "st * 16 + utf8d ! b"]
    by (auto simp: decode_def Let_def add.assoc)
  have cp: "cp' = b mod 64 + 64 * cp" "b mod 64 < 64"
    using assms(2,3) cp' by (auto simp: cp_ok_def intro!: mod_less)
  have m: "128 \<le> b \<Longrightarrow> b < 192 \<Longrightarrow> b mod 64 = b - 128"
    by (auto intro!: mod_nat_eqI)
  have T: "utf8d ! b = 1 \<longleftrightarrow> 128 \<le> b \<and> b < 144" "utf8d ! b = 9 \<longleftrightarrow> 144 \<le> b \<and> b < 160"
    "utf8d ! b = 7 \<longleftrightarrow> 160 \<le> b \<and> b < 192"
    unfolding utf8d_type [OF assms(1)] by auto
  note eq = st' [unfolded utf8d_next [OF st ty] T] cp(1)
  from assms(2,3) consider "st = 2" "2 \<le> cp" "cp < 2 ^ 16" | "st = 3" "1 \<le> cp" "cp < 2 ^ 10"
    | "st = 4" "cp = 0" | "st = 5" "cp = 13" | "st = 6" "cp = 0" | "st = 7" "1 \<le> cp" "cp < 8"
    | "st = 8" "cp = 4"
    unfolding cp_ok_def by blast
  then show ?thesis
    using m cp(2) by cases (auto simp: eq due_def cp_ok_def)
qed

section \<open>What the strict serializer writes\<close>

definition esc_byte :: "char \<Rightarrow> string" where
  "esc_byte c = escape_codepoint False (of_char c) c"

definition esc :: "string \<Rightarrow> string" where
  "esc s = concat (map esc_byte s)"

lemma esc_simps [simp]: "esc [] = []" "esc (c # s) = esc_byte c @ esc s" "esc (a @ b) = esc a @ esc b"
  by (simp_all add: esc_def)

lemma esc_high [simp]: "128 \<le> cp \<Longrightarrow> escape_codepoint False cp c = [c]"
  by (simp add: escape_codepoint_def)

lemma esc_byte_high: "128 \<le> (of_char c :: nat) \<Longrightarrow> esc_byte c = [c]"
  by (simp add: esc_byte_def)

definition es_text :: "esc_state \<Rightarrow> string" where
  "es_text s = es_out s @ es_buffer s"

lemma esc_accept_text [simp]:
  "es_text (esc_accept ea cp c s) = es_text s @ escape_codepoint ea cp c"
  "es_state (esc_accept ea cp c s) = es_state s"
  "es_codepoint (esc_accept ea cp c s) = es_codepoint s"
  by (simp_all add: esc_accept_def esc_flush_def es_text_def Let_def)

lemma hd_due: "st \<noteq> 0 \<Longrightarrow> cp_ok st cp \<Longrightarrow> due st = hd (due st) # tl (due st) \<and> 128 \<le> fst (hd (due st))"
  by (auto simp: cp_ok_def due_def)

lemma due_0 [simp]: "due 0 = []"
  by (simp add: due_def)

lemma due_Nil: "cp_ok st cp \<Longrightarrow> due st = [] \<longleftrightarrow> st = 0"
  by (auto simp: cp_ok_def due_def)

lemma esc_loop_utf8:
  assumes "cp_ok (es_state s) (es_codepoint s)"
  shows "if utf8_run (due (es_state s)) cs
    then \<exists>s'. esc_loop strict False i cs s = Inr s' \<and> es_state s' = 0 \<and> es_text s' = es_text s @ esc cs
    else (\<exists>w. esc_loop strict False i cs s = Inl (type_error 316 w)) \<or>
      (\<exists>s'. esc_loop strict False i cs s = Inr s' \<and> es_state s' \<noteq> 0)"
  using assms
proof (induction cs arbitrary: s i)
  case Nil
  then show ?case by (simp add: due_Nil)
next
  case (Cons c cs)
  let ?b = "of_char c :: nat"
  obtain st cp where d: "decode (es_state s) (es_codepoint s) ?b = (st, cp)"
    by force
  let ?s = "s\<lparr>es_state := st, es_codepoint := cp\<rparr>"
  let ?acc = "esc_accept False cp c ?s"
  let ?more = "?s\<lparr>es_buffer := es_buffer s @ [c], es_undumped := Suc (es_undumped s)\<rparr>"
  define w where "w = ''invalid UTF-8 byte at index '' @ to_string (int i) @ '': 0x'' @ hex_bytes ?b"
  have loop: "esc_loop strict False i (c # cs) s =
      (if st = 0 then esc_loop strict False (Suc i) cs ?acc
       else if st = 1 then Inl (type_error 316 w)
       else esc_loop strict False (Suc i) cs ?more)"
    by (simp add: esc_loop.simps(2) d Let_def w_def)
  have more: "es_text ?more = es_text s @ [c]" "es_text ?acc = es_text s @ escape_codepoint False cp c"
    by (simp add: es_text_def) (simp, simp add: es_text_def)
  show ?case
  proof (cases "es_state s = 0")
    case True
    note f = decode_first [OF nat_of_char_less_256 d [unfolded True]]
    show ?thesis
    proof (cases "utf8_ranges ?b")
      case None
      with f True show ?thesis by (auto simp: loop)
    next
      case (Some rs)
      with f have rs: "due st = rs" "cp_ok st cp" "st = 0 \<Longrightarrow> cp = ?b" "st \<noteq> 0 \<Longrightarrow> 128 \<le> ?b"
        by auto
      then have "st \<noteq> 1" by (auto simp: cp_ok_def)
      with rs Some True Cons.IH [of ?acc "Suc i"] Cons.IH [of ?more "Suc i"] more
      show ?thesis
        by (cases "st = 0") (auto simp: loop esc_byte_def esc_byte_high)
    qed
  next
    case False
    note f = decode_next [OF nat_of_char_less_256 False Cons.prems d]
    note h = hd_due [OF False Cons.prems]
    show ?thesis
    proof (cases "in_byte_range (hd (due (es_state s))) ?b")
      case True
      with f h have rs: "due st = tl (due (es_state s))" "cp_ok st cp" "st \<noteq> 1" "st = 0 \<Longrightarrow> 128 \<le> cp"
        "128 \<le> ?b"
        by auto
      have "utf8_run (due (es_state s)) (c # cs) = utf8_run (due st) cs"
        using h True rs(1) by (metis utf8_run.simps(3))
      with rs Cons.IH [of ?acc "Suc i"] Cons.IH [of ?more "Suc i"] more
      show ?thesis
        by (cases "st = 0") (auto simp: loop esc_byte_high)
    next
      case out: False
      have "\<not> utf8_run (due (es_state s)) (c # cs)"
        using h out by (metis utf8_run.simps(3))
      with f out show ?thesis by (auto simp: loop)
    qed
  qed
qed

lemma dump_escaped_strict:
  "if utf8_valid s then dump_escaped strict False s = Inr (esc s)
   else \<exists>w. dump_escaped strict False s = Inl (type_error 316 w)"
  using esc_loop_utf8 [of esc_init s 0]
  by (auto simp: dump_escaped_def utf8_valid_def esc_init_def cp_ok_def es_text_def split: if_splits)

text \<open>C26: the table-driven automaton of the serializer accepts exactly the strings that the byte
  ranges of the lexer accept. On them the strict serializer writes the escaped bytes in order;
  on every other string it throws the type error 316.\<close>

theorem utf8_automaton_correct:
  "dump_escaped strict False s = Inr (esc s) \<and> utf8_valid s \<or>
   (\<exists>w. dump_escaped strict False s = Inl (type_error 316 w)) \<and> (utf8_valid s = False)"
  using dump_escaped_strict [of s] by (auto split: if_splits)

end
