(* ===== verification/Json_Lexer.thy ===== *)
theory Json_Lexer
  imports Json_Utf8
begin

text \<open>
  The lexer of \<^verbatim>\<open>nlohmann::json\<close>: an object with the input still to be read, the current
  character, the flag that hands it out again, the position, and the buffers. A character is
  an integer from 0 to 255, and -1 at the end of the input, as in the source. The measure
  \<open>pending\<close> of the characters still to come proves that every loop ends.
\<close>

datatype token_type = uninitialized | literal_true | literal_false | literal_null | value_string
  | value_unsigned | value_integer | value_float | begin_array | begin_object | end_array
  | end_object | name_separator | value_separator | tok_parse_error | end_of_input | literal_or_value

fun token_type_name :: "token_type \<Rightarrow> string" where
  "token_type_name uninitialized = ''<uninitialized>''"
| "token_type_name literal_true = ''true literal''"
| "token_type_name literal_false = ''false literal''"
| "token_type_name literal_null = ''null literal''"
| "token_type_name value_string = ''string literal''"
| "token_type_name value_unsigned = ''number literal''"
| "token_type_name value_integer = ''number literal''"
| "token_type_name value_float = ''number literal''"
| "token_type_name begin_array = [CHR 0x27, CHR ''['', CHR 0x27]"
| "token_type_name begin_object = [CHR 0x27, CHR ''{'', CHR 0x27]"
| "token_type_name end_array = [CHR 0x27, CHR '']'', CHR 0x27]"
| "token_type_name end_object = [CHR 0x27, CHR ''}'', CHR 0x27]"
| "token_type_name name_separator = [CHR 0x27, CHR '':'', CHR 0x27]"
| "token_type_name value_separator = [CHR 0x27, CHR '','', CHR 0x27]"
| "token_type_name tok_parse_error = ''<parse error>''"
| "token_type_name end_of_input = ''end of input''"
| "token_type_name literal_or_value =
     [CHR 0x27, CHR ''['', CHR 0x27] @ '', '' @ [CHR 0x27, CHR ''{'', CHR 0x27] @ '', or a literal''"

record lexer =
  lx_ia :: string
  lx_ignore_comments :: bool
  lx_current :: int
  lx_next_unget :: bool
  lx_position :: position_t
  lx_token_string :: string
  lx_token_buffer :: string
  lx_error_message :: string
  lx_value_integer :: int
  lx_value_unsigned :: int
  lx_value_float :: double

definition position0 :: position_t where
  "position0 = \<lparr>chars_read_total = 0, chars_read_current_line = 0, lines_read = 0\<rparr>"

definition lexer_ctor :: "string \<Rightarrow> bool \<Rightarrow> lexer" where
  "lexer_ctor input ignore_comments =
    \<lparr>lx_ia = input, lx_ignore_comments = ignore_comments, lx_current = -1, lx_next_unget = False,
     lx_position = position0, lx_token_string = [], lx_token_buffer = [], lx_error_message = [],
     lx_value_integer = 0, lx_value_unsigned = 0, lx_value_float = Finite False 0 0\<rparr>"

section \<open>Input management\<close>

definition get_character :: "string \<Rightarrow> int \<times> string" where
  "get_character ia = (case ia of [] \<Rightarrow> (-1, []) | c # cs \<Rightarrow> (of_char c, cs))"

definition lx_reset :: "lexer \<Rightarrow> lexer" where
  "lx_reset l = l\<lparr>lx_token_buffer := [], lx_token_string := [char_of (lx_current l)]\<rparr>"

definition lx_get :: "lexer \<Rightarrow> lexer" where
  "lx_get l =
    (let l = l\<lparr>lx_position := (lx_position l)\<lparr>
           chars_read_total := Suc (chars_read_total (lx_position l)),
           chars_read_current_line := Suc (chars_read_current_line (lx_position l))\<rparr>\<rparr>;
         l = (if lx_next_unget l then l\<lparr>lx_next_unget := False\<rparr>
              else l\<lparr>lx_current := fst (get_character (lx_ia l)), lx_ia := snd (get_character (lx_ia l))\<rparr>);
         l = (if lx_current l \<noteq> -1
              then l\<lparr>lx_token_string := lx_token_string l @ [char_of (lx_current l)]\<rparr> else l)
     in if lx_current l = 10
        then l\<lparr>lx_position := (lx_position l)\<lparr>lines_read := Suc (lines_read (lx_position l)),
             chars_read_current_line := 0\<rparr>\<rparr>
        else l)"

definition lx_unget :: "lexer \<Rightarrow> lexer" where
  "lx_unget l =
    (let l = l\<lparr>lx_next_unget := True, lx_position := (lx_position l)\<lparr>
           chars_read_total := chars_read_total (lx_position l) - 1\<rparr>\<rparr>;
         pos = lx_position l;
         pos = (if chars_read_current_line pos = 0
                then (if 0 < lines_read pos then pos\<lparr>lines_read := lines_read pos - 1\<rparr> else pos)
                else pos\<lparr>chars_read_current_line := chars_read_current_line pos - 1\<rparr>);
         l = l\<lparr>lx_position := pos\<rparr>
     in if lx_current l \<noteq> -1 then l\<lparr>lx_token_string := butlast (lx_token_string l)\<rparr> else l)"

definition lx_add :: "int \<Rightarrow> lexer \<Rightarrow> lexer" where
  "lx_add c l = l\<lparr>lx_token_buffer := lx_token_buffer l @ [char_of c]\<rparr>"

definition lx_fail :: "string \<Rightarrow> lexer \<Rightarrow> lexer" where
  "lx_fail msg l = l\<lparr>lx_error_message := msg\<rparr>"

text \<open>The characters that the next calls of \<open>lx_get\<close> read.\<close>

definition pending :: "lexer \<Rightarrow> string" where
  "pending l = (if lx_next_unget l \<and> lx_current l \<noteq> -1 then [char_of (lx_current l)] else []) @ lx_ia l"

definition lexer_ok :: "lexer \<Rightarrow> bool" where
  "lexer_ok l \<longleftrightarrow> -1 \<le> lx_current l \<and> lx_current l < 256 \<and>
     (lx_next_unget l \<and> lx_current l = -1 \<longrightarrow> lx_ia l = [])"

lemma of_char_int_range [simp]: "0 \<le> (of_char c :: int)" "(of_char c :: int) < 256" "(of_char c :: int) \<noteq> -1"
  "-1 \<le> (of_char c :: int)"
proof -
  have "(of_char c :: int) = int (of_char c)" by (simp add: of_char_def)
  then show "0 \<le> (of_char c :: int)" "(of_char c :: int) < 256" "(of_char c :: int) \<noteq> -1"
    "-1 \<le> (of_char c :: int)"
    using nat_of_char_less_256 [of c] by linarith+
qed

lemma lx_get_pending: "pending (lx_get l) = tl (pending l)" if "lexer_ok l"
  using that
  by (auto simp: lx_get_def Let_def pending_def get_character_def lexer_ok_def split: list.splits)

lemma lx_get_current:
  "lexer_ok l \<Longrightarrow> lx_current (lx_get l) = (case pending l of [] \<Rightarrow> -1 | c # _ \<Rightarrow> of_char c)"
  by (auto simp: lx_get_def Let_def pending_def get_character_def lexer_ok_def split: list.splits)

lemma lx_get_other [simp]:
  "lx_token_buffer (lx_get l) = lx_token_buffer l" "lx_error_message (lx_get l) = lx_error_message l"
  "lx_ignore_comments (lx_get l) = lx_ignore_comments l" "\<not> lx_next_unget (lx_get l)"
  "lx_value_integer (lx_get l) = lx_value_integer l" "lx_value_unsigned (lx_get l) = lx_value_unsigned l"
  "lx_value_float (lx_get l) = lx_value_float l"
  by (auto simp: lx_get_def Let_def)

lemma lx_get_ok: "lexer_ok l \<Longrightarrow> lexer_ok (lx_get l)"
  by (auto simp: lx_get_def Let_def get_character_def lexer_ok_def split: list.splits)

text \<open>No call makes the input longer, and reading a character makes it shorter.\<close>

lemma todo_get [simp]: "length (pending (lx_get l)) \<le> length (pending l)"
  by (auto simp: lx_get_def Let_def pending_def get_character_def split: list.splits)

lemma todo_get_less: "lx_current (lx_get l) \<noteq> -1 \<Longrightarrow> length (pending (lx_get l)) < length (pending l)"
  by (auto simp: lx_get_def Let_def pending_def get_character_def split: list.splits if_splits)

lemma todo_other [simp]:
  "pending (lx_add c l) = pending l" "pending (lx_fail m l) = pending l" "pending (lx_reset l) = pending l"
  by (simp_all add: lx_add_def lx_fail_def lx_reset_def pending_def)

lemma lx_unget_fields [simp]:
  "lx_ia (lx_unget l) = lx_ia l" "lx_current (lx_unget l) = lx_current l" "lx_next_unget (lx_unget l)"
  "lx_token_buffer (lx_unget l) = lx_token_buffer l" "lx_ignore_comments (lx_unget l) = lx_ignore_comments l"
  "lx_error_message (lx_unget l) = lx_error_message l"
  by (simp_all add: lx_unget_def Let_def)

lemma pending_unget:
  "pending (lx_unget l) = (if lx_current l \<noteq> -1 then [char_of (lx_current l)] else []) @ lx_ia l"
  by (simp add: pending_def)

lemma todo_unget_get [simp]: "length (pending (lx_unget (lx_get l))) \<le> length (pending l)"
  unfolding pending_unget
  by (auto simp: lx_get_def Let_def pending_def get_character_def split: list.splits)

section \<open>Strings\<close>

fun codepoint_loop :: "nat list \<Rightarrow> int \<Rightarrow> lexer \<Rightarrow> lexer \<times> int" where
  "codepoint_loop [] cp l = (l, cp)"
| "codepoint_loop (f # fs) cp l =
    (let l = lx_get l; c = lx_current l
     in if 0x30 \<le> c \<and> c \<le> 0x39 then codepoint_loop fs (cp + (c - 0x30) * 2 ^ f) l
        else if 0x41 \<le> c \<and> c \<le> 0x46 then codepoint_loop fs (cp + (c - 0x37) * 2 ^ f) l
        else if 0x61 \<le> c \<and> c \<le> 0x66 then codepoint_loop fs (cp + (c - 0x57) * 2 ^ f) l
        else (l, -1))"

definition get_codepoint :: "lexer \<Rightarrow> lexer \<times> int" where
  "get_codepoint l = codepoint_loop [12, 8, 4, 0] 0 l"

fun ranges_loop :: "(nat \<times> nat) list \<Rightarrow> lexer \<Rightarrow> lexer \<times> bool" where
  "ranges_loop [] l = (l, True)"
| "ranges_loop (r # rs) l =
    (let l = lx_get l
     in if int (fst r) \<le> lx_current l \<and> lx_current l \<le> int (snd r)
        then ranges_loop rs (lx_add (lx_current l) l)
        else (lx_fail ''invalid string: ill-formed UTF-8 byte'' l, False))"

definition next_byte_in_range :: "(nat \<times> nat) list \<Rightarrow> lexer \<Rightarrow> lexer \<times> bool" where
  "next_byte_in_range rs l = ranges_loop rs (lx_add (lx_current l) l)"

text \<open>A code point as one to four bytes; the bits are disjoint, so the sums are the \<^verbatim>\<open>|\<close> of the source.\<close>

definition add_codepoint :: "int \<Rightarrow> lexer \<Rightarrow> lexer" where
  "add_codepoint cp l =
    (if cp < 0x80 then lx_add cp l
     else if cp \<le> 0x7FF then lx_add (0x80 + cp mod 64) (lx_add (0xC0 + cp div 64) l)
     else if cp \<le> 0xFFFF then
       lx_add (0x80 + cp mod 64) (lx_add (0x80 + cp div 64 mod 64) (lx_add (0xE0 + cp div 4096) l))
     else lx_add (0x80 + cp mod 64) (lx_add (0x80 + cp div 64 mod 64)
       (lx_add (0x80 + cp div 4096 mod 64) (lx_add (0xF0 + cp div 262144) l))))"

definition bs_u :: string where
  "bs_u = [CHR 0x27, CHR 0x5C, CHR ''u'', CHR 0x27]"

text \<open>The escape \<^verbatim>\<open>\u\<close>, with its surrogate pairs; the flag says whether to go on.\<close>

definition scan_unicode :: "lexer \<Rightarrow> lexer \<times> bool" where
  "scan_unicode l = (case get_codepoint l of (l, cp1) \<Rightarrow>
     if cp1 = -1
     then (lx_fail (''invalid string: '' @ bs_u @ '' must be followed by 4 hex digits'') l, False)
     else if 0xD800 \<le> cp1 \<and> cp1 \<le> 0xDBFF then
       (let l = lx_get l; l' = lx_get l;
            msg = ''invalid string: surrogate U+D800..U+DBFF must be followed by U+DC00..U+DFFF''
        in if lx_current l \<noteq> 0x5C then (lx_fail msg l, False)
           else if lx_current l' \<noteq> 0x75 then (lx_fail msg l', False)
           else (case get_codepoint l' of (l, cp2) \<Rightarrow>
             if cp2 = -1
             then (lx_fail (''invalid string: '' @ bs_u @ '' must be followed by 4 hex digits'') l, False)
             else if 0xDC00 \<le> cp2 \<and> cp2 \<le> 0xDFFF
             then (add_codepoint (cp1 * 1024 + cp2 - 0x35FDC00) l, True)
             else (lx_fail msg l, False)))
     else if 0xDC00 \<le> cp1 \<and> cp1 \<le> 0xDFFF
     then (lx_fail ''invalid string: surrogate U+DC00..U+DFFF must follow U+D800..U+DBFF'' l, False)
     else (add_codepoint cp1 l, True))"

definition scan_escape :: "lexer \<Rightarrow> lexer \<times> bool" where
  "scan_escape l =
    (let l = lx_get l; c = lx_current l
     in if c = 0x22 then (lx_add 0x22 l, True)
        else if c = 0x5C then (lx_add 0x5C l, True)
        else if c = 0x2F then (lx_add 0x2F l, True)
        else if c = 0x62 then (lx_add 0x08 l, True)
        else if c = 0x66 then (lx_add 0x0C l, True)
        else if c = 0x6E then (lx_add 0x0A l, True)
        else if c = 0x72 then (lx_add 0x0D l, True)
        else if c = 0x74 then (lx_add 0x09 l, True)
        else if c = 0x75 then scan_unicode l
        else (lx_fail ''invalid string: forbidden character after backslash'' l, False))"

definition control_names :: "string list" where
  "control_names = [''NUL'', ''SOH'', ''STX'', ''ETX'', ''EOT'', ''ENQ'', ''ACK'', ''BEL'', ''BS'', ''HT'',
     ''LF'', ''VT'', ''FF'', ''CR'', ''SO'', ''SI'', ''DLE'', ''DC1'', ''DC2'', ''DC3'', ''DC4'', ''NAK'',
     ''SYN'', ''ETB'', ''CAN'', ''EM'', ''SUB'', ''ESC'', ''FS'', ''GS'', ''RS'', ''US'']"

definition control_message :: "nat \<Rightarrow> string" where
  "control_message c =
    (let code = ''00'' @ [hex_upper (c div 16), hex_upper (c mod 16)]
     in ''invalid string: control character U+'' @ code @ '' ('' @ control_names ! c
        @ '') must be escaped to '' @ [CHR 0x5C, CHR ''u''] @ code
        @ (if c = 8 then '' or '' @ [CHR 0x5C, CHR ''b'']
           else if c = 9 then '' or '' @ [CHR 0x5C, CHR ''t'']
           else if c = 10 then '' or '' @ [CHR 0x5C, CHR ''n'']
           else if c = 12 then '' or '' @ [CHR 0x5C, CHR ''f'']
           else if c = 13 then '' or '' @ [CHR 0x5C, CHR ''r''] else []))"

text \<open>The characters from U+0020 to U+007F that stand for themselves.\<close>

definition plain_char :: "int \<Rightarrow> bool" where
  "plain_char c \<longleftrightarrow> 0x20 \<le> c \<and> c \<le> 0x7F \<and> c \<noteq> 0x22 \<and> c \<noteq> 0x5C"

text \<open>One turn of the loop of \<open>scan_string\<close>; \<open>None\<close> goes on.\<close>

definition string_step :: "lexer \<Rightarrow> lexer \<times> token_type option" where
  "string_step l =
    (let l = lx_get l; c = lx_current l
     in if c = -1 then (lx_fail ''invalid string: missing closing quote'' l, Some tok_parse_error)
        else if c = 0x22 then (l, Some value_string)
        else if c = 0x5C then (case scan_escape l of (l, ok) \<Rightarrow> (l, if ok then None else Some tok_parse_error))
        else if c \<le> 0x1F then (lx_fail (control_message (nat c)) l, Some tok_parse_error)
        else if plain_char c then (lx_add c l, None)
        else (case utf8_ranges (nat c) of
            None \<Rightarrow> (lx_fail ''invalid string: ill-formed UTF-8 byte'' l, Some tok_parse_error)
          | Some rs \<Rightarrow> (case next_byte_in_range rs l of (l, ok) \<Rightarrow>
              (l, if ok then None else Some tok_parse_error))))"

declare plain_char_def [simp]

lemma todo_codepoint: "length (pending (fst (codepoint_loop fs cp l))) \<le> length (pending l)"
proof (induction fs arbitrary: cp l)
  case (Cons f fs)
  have "length (pending (fst (codepoint_loop fs cp (lx_get l)))) \<le> length (pending l)" for cp
    by (rule order_trans [OF Cons.IH todo_get])
  then show ?case by (simp add: Let_def)
qed simp

lemma todo_ranges: "length (pending (fst (ranges_loop rs l))) \<le> length (pending l)"
proof (induction rs arbitrary: l)
  case (Cons r rs)
  have "length (pending (fst (ranges_loop rs (lx_add c (lx_get l))))) \<le> length (pending l)" for c
    using order_trans [OF Cons.IH [of "lx_add c (lx_get l)", unfolded todo_other] todo_get] .
  then show ?case by (simp add: Let_def)
qed simp

lemma todo_add_codepoint [simp]: "pending (add_codepoint cp l) = pending l"
  by (simp add: add_codepoint_def)

lemma todo_get_codepoint: "get_codepoint l = (l', cp) \<Longrightarrow> length (pending l') \<le> length (pending l)"
  using todo_codepoint [of "[12, 8, 4, 0]" 0 l] by (simp add: get_codepoint_def)

lemma todo_scan_unicode: "length (pending (fst (scan_unicode l))) \<le> length (pending l)"
proof -
  obtain l1 cp1 where 1: "get_codepoint l = (l1, cp1)" by force
  obtain l2 cp2 where 2: "get_codepoint (lx_get (lx_get l1)) = (l2, cp2)" by force
  show ?thesis
    using todo_get_codepoint [OF 1] todo_get_codepoint [OF 2] todo_get [of l1] todo_get [of "lx_get l1"]
    by (auto simp: scan_unicode_def Let_def 1 2 simp del: todo_get)
qed

lemma todo_scan_escape: "length (pending (fst (scan_escape l))) \<le> length (pending l)"
  using todo_scan_unicode [of "lx_get l"] todo_get [of l]
  by (auto simp: scan_escape_def Let_def simp del: todo_get)

lemma todo_string_step: "string_step l = (l', None) \<Longrightarrow> length (pending l') < length (pending l)"
proof -
  assume a: "string_step l = (l', None)"
  then have c: "lx_current (lx_get l) \<noteq> -1" by (auto simp: string_step_def Let_def)
  have r: "length (pending l') \<le> length (pending (lx_get l))"
    if "ranges_loop rs (lx_add (lx_current (lx_get l)) (lx_get l)) = (l', ok)" for rs ok
    using todo_ranges [of rs "lx_add (lx_current (lx_get l)) (lx_get l)"] that by simp
  have "length (pending l') \<le> length (pending (lx_get l))"
    using a todo_scan_escape [of "lx_get l"]
    by (auto simp: string_step_def Let_def next_byte_in_range_def dest: r
        split: if_splits option.splits prod.splits)
  with todo_get_less [OF c] show ?thesis by simp
qed

function scan_string_loop :: "lexer \<Rightarrow> lexer \<times> token_type" where
  "scan_string_loop l = (case string_step l of (l', r) \<Rightarrow>
     (case r of None \<Rightarrow> scan_string_loop l' | Some t \<Rightarrow> (l', t)))"
  by pat_completeness auto
termination
  by (relation "measure (\<lambda>l. length (pending l))") (auto dest: todo_string_step [OF sym])

declare scan_string_loop.simps [simp del]

definition scan_string :: "lexer \<Rightarrow> lexer \<times> token_type" where
  "scan_string l = scan_string_loop (lx_reset l)"

section \<open>Numbers\<close>

datatype number_label = num_minus | num_zero | num_any1 | num_decimal1 | num_decimal2
  | num_exponent | num_sign | num_any2 | num_done

abbreviation (input) is_digit_int :: "int \<Rightarrow> bool" where
  "is_digit_int c \<equiv> 0x30 \<le> c \<and> c \<le> 0x39"

abbreviation (input) is_exp_int :: "int \<Rightarrow> bool" where
  "is_exp_int c \<equiv> c = 0x65 \<or> c = 0x45"

text \<open>
  The code at one label, up to the next \<^verbatim>\<open>goto\<close>; \<open>None\<close> returns a parse error. First the
  three labels of the exponent, on the character \<open>c\<close> just read.
\<close>

definition number_exponent_step ::
    "number_label \<Rightarrow> token_type \<Rightarrow> int \<Rightarrow> lexer \<Rightarrow> lexer \<times> (token_type \<times> number_label) option" where
  "number_exponent_step lab ty c l = (case lab of
       num_exponent \<Rightarrow>
         (if c = 0x2B \<or> c = 0x2D then (lx_add c l, Some (value_float, num_sign))
          else if is_digit_int c then (lx_add c l, Some (value_float, num_any2))
          else (lx_fail (''invalid number; expected '' @ [CHR 0x27, CHR ''+'', CHR 0x27] @ '', ''
            @ [CHR 0x27, CHR ''-'', CHR 0x27] @ '', or digit after exponent'') l, None))
     | num_sign \<Rightarrow>
         (if is_digit_int c then (lx_add c l, Some (ty, num_any2))
          else (lx_fail ''invalid number; expected digit after exponent sign'' l, None))
     | num_any2 \<Rightarrow>
         (if is_digit_int c then (lx_add c l, Some (ty, num_any2)) else (l, Some (ty, num_done)))
     | _ \<Rightarrow> (l, Some (ty, num_done)))"

definition number_step ::
    "number_label \<Rightarrow> token_type \<Rightarrow> lexer \<Rightarrow> lexer \<times> (token_type \<times> number_label) option" where
  "number_step lab ty l =
    (let l = lx_get l; c = lx_current l
     in case lab of
       num_minus \<Rightarrow>
         (if c = 0x30 then (lx_add c l, Some (value_integer, num_zero))
          else if 0x31 \<le> c \<and> c \<le> 0x39 then (lx_add c l, Some (value_integer, num_any1))
          else (lx_fail (''invalid number; expected digit after '' @ [CHR 0x27, CHR ''-'', CHR 0x27]) l, None))
     | num_zero \<Rightarrow>
         (if c = 0x2E then (lx_add 0x2E l, Some (ty, num_decimal1))
          else if is_exp_int c then (lx_add c l, Some (ty, num_exponent))
          else (l, Some (ty, num_done)))
     | num_any1 \<Rightarrow>
         (if is_digit_int c then (lx_add c l, Some (ty, num_any1))
          else if c = 0x2E then (lx_add 0x2E l, Some (ty, num_decimal1))
          else if is_exp_int c then (lx_add c l, Some (ty, num_exponent))
          else (l, Some (ty, num_done)))
     | num_decimal1 \<Rightarrow>
         (if is_digit_int c then (lx_add c l, Some (value_float, num_decimal2))
          else (lx_fail (''invalid number; expected digit after '' @ [CHR 0x27, CHR ''.'', CHR 0x27]) l, None))
     | num_decimal2 \<Rightarrow>
         (if is_digit_int c then (lx_add c l, Some (ty, num_decimal2))
          else if is_exp_int c then (lx_add c l, Some (ty, num_exponent))
          else (l, Some (ty, num_done)))
     | _ \<Rightarrow> number_exponent_step lab ty c l)"

declare number_exponent_step_def [simp]

lemma todo_number_step:
  assumes "number_step lab ty l = (l', Some (ty', lab'))" "lab \<noteq> num_done"
  shows "length (pending l') + (if lab' = num_done then 0 else 1) < length (pending l) + 1"
proof -
  have "length (pending l') < length (pending l) \<or> lab' = num_done \<and> length (pending l') \<le> length (pending l)"
    using assms todo_get [of l] todo_get_less [of l]
    by (cases lab) (auto simp: number_step_def Let_def simp del: todo_get split: if_splits)
  then show ?thesis by auto
qed

function number_loop :: "number_label \<Rightarrow> token_type \<Rightarrow> lexer \<Rightarrow> lexer \<times> token_type option" where
  "number_loop lab ty l = (if lab = num_done then (l, Some ty)
     else case number_step lab ty l of (l', r) \<Rightarrow>
       (case r of None \<Rightarrow> (l', None) | Some (ty', lab') \<Rightarrow> number_loop lab' ty' l'))"
  by pat_completeness auto
termination
  by (relation "measure (\<lambda>(lab, ty, l). length (pending l) + (if lab = num_done then 0 else 1))")
    (auto dest: todo_number_step [OF sym])

declare number_loop.simps [simp del]

text \<open>\<^verbatim>\<open>std::strtoull\<close> and \<^verbatim>\<open>std::strtoll\<close> on such a text; \<open>None\<close> is \<^verbatim>\<open>errno\<close> set to \<^verbatim>\<open>ERANGE\<close>.\<close>

definition strtoull :: "string \<Rightarrow> int option" where
  "strtoull s = (let n = int (dec_val s) in if n < 2 ^ 64 then Some n else None)"

definition strtoll :: "string \<Rightarrow> int option" where
  "strtoll s = (let n = (if s \<noteq> [] \<and> hd s = CHR ''-'' then - int (dec_val (tl s)) else int (dec_val s))
     in if int64 n then Some n else None)"

definition number_as_float :: "lexer \<Rightarrow> lexer \<times> token_type" where
  "number_as_float l = (l\<lparr>lx_value_float := strtod (lx_token_buffer l)\<rparr>, value_float)"

definition number_done :: "token_type \<Rightarrow> lexer \<Rightarrow> lexer \<times> token_type" where
  "number_done ty l =
    (let l = lx_unget l; buf = lx_token_buffer l
     in if ty = value_unsigned then
          (case strtoull buf of Some n \<Rightarrow> (l\<lparr>lx_value_unsigned := n\<rparr>, value_unsigned) | None \<Rightarrow> number_as_float l)
        else if ty = value_integer then
          (case strtoll buf of Some n \<Rightarrow> (l\<lparr>lx_value_integer := n\<rparr>, value_integer) | None \<Rightarrow> number_as_float l)
        else number_as_float l)"

definition number_init :: "int \<Rightarrow> number_label" where
  "number_init c = (if c = 0x2D then num_minus else if c = 0x30 then num_zero else num_any1)"

definition scan_number :: "lexer \<Rightarrow> lexer \<times> token_type" where
  "scan_number l =
    (let l = lx_reset l; c = lx_current l
     in case number_loop (number_init c) value_unsigned (lx_add c l) of
          (l, None) \<Rightarrow> (l, tok_parse_error)
        | (l, Some ty) \<Rightarrow> number_done ty l)"

section \<open>Literals, comments and white space\<close>

fun literal_loop :: "string \<Rightarrow> token_type \<Rightarrow> lexer \<Rightarrow> lexer \<times> token_type" where
  "literal_loop [] ty l = (l, ty)"
| "literal_loop (x # xs) ty l =
    (let l = lx_get l
     in if char_of (lx_current l) \<noteq> x then (lx_fail ''invalid literal'' l, tok_parse_error)
        else literal_loop xs ty l)"

definition scan_literal :: "string \<Rightarrow> token_type \<Rightarrow> lexer \<Rightarrow> lexer \<times> token_type" where
  "scan_literal txt ty l = literal_loop (tl txt) ty l"

function line_comment :: "lexer \<Rightarrow> lexer" where
  "line_comment l = (let l = lx_get l; c = lx_current l
     in if c = 0x0A \<or> c = 0x0D \<or> c = -1 \<or> c = 0 then l else line_comment l)"
  by pat_completeness auto
termination
  by (relation "measure (\<lambda>l. length (pending l))") (auto intro: todo_get_less)

function block_comment :: "lexer \<Rightarrow> lexer \<times> bool" where
  "block_comment l = (let l1 = lx_get l; c = lx_current l1
     in if c = -1 \<or> c = 0
        then (lx_fail (''invalid comment; missing closing '' @ [CHR 0x27] @ ''*/'' @ [CHR 0x27]) l1, False)
        else if c = 0x2A then
          (let l2 = lx_get l1
           in if lx_current l2 = 0x2F then (l2, True) else block_comment (lx_unget l2))
        else block_comment l1)"
  by pat_completeness auto
termination
proof (relation "measure (\<lambda>l. length (pending l))", goal_cases)
  case (2 l l1 c l2)
  then have "length (pending l1) < length (pending l)" using todo_get_less [of l] by auto
  moreover have "length (pending (lx_unget l2)) \<le> length (pending l1)" using 2 by simp
  ultimately show ?case by simp
qed (auto intro: todo_get_less)

declare line_comment.simps [simp del] block_comment.simps [simp del]

definition scan_comment :: "lexer \<Rightarrow> lexer \<times> bool" where
  "scan_comment l = (let l = lx_get l
     in if lx_current l = 0x2F then (line_comment l, True)
        else if lx_current l = 0x2A then block_comment l
        else (lx_fail (''invalid comment; expecting '' @ [CHR 0x27] @ ''/'' @ [CHR 0x27] @ '' or ''
          @ [CHR 0x27] @ ''*'' @ [CHR 0x27] @ '' after '' @ [CHR 0x27] @ ''/'' @ [CHR 0x27]) l, False))"

definition skip_bom :: "lexer \<Rightarrow> lexer \<times> bool" where
  "skip_bom l = (let l1 = lx_get l
     in if lx_current l1 = 0xEF then
          (let l2 = lx_get l1 in if lx_current l2 \<noteq> 0xBB then (l2, False)
           else let l3 = lx_get l2 in (l3, lx_current l3 = 0xBF))
        else (lx_unget l1, True))"

function skip_whitespace :: "lexer \<Rightarrow> lexer" where
  "skip_whitespace l = (let l = lx_get l; c = lx_current l
     in if c = 0x20 \<or> c = 0x09 \<or> c = 0x0A \<or> c = 0x0D then skip_whitespace l else l)"
  by pat_completeness auto
termination
  by (relation "measure (\<lambda>l. length (pending l))") (auto intro: todo_get_less)

declare skip_whitespace.simps [simp del]

lemma todo_skip_whitespace: "length (pending (skip_whitespace l)) \<le> length (pending l)"
proof (induction l rule: skip_whitespace.induct)
  case (1 l)
  from "1" [OF refl refl] show ?case
    using todo_get [of l] by (subst skip_whitespace.simps) (auto simp: Let_def simp del: todo_get)
qed

lemma todo_line_comment: "length (pending (line_comment l)) \<le> length (pending l)"
proof (induction l rule: line_comment.induct)
  case (1 l)
  from "1" [OF refl refl] show ?case
    using todo_get [of l] by (subst line_comment.simps) (auto simp: Let_def simp del: todo_get)
qed

lemma todo_block_comment: "length (pending (fst (block_comment l))) \<le> length (pending l)"
proof (induction l rule: block_comment.induct)
  case (1 l)
  note IH = "1"(1) [OF refl refl _ _ refl] "1"(2) [OF refl refl]
  show ?case
    using IH todo_get [of l] todo_get [of "lx_get l"] todo_unget_get [of "lx_get l"]
    by (subst block_comment.simps) (auto simp: Let_def simp del: todo_get todo_unget_get)
qed

lemma todo_scan_comment: "scan_comment l = (l', True) \<Longrightarrow> length (pending l') < length (pending l)"
  using todo_get_less [of l] todo_line_comment [of "lx_get l"] todo_block_comment [of "lx_get l"]
  by (auto simp: scan_comment_def Let_def split: if_splits)

section \<open>The scanner\<close>

text \<open>The loop over comments; the flag is false after a comment that does not end.\<close>

function skip_comments :: "lexer \<Rightarrow> lexer \<times> bool" where
  "skip_comments l = (if lx_ignore_comments l \<and> lx_current l = 0x2F then
       (case scan_comment l of (l', ok) \<Rightarrow>
          if ok then skip_comments (skip_whitespace l') else (l', False))
     else (l, True))"
  by pat_completeness auto
termination
proof (relation "measure (\<lambda>l. length (pending l))", goal_cases)
  case (2 l l' ok)
  then show ?case
    using todo_scan_comment [of l l'] todo_skip_whitespace [of l'] by simp
qed simp

declare skip_comments.simps [simp del]

definition scan_token :: "lexer \<Rightarrow> lexer \<times> token_type" where
  "scan_token l =
    (let c = lx_current l
     in if c = 0x5B then (l, begin_array)
        else if c = 0x5D then (l, end_array)
        else if c = 0x7B then (l, begin_object)
        else if c = 0x7D then (l, end_object)
        else if c = 0x3A then (l, name_separator)
        else if c = 0x2C then (l, value_separator)
        else if c = 0x74 then scan_literal ''true'' literal_true l
        else if c = 0x66 then scan_literal ''false'' literal_false l
        else if c = 0x6E then scan_literal ''null'' literal_null l
        else if c = 0x22 then scan_string l
        else if c = 0x2D \<or> is_digit_int c then scan_number l
        else if c = 0 \<or> c = -1 then (l, end_of_input)
        else (lx_fail ''invalid literal'' l, tok_parse_error))"

definition scan :: "lexer \<Rightarrow> lexer \<times> token_type" where
  "scan l = (case (if chars_read_total (lx_position l) = 0 then skip_bom l else (l, True)) of
     (l, bom) \<Rightarrow>
       if \<not> bom then (lx_fail ''invalid BOM; must be 0xEF 0xBB 0xBF if given'' l, tok_parse_error)
       else (case skip_comments (skip_whitespace l) of (l, ok) \<Rightarrow>
         if ok then scan_token l else (l, tok_parse_error)))"

text \<open>The token text for error messages, with control characters made visible.\<close>

definition get_token_string :: "lexer \<Rightarrow> string" where
  "get_token_string l = concat (map (\<lambda>c. if (of_char c :: nat) \<le> 0x1F
       then ''<U+00'' @ [hex_upper (of_char c div 16), hex_upper (of_char c mod 16)] @ ''>'' else [c])
     (lx_token_string l))"

section \<open>Every token but the last shortens the input\<close>

lemma todo_scan_comment_le: "length (pending (fst (scan_comment l))) \<le> length (pending l)"
  using todo_get [of l] todo_line_comment [of "lx_get l"] todo_block_comment [of "lx_get l"]
  by (auto simp: scan_comment_def Let_def simp del: todo_get)

lemma todo_skip_whitespace_less:
  "lx_current (skip_whitespace l) \<noteq> -1 \<Longrightarrow> length (pending (skip_whitespace l)) < length (pending l)"
proof (induction l rule: skip_whitespace.induct)
  case (1 l)
  show ?case
    using "1.prems" "1.IH" [OF refl refl] todo_get [of l] todo_get_less [of l]
    by (subst skip_whitespace.simps, subst (asm) skip_whitespace.simps)
      (auto simp: Let_def simp del: todo_get split: if_splits)
qed

lemma skip_comments_eof [simp]: "lx_current l = -1 \<Longrightarrow> skip_comments l = (l, True)"
  by (simp add: skip_comments.simps)

lemma todo_skip_comments: "length (pending (fst (skip_comments l))) \<le> length (pending l)"
proof (induction l rule: skip_comments.induct)
  case (1 l)
  obtain l' ok where c: "scan_comment l = (l', ok)" by force
  show ?case
    using "1.IH" [OF _ c [symmetric]] todo_scan_comment_le [of l] todo_skip_whitespace [of l'] c
    by (subst skip_comments.simps) auto
qed

lemma todo_literal: "length (pending (fst (literal_loop xs ty l))) \<le> length (pending l)"
proof (induction xs arbitrary: l)
  case (Cons x xs)
  then show ?case using order_trans [OF Cons.IH [of "lx_get l"] todo_get [of l]]
    by (simp add: Let_def)
qed simp

lemma todo_scan_literal: "length (pending (fst (scan_literal txt ty l))) \<le> length (pending l)"
  unfolding scan_literal_def by (rule todo_literal)

lemma todo_string_step_le: "length (pending (fst (string_step l))) \<le> length (pending l)"
proof -
  have r: "length (pending l') \<le> length (pending (lx_get l))"
    if "ranges_loop rs (lx_add (lx_current (lx_get l)) (lx_get l)) = (l', ok)" for rs ok l'
    using todo_ranges [of rs "lx_add (lx_current (lx_get l)) (lx_get l)"] that by simp
  have "length (pending (fst (string_step l))) \<le> length (pending (lx_get l))"
    using todo_scan_escape [of "lx_get l"]
    by (auto simp: string_step_def Let_def next_byte_in_range_def dest: r
        split: option.splits prod.splits)
  then show ?thesis using todo_get [of l] by linarith
qed

lemma todo_scan_string: "length (pending (fst (scan_string_loop l))) \<le> length (pending l)"
proof (induction l rule: scan_string_loop.induct)
  case (1 l)
  obtain l' r where s: "string_step l = (l', r)" by force
  show ?case
  proof (cases r)
    case None
    with "1.IH" [OF s [symmetric] None] todo_string_step_le [of l] s show ?thesis
      by (subst scan_string_loop.simps) simp
  next
    case (Some t)
    with todo_string_step_le [of l] s show ?thesis
      by (subst scan_string_loop.simps) simp
  qed
qed

lemma number_step_done: "number_step lab ty l = (l', Some (ty', num_done)) \<Longrightarrow> l' = lx_get l"
  by (cases lab) (auto simp: number_step_def Let_def split: if_splits)

lemma todo_number_step_le: "length (pending (fst (number_step lab ty l))) \<le> length (pending l)"
  using todo_get [of l]
  by (cases lab) (auto simp: number_step_def Let_def simp del: todo_get)

lemma todo_number_loop:
  "lab \<noteq> num_done \<Longrightarrow> number_loop lab ty l = (l', r) \<Longrightarrow>
   length (pending (if r = None then l' else lx_unget l')) \<le> length (pending l)"
proof (induction lab ty l rule: number_loop.induct)
  case (1 lab ty l)
  obtain l1 s where s: "number_step lab ty l = (l1, s)" by force
  note loop = "1.prems"(2) [unfolded number_loop.simps [of lab ty l]]
  show ?case
  proof (cases s)
    case None
    with s loop "1.prems"(1) todo_number_step_le [of lab ty l] show ?thesis by auto
  next
    case (Some q)
    obtain ty1 lab1 where q: "q = (ty1, lab1)" by force
    show ?thesis
    proof (cases "lab1 = num_done")
      case True
      with s Some q have "l1 = lx_get l" by (auto dest: number_step_done)
      with True s Some q loop "1.prems"(1) show ?thesis
        by (auto simp: number_loop.simps)
    next
      case False
      with "1.IH" [OF "1.prems"(1) s [symmetric] Some q [symmetric]] s Some q loop "1.prems"(1)
        todo_number_step_le [of lab ty l]
      show ?thesis by auto
    qed
  qed
qed

lemma pending_values [simp]:
  "pending (l\<lparr>lx_value_float := x\<rparr>) = pending l" "pending (l\<lparr>lx_value_unsigned := n\<rparr>) = pending l"
  "pending (l\<lparr>lx_value_integer := n\<rparr>) = pending l"
  by (simp_all add: pending_def)

lemma pending_number_done [simp]: "pending (fst (number_done ty l)) = pending (lx_unget l)"
  by (auto simp: number_done_def number_as_float_def Let_def split: option.splits)

lemma todo_scan_number: "length (pending (fst (scan_number l))) \<le> length (pending l)"
proof -
  let ?c = "lx_current l"
  obtain l' r where n: "number_loop (number_init ?c) value_unsigned (lx_add ?c (lx_reset l)) = (l', r)" by force
  have c: "lx_current (lx_reset l) = ?c" by (simp add: lx_reset_def)
  have "length (pending (if r = None then l' else lx_unget l')) \<le> length (pending l)"
    using todo_number_loop [OF _ n] by (simp add: number_init_def)
  then show ?thesis
    by (cases r) (simp_all add: scan_number_def Let_def c n)
qed

lemma todo_scan_token:
  "length (pending (fst (scan_token l))) \<le> length (pending l)"
  "snd (scan_token l) \<notin> {end_of_input, tok_parse_error} \<Longrightarrow> lx_current l \<noteq> -1"
proof -
  show "length (pending (fst (scan_token l))) \<le> length (pending l)"
    using todo_scan_literal [of _ _ l] todo_scan_string [of "lx_reset l"] todo_scan_number [of l]
    by (simp add: scan_token_def Let_def scan_string_def)
qed (auto simp: scan_token_def Let_def)

lemma todo_skip_bom: "length (pending (fst (skip_bom l))) \<le> length (pending l)"
  using todo_get [of l] todo_get [of "lx_get l"] todo_get [of "lx_get (lx_get l)"]
  by (auto simp: skip_bom_def Let_def simp del: todo_get)

lemma todo_scan:
  assumes "scan l = (l', t)"
  shows "length (pending l') \<le> length (pending l)"
    and "t \<notin> {end_of_input, tok_parse_error} \<Longrightarrow> length (pending l') < length (pending l)"
proof -
  define q where "q = (if chars_read_total (lx_position l) = 0 then skip_bom l else (l, True))"
  define w where "w = skip_whitespace (fst q)"
  define k where "k = skip_comments w"
  have q: "length (pending (fst q)) \<le> length (pending l)"
    using todo_skip_bom [of l] by (simp add: q_def)
  have w: "length (pending w) \<le> length (pending (fst q))"
    "lx_current w \<noteq> -1 \<Longrightarrow> length (pending w) < length (pending (fst q))"
    unfolding w_def by (rule todo_skip_whitespace, erule todo_skip_whitespace_less)
  have k: "length (pending (fst k)) \<le> length (pending w)" "lx_current w = -1 \<Longrightarrow> k = (w, True)"
    unfolding k_def using todo_skip_comments by (auto simp del: skip_comments_eof simp: skip_comments_eof)
  have s: "(l', t) = (if \<not> snd q then (lx_fail ''invalid BOM; must be 0xEF 0xBB 0xBF if given'' (fst q), tok_parse_error)
      else if snd k then scan_token (fst k) else (fst k, tok_parse_error))"
    using assms unfolding scan_def q_def [symmetric] k_def w_def
    by (cases q; cases "skip_comments (skip_whitespace (fst q))") (simp split: if_splits)
  note st = todo_scan_token [of "fst k"]
  show "length (pending l') \<le> length (pending l)"
    using s q w(1) k(1) st(1) by (auto split: if_splits simp: prod_eq_iff)
  show "length (pending l') < length (pending l)" if "t \<notin> {end_of_input, tok_parse_error}"
  proof -
    from s that have e: "(l', t) = scan_token (fst k)" by (auto split: if_splits)
    then have "lx_current (fst k) \<noteq> -1" using st(2) that by (metis snd_conv)
    then have "lx_current w \<noteq> -1" using k(2) by auto
    with e q w(2) k(1) st(1) show ?thesis by (metis fst_conv le_trans less_le_trans not_le)
  qed
qed

end
