(* ===== verification/Json_Parser.thy ===== *)
theory Json_Parser
  imports Json_Lexer
begin

text \<open>
  The parser of \<^verbatim>\<open>nlohmann::json\<close> and the handler that builds the value
  (\<^verbatim>\<open>json_sax_dom_parser\<close>). The handler keeps a stack of pointers to the containers under
  construction; here each of them is a frame, outside its parent until it is closed. The
  parser throws on errors (\<^verbatim>\<open>allow_exceptions\<close>), takes no callback and does not skip comments,
  the defaults of \<^verbatim>\<open>json::parse\<close>.
\<close>

section \<open>Building the value\<close>

datatype frame = Arr_frame "json list" | Obj_frame "(string \<times> json) list" string

record pstate =
  ps_lexer :: lexer
  ps_last_token :: token_type
  ps_states :: "bool list"
  ps_root :: json
  ps_stack :: "frame list"

definition handle_value :: "json \<Rightarrow> pstate \<Rightarrow> pstate" where
  "handle_value v p = (case ps_stack p of
      [] \<Rightarrow> p\<lparr>ps_root := v\<rparr>
    | Arr_frame xs # fs \<Rightarrow> p\<lparr>ps_stack := Arr_frame (xs @ [v]) # fs\<rparr>
    | Obj_frame m k # fs \<Rightarrow> p\<lparr>ps_stack := Obj_frame (map_assign k v m) k # fs\<rparr>)"

definition start_object :: "pstate \<Rightarrow> pstate" where
  "start_object p = p\<lparr>ps_stack := Obj_frame [] [] # ps_stack p\<rparr>"

definition start_array :: "pstate \<Rightarrow> pstate" where
  "start_array p = p\<lparr>ps_stack := Arr_frame [] # ps_stack p\<rparr>"

text \<open>The key is added with the value null when it is new.\<close>

definition sax_key :: "string \<Rightarrow> pstate \<Rightarrow> pstate" where
  "sax_key k p = (case ps_stack p of
      Obj_frame m _ # fs \<Rightarrow> p\<lparr>ps_stack :=
        Obj_frame (if map_of m k = None then map_assign k JNull m else m) k # fs\<rparr>
    | _ \<Rightarrow> p)"

definition end_container :: "pstate \<Rightarrow> pstate" where
  "end_container p = (case ps_stack p of
      Arr_frame xs # fs \<Rightarrow> handle_value (JArray xs) (p\<lparr>ps_stack := fs\<rparr>)
    | Obj_frame m _ # fs \<Rightarrow> handle_value (JObject m) (p\<lparr>ps_stack := fs\<rparr>)
    | [] \<Rightarrow> p)"

section \<open>Tokens and errors\<close>

definition get_token :: "pstate \<Rightarrow> pstate" where
  "get_token p = (case scan (ps_lexer p) of (l, t) \<Rightarrow> p\<lparr>ps_lexer := l, ps_last_token := t\<rparr>)"

definition exception_message :: "token_type \<Rightarrow> string \<Rightarrow> pstate \<Rightarrow> string" where
  "exception_message expected context p =
    ''syntax error '' @ (if context \<noteq> [] then ''while parsing '' @ context @ '' '' else []) @ ''- ''
    @ (if ps_last_token p = tok_parse_error
       then lx_error_message (ps_lexer p) @ ''; last read: '' @ [CHR 0x27]
         @ get_token_string (ps_lexer p) @ [CHR 0x27]
       else ''unexpected '' @ token_type_name (ps_last_token p))
    @ (if expected \<noteq> uninitialized then ''; expected '' @ token_type_name expected else [])"

definition syntax_error :: "token_type \<Rightarrow> string \<Rightarrow> pstate \<Rightarrow> std_exn" where
  "syntax_error expected context p =
     parse_error 101 (lx_position (ps_lexer p)) (exception_message expected context p)"

section \<open>The loop\<close>

text \<open>A key, a colon and the first token of a value.\<close>

definition parse_key :: "pstate \<Rightarrow> std_exn + pstate" where
  "parse_key p =
    (if ps_last_token p \<noteq> value_string then Inl (syntax_error value_string ''object key'' p)
     else let p = sax_key (lx_token_buffer (ps_lexer p)) p; p = get_token p
          in if ps_last_token p \<noteq> name_separator
             then Inl (syntax_error name_separator ''object separator'' p) else Inr p)"

text \<open>The tokens that do not start a value.\<close>

definition parse_unexpected :: "pstate \<Rightarrow> std_exn" where
  "parse_unexpected p =
    (if ps_last_token p = tok_parse_error then syntax_error uninitialized ''value'' p
     else if ps_last_token p = end_of_input \<and> chars_read_total (lx_position (ps_lexer p)) = 1
     then parse_error 101 (lx_position (ps_lexer p)) (''attempting to parse an empty input; check that ''
       @ ''your input string or stream contains the expected JSON'')
     else syntax_error literal_or_value ''value'' p)"

text \<open>The switch on the last token: the flag is true at a \<^verbatim>\<open>break\<close> and false at a \<^verbatim>\<open>continue\<close>.\<close>

definition parse_value :: "pstate \<Rightarrow> std_exn + pstate \<times> bool" where
  "parse_value p = (let l = ps_lexer p in case ps_last_token p of
      begin_object \<Rightarrow>
        (let p = get_token (start_object p)
         in if ps_last_token p = end_object then Inr (end_container p, True)
            else sum_bind (parse_key p) (\<lambda>p.
              Inr (get_token (p\<lparr>ps_states := False # ps_states p\<rparr>), False)))
    | begin_array \<Rightarrow>
        (let p = get_token (start_array p)
         in if ps_last_token p = end_array then Inr (end_container p, True)
            else Inr (p\<lparr>ps_states := True # ps_states p\<rparr>, False))
    | value_float \<Rightarrow>
        (if isfinite (lx_value_float l) then Inr (handle_value (JFloat (lx_value_float l)) p, True)
         else Inl (out_of_range 406 (''number overflow parsing '' @ [CHR 0x27] @ get_token_string l
           @ [CHR 0x27])))
    | literal_false \<Rightarrow> Inr (handle_value (JBoolean False) p, True)
    | literal_null \<Rightarrow> Inr (handle_value JNull p, True)
    | literal_true \<Rightarrow> Inr (handle_value (JBoolean True) p, True)
    | value_integer \<Rightarrow> Inr (handle_value (JInteger (lx_value_integer l)) p, True)
    | value_string \<Rightarrow> Inr (handle_value (JString (lx_token_buffer l)) p, True)
    | value_unsigned \<Rightarrow> Inr (handle_value (JUnsigned (lx_value_unsigned l)) p, True)
    | _ \<Rightarrow> Inl (parse_unexpected p))"

text \<open>After a value: \<open>None\<close> is the end, \<open>Some skip\<close> a \<^verbatim>\<open>continue\<close> with the flag of that name.\<close>

definition eval_state :: "pstate \<Rightarrow> std_exn + pstate \<times> bool option" where
  "eval_state p = (case ps_states p of
      [] \<Rightarrow> Inr (p, None)
    | True # sts \<Rightarrow>
        (let p = get_token p
         in if ps_last_token p = value_separator then Inr (get_token p, Some False)
            else if ps_last_token p = end_array
            then Inr ((end_container p)\<lparr>ps_states := sts\<rparr>, Some True)
            else Inl (syntax_error end_array ''array'' p))
    | False # sts \<Rightarrow>
        (let p = get_token p
         in if ps_last_token p = value_separator
            then sum_bind (parse_key (get_token p)) (\<lambda>p. Inr (get_token p, Some False))
            else if ps_last_token p = end_object
            then Inr ((end_container p)\<lparr>ps_states := sts\<rparr>, Some True)
            else Inl (syntax_error end_object ''object'' p)))"

text \<open>Each turn of the loop shortens the input or reads a token that ends it.\<close>

definition todo :: "pstate \<Rightarrow> nat" where
  "todo p = 2 * length (pending (ps_lexer p)) +
     (if ps_last_token p \<in> {end_of_input, tok_parse_error} then 0 else 1)"

abbreviation left :: "pstate \<Rightarrow> nat" where
  "left p \<equiv> length (pending (ps_lexer p))"

lemma dom_lexer [simp]:
  "ps_lexer (handle_value v p) = ps_lexer p" "ps_lexer (start_object p) = ps_lexer p"
  "ps_lexer (start_array p) = ps_lexer p" "ps_lexer (sax_key k p) = ps_lexer p"
  by (auto simp: handle_value_def start_object_def start_array_def sax_key_def
      split: list.splits frame.splits)

lemma dom_token [simp]:
  "ps_last_token (handle_value v p) = ps_last_token p" "ps_last_token (start_object p) = ps_last_token p"
  "ps_last_token (start_array p) = ps_last_token p" "ps_last_token (sax_key k p) = ps_last_token p"
  by (auto simp: handle_value_def start_object_def start_array_def sax_key_def
      split: list.splits frame.splits)

lemma end_container_lexer [simp]:
  "ps_lexer (end_container p) = ps_lexer p" "ps_last_token (end_container p) = ps_last_token p"
  by (auto simp: end_container_def split: list.splits frame.splits)

lemma left_get_token: "left (get_token p) \<le> left p"
  using todo_scan(1) [of "ps_lexer p"] by (auto simp: get_token_def split: prod.splits)

lemma left_get_token_less:
  "ps_last_token (get_token p) \<notin> {end_of_input, tok_parse_error} \<Longrightarrow> left (get_token p) < left p"
  using todo_scan(2) [of "ps_lexer p"] by (auto simp: get_token_def split: prod.splits)

lemma parse_key_left: "parse_key p = Inr p' \<Longrightarrow> left p' < left p"
  using left_get_token_less [of "sax_key (lx_token_buffer (ps_lexer p)) p"]
  by (auto simp: parse_key_def Let_def split: if_splits)

lemma parse_value_left: "parse_value p = Inr (p', True) \<Longrightarrow> left p' \<le> left p"
  using left_get_token [of "start_object p"] left_get_token [of "start_array p"]
  by (auto simp: parse_value_def Let_def sum_bind_Inr_conv split: token_type.splits if_splits)

lemma parse_value_todo:
  assumes "parse_value p = Inr (p', False)"
  shows "todo p' < todo p"
proof -
  consider (obj) q where "ps_last_token p = begin_object"
      "parse_key (get_token (start_object p)) = Inr q"
      "p' = get_token (q\<lparr>ps_states := False # ps_states q\<rparr>)"
    | (arr) "ps_last_token p = begin_array"
      "p' = (get_token (start_array p))\<lparr>ps_states := True # ps_states (get_token (start_array p))\<rparr>"
    using assms by (auto simp: parse_value_def Let_def sum_bind_Inr_conv split: token_type.splits if_splits)
  then show ?thesis
  proof cases
    case obj
    have "left p' \<le> left q" using left_get_token [of "q\<lparr>ps_states := False # ps_states q\<rparr>"] obj(3) by simp
    moreover have "left q < left p"
      using parse_key_left [OF obj(2)] left_get_token [of "start_object p"] by simp
    ultimately show ?thesis by (simp add: todo_def)
  next
    case arr
    have "left p' \<le> left p" using left_get_token [of "start_array p"] arr(2) by simp
    moreover have "left p' < left p" if "ps_last_token p' \<notin> {end_of_input, tok_parse_error}"
      using left_get_token_less [of "start_array p"] that arr(2) by simp
    ultimately show ?thesis using arr(1) by (auto simp: todo_def)
  qed
qed

lemma eval_state_left:
  assumes "eval_state p = Inr (p', Some skip)"
  shows "left p' < left p"
proof -
  let ?q = "get_token p"
  have "left (get_token ?q) \<le> left ?q" by (rule left_get_token)
  moreover have "left ?q < left p" if "ps_last_token ?q \<in> {value_separator, end_array, end_object}"
    using left_get_token_less [of p] that by auto
  moreover have "left (get_token r) < left ?q" if "parse_key (get_token ?q) = Inr r" for r
    using parse_key_left [OF that] left_get_token [of r] left_get_token [of ?q] by linarith
  ultimately show ?thesis
    using assms
    by (auto simp: eval_state_def Let_def sum_bind_Inr_conv split: list.splits bool.splits if_splits)
qed

text \<open>
  The loop of \<open>sax_parse_internal\<close>; \<open>skip\<close> is \<^verbatim>\<open>skip_to_state_evaluation\<close>. A turn that falls
  through from the switch to the evaluation of the state is the second case.
\<close>

function sax_loop :: "bool \<Rightarrow> pstate \<Rightarrow> std_exn + pstate" where
  "sax_loop skip p =
    (case (if skip then Inr (p, True) else parse_value p) of
       Inl e \<Rightarrow> Inl e
     | Inr (p1, evaluate) \<Rightarrow>
         if \<not> evaluate then sax_loop False p1
         else (case eval_state p1 of
             Inl e \<Rightarrow> Inl e
           | Inr (p2, next) \<Rightarrow> (case next of None \<Rightarrow> Inr p2 | Some skip' \<Rightarrow> sax_loop skip' p2)))"
  by pat_completeness auto

termination
proof (relation "measure (\<lambda>(skip, p). todo p)", goal_cases)
  case (2 skip p b p1 evaluate)
  then show ?case by (auto dest: parse_value_todo split: if_splits)
next
  case (3 skip p b p1 evaluate b' p2 nx skip')
  have "left p1 \<le> left p"
    using 3(1,2,3) by (auto dest: parse_value_left split: if_splits)
  moreover have "left p2 < left p1"
    using 3(4,5,6) by (auto dest: eval_state_left)
  ultimately show ?case by (simp add: todo_def)
qed simp

declare sax_loop.simps [simp del]

section \<open>json::parse\<close>

definition parser_ctor :: "string \<Rightarrow> pstate" where
  "parser_ctor input = get_token \<lparr>ps_lexer = lexer_ctor input False, ps_last_token = uninitialized,
     ps_states = [], ps_root = JNull, ps_stack = []\<rparr>"

definition json_parse :: "string \<Rightarrow> std_exn + json" where
  "json_parse input = sum_bind (sax_loop False (parser_ctor input)) (\<lambda>p.
     let p = get_token p
     in if ps_last_token p \<noteq> end_of_input then Inl (syntax_error end_of_input ''value'' p)
        else Inr (ps_root p))"

end
