(* ===== verification/Json_Integer.thy ===== *)
theory Json_Integer
  imports Json_Serializer
begin

text \<open>
  The printing of integers: the digit count is exact, the digit pairs written from the end of
  the buffer to its beginning are the decimal numeral, and the numeral of every 64-bit integer
  fits into the buffer.
\<close>

lemma show_nat_ge_10: "10 \<le> n \<Longrightarrow> show_nat n = show_nat (n div 10) @ [digit_char (n mod 10)]"
  by (simp add: show_nat.simps [of n])

lemma show_nat_lt_10: "n < 10 \<Longrightarrow> show_nat n = [digit_char n]"
  by (simp add: show_nat.simps [of n])

lemma show_nat_ge_100:
  assumes "100 \<le> n"
  shows "show_nat n = show_nat (n div 100) @ [digit_char (n mod 100 div 10), digit_char (n mod 10)]"
proof -
  have "10 \<le> n div 10" using assms by linarith
  then have "show_nat (n div 10) = show_nat (n div 10 div 10) @ [digit_char (n div 10 mod 10)]"
    by (rule show_nat_ge_10)
  moreover have "n div 10 div 10 = n div 100" "n div 10 mod 10 = n mod 100 div 10"
    using div_mult2_eq [of n 10 10] mod_mult2_eq [of n 10 10] by simp_all
  ultimately show ?thesis using assms by (simp add: show_nat_ge_10 [of n])
qed

lemma count_digits_length: "count_digits n x + 1 = n + length (show_nat x)"
proof (induction n x rule: count_digits.induct)
  case (1 n x)
  show ?case
  proof (cases "x < 10000")
    case True
    have l: "length (show_nat x) = (if x < 10 then 1 else if x < 100 then 2 else if x < 1000 then 3 else 4)"
    proof (cases "x < 100")
      case True
      then have "x div 10 < 10" by linarith
      with True show ?thesis by (simp add: show_nat_lt_10 show_nat_ge_10 [of x])
    next
      case False
      have "x div 100 < 100" "x div 100 < 10 \<longleftrightarrow> x < 1000" "x div 100 div 10 < 10"
        using True by linarith+
      with False show ?thesis
        by (auto simp: show_nat_ge_100 show_nat_lt_10 show_nat_ge_10 [of "x div 100"])
    qed
    with True show ?thesis by (simp add: count_digits.simps [of n x])
  next
    case False
    have "100 \<le> x div 100" using False by linarith
    then have "show_nat x = (show_nat (x div 100 div 100)
        @ [digit_char (x div 100 mod 100 div 10), digit_char (x div 100 mod 10)])
        @ [digit_char (x mod 100 div 10), digit_char (x mod 10)]"
      using False by (simp add: show_nat_ge_100)
    moreover have "x div 100 div 100 = x div 10000" using div_mult2_eq [of x 100 100] by simp
    ultimately have "length (show_nat x) = length (show_nat (x div 10000)) + 4" by simp
    with False "1.IH" show ?thesis by (simp add: count_digits.simps [of n x])
  qed
qed

lemma drop_two:
  assumes "2 \<le> p" "p \<le> length buf"
  shows "drop (p - 2) (buf[p - Suc 0 := b, p - 2 := a]) = a # b # drop p buf"
proof -
  obtain q where p: "p = Suc (Suc q)" using assms(1) by (metis Suc_diff_Suc add_2_eq_Suc le_add_diff_inverse)
  have "drop q (buf[Suc q := b, q := a]) = a # b # drop (Suc (Suc q)) buf"
    using assms(2) p by (simp add: drop_update_swap Cons_nth_drop_Suc [symmetric])
  then show ?thesis by (simp add: p)
qed

lemma fill_digits_show:
  "length (show_nat a) \<le> p \<Longrightarrow> p \<le> length buf \<Longrightarrow>
   fill_digits a p buf = take (p - length (show_nat a)) buf @ show_nat a @ drop p buf"
proof (induction a p buf rule: fill_digits.induct)
  case (1 a p buf)
  show ?case
  proof (cases "100 \<le> a")
    case True
    let ?d = "digits_to_99 (a mod 100)" and ?n = "length (show_nat (a div 100))"
    let ?buf = "buf[p - 1 := snd ?d, p - 2 := fst ?d]"
    have s: "show_nat a = show_nat (a div 100) @ [fst ?d, snd ?d]"
      using True by (simp add: show_nat_ge_100 digits_to_99_def mod_mod_cancel)
    with "1.prems" have n: "?n \<le> p - 2" "2 \<le> p" by auto
    have "fill_digits a p buf = fill_digits (a div 100) (p - 2) ?buf"
      using True by (simp add: fill_digits.simps [of a] Let_def)
    also have "\<dots> = take (p - 2 - ?n) ?buf @ show_nat (a div 100) @ drop (p - 2) ?buf"
      using "1.IH" [OF True refl] n "1.prems"(2) by simp
    also have "take (p - 2 - ?n) ?buf = take (p - length (show_nat a)) buf"
      using s by simp
    also have "drop (p - 2) ?buf = fst ?d # snd ?d # drop p buf"
      using n "1.prems"(2) by (simp add: drop_two)
    finally show ?thesis using s by simp
  next
    case small: False
    show ?thesis
    proof (cases "10 \<le> a")
      case True
      let ?d = "digits_to_99 a"
      let ?buf = "buf[p - 1 := snd ?d, p - 2 := fst ?d]"
      have "show_nat a = [fst ?d, snd ?d]"
        using True small by (simp add: show_nat_ge_10 show_nat_lt_10 digits_to_99_def)
      moreover from this "1.prems" have "2 \<le> p" by simp
      moreover have "fill_digits a p buf = ?buf"
        using True small by (simp add: fill_digits.simps [of a] Let_def)
      moreover have "?buf = take (p - 2) ?buf @ drop (p - 2) ?buf"
        by (rule append_take_drop_id [symmetric])
      moreover have "take (p - 2) ?buf = take (p - 2) buf"
        by simp
      ultimately show ?thesis
        using "1.prems" drop_two [of p buf "snd ?d" "fst ?d"] by (simp add: numeral_2_eq_2)
    next
      case False
      then have "show_nat a = [digit_char a]" by (simp add: show_nat_lt_10)
      with "1.prems" False show ?thesis
        by (simp add: fill_digits.simps [of a] digit_char_def upd_conv_take_nth_drop)
    qed
  qed
qed

lemma show_nat_length: "n < 10 ^ k \<Longrightarrow> 0 < k \<Longrightarrow> length (show_nat n) \<le> k"
proof (induction k arbitrary: n)
  case (Suc k)
  show ?case
  proof (cases "n < 10")
    case False
    with Suc.prems have "0 < k" by (cases k) auto
    moreover have "n div 10 < 10 ^ k" using Suc.prems by (simp add: div_less_iff_less_mult)
    ultimately show ?thesis using Suc.IH [of "n div 10"] False by (simp add: show_nat_ge_10)
  qed (simp add: show_nat_lt_10)
qed simp

lemma u64_digits: "n < 2 ^ 64 \<Longrightarrow> length (show_nat n) \<le> 20"
  by (rule show_nat_length) simp_all

lemma dump_integer_to_string:
  assumes "- (2 ^ 63) \<le> x" "x < 2 ^ 64"
  shows "dump_integer x = to_string x"
proof -
  have cd: "count_digits (Suc 0) n = length (show_nat n)" for n
    using count_digits_length [of 1 n] by simp
  have n20: "length (show_nat (nat \<bar>x\<bar>)) \<le> 20"
    using assms by (intro u64_digits) auto
  have nb: "length number_buffer = 64" by (simp add: number_buffer_def)
  show ?thesis
  proof (cases x "0 :: int" rule: linorder_cases)
    case less
    then have "remove_sign x = nat (- x)" by (simp add: remove_sign_def)
    moreover have "take 1 (number_buffer[0 := CHR ''-'']) = ''-''"
      by code_simp
    ultimately show ?thesis
      using less n20 nb
      by (simp add: dump_integer_def to_string_def cd fill_digits_show Let_def)
  next
    case equal
    then show ?thesis by (simp add: dump_integer_def)
  next
    case greater
    then show ?thesis
      using n20 nb by (simp add: dump_integer_def to_string_def cd fill_digits_show Let_def)
  qed
qed

text \<open>C27: the integer printer of the serializer, which counts the digits and fills its 64-byte
  buffer backwards two digits at a time, writes the decimal numeral of every signed and every
  unsigned 64-bit integer, and the numeral takes at most 21 bytes.\<close>

theorem dump_integer_decimal:
  assumes "- (2 ^ 63) \<le> x" "x < 2 ^ 64"
  shows "dump_integer x = to_string x \<and> length (dump_integer x) \<le> 21"
proof -
  have "length (show_nat (nat \<bar>x\<bar>)) \<le> 20" using assms by (intro u64_digits) auto
  then show ?thesis
    using dump_integer_to_string [OF assms] by (cases "x < 0") (simp_all add: to_string_def)
qed

theorem dump_integer_decimal_witness:
  "dump_integer (-9223372036854775808) = to_string (-9223372036854775808) \<and>
   dump_integer 18446744073709551615 = to_string 18446744073709551615"
  using dump_integer_decimal [of "-9223372036854775808"] dump_integer_decimal [of "18446744073709551615"]
  by simp

end
