(* ===== verification/Json_Tokens.thy ===== *)
theory Json_Tokens
  imports Json_Parser Json_Integer
begin

text \<open>
  What the lexer returns on the text that the serializer writes: punctuation, literals,
  escaped strings and integers, each with the input that it leaves.
\<close>

section \<open>States of the lexer\<close>

text \<open>Before a token: the rest of the input is \<open>r\<close>. At a token: its first character was read.\<close>

definition before :: "lexer \<Rightarrow> string \<Rightarrow> bool" where
  "before l r \<longleftrightarrow> lexer_ok l \<and> \<not> lx_ignore_comments l \<and> pending l = r"

definition at_char :: "lexer \<Rightarrow> char \<Rightarrow> string \<Rightarrow> bool" where
  "at_char l c r \<longleftrightarrow> before l r \<and> \<not> lx_next_unget l \<and> lx_current l = of_char c"

lemma before_ctor [simp]: "before (lexer_ctor s False) s"
  by (simp add: before_def lexer_ctor_def lexer_ok_def pending_def)

lemma at_before: "at_char l c r \<Longrightarrow> before l r"
  by (simp add: at_char_def)

lemma at_get: "before l (c # r) \<Longrightarrow> at_char (lx_get l) c r"
  by (auto simp: before_def at_char_def lx_get_pending lx_get_current lx_get_ok)

lemma eof_get: "before l [] \<Longrightarrow> lx_current (lx_get l) = -1 \<and> before (lx_get l) []"
  by (auto simp: before_def lx_get_pending lx_get_current lx_get_ok)

lemma lx_get_eof: "lexer_ok l \<Longrightarrow> lx_current (lx_get l) = -1 \<Longrightarrow> lx_ia (lx_get l) = []"
  by (auto simp: lx_get_def Let_def get_character_def lexer_ok_def split: list.splits if_splits)

lemma before_unget_get:
  assumes "before l r"
  shows "before (lx_unget (lx_get l)) r"
proof -
  have ok: "lexer_ok (lx_get l)" using assms by (simp add: before_def lx_get_ok)
  have ia: "lx_ia (lx_get l) = pending (lx_get l)" by (simp add: pending_def)
  show ?thesis
  proof (cases r)
    case Nil
    with assms have "pending l = []" by (simp add: before_def)
    with assms show ?thesis
      using ok lx_get_eof [of l] eof_get [of l] ia
      by (auto simp: before_def pending_unget lexer_ok_def)
  next
    case (Cons c cs)
    then have "at_char (lx_get l) c cs" using assms at_get by simp
    with Cons ok ia show ?thesis
      by (auto simp: before_def at_char_def pending_unget lexer_ok_def)
  qed
qed

lemma before_other [simp]:
  "before (lx_add x l) r = before l r" "before (lx_fail m l) r = before l r"
  by (simp_all add: before_def lexer_ok_def lx_add_def lx_fail_def pending_def)

lemma at_add [simp]: "at_char (lx_add x l) c r = at_char l c r"
  by (simp add: at_char_def) (simp add: lx_add_def)

lemma lx_add_buffer [simp]: "lx_token_buffer (lx_add x l) = lx_token_buffer l @ [char_of x]"
  "lx_current (lx_add x l) = lx_current l"
  by (simp_all add: lx_add_def)

lemma at_reset [simp]: "at_char (lx_reset l) c r = at_char l c r" "lx_token_buffer (lx_reset l) = []"
  "lx_current (lx_reset l) = lx_current l"
  by (simp_all add: at_char_def before_def lexer_ok_def lx_reset_def pending_def)

lemma at_current: "at_char l c r \<Longrightarrow> lx_current l = of_char c"
  by (simp add: at_char_def)

lemma char_of_of_char_int [simp]: "char_of (of_char c :: int) = c"
  by simp

section \<open>The start of a token\<close>

definition token_start :: "char \<Rightarrow> bool" where
  "token_start c \<longleftrightarrow> (of_char c :: int) \<notin> {0xEF, 0x20, 0x09, 0x0A, 0x0D}"

lemma skip_bom_before:
  assumes "before l r" "\<And>c cs. r = c # cs \<Longrightarrow> (of_char c :: int) \<noteq> 0xEF"
  shows "before (fst (skip_bom l)) r \<and> snd (skip_bom l)"
proof -
  have "lx_current (lx_get l) \<noteq> 0xEF"
    using assms eof_get [of l] at_get [of l] by (cases r) (auto simp: at_char_def)
  with before_unget_get [OF assms(1)] show ?thesis by (simp add: skip_bom_def Let_def)
qed

lemma skip_comments_off: "\<not> lx_ignore_comments l \<Longrightarrow> skip_comments l = (l, True)"
  by (simp add: skip_comments.simps)

lemma scan_at:
  assumes "before l (c # r)" "token_start c"
  shows "\<exists>l'. scan l = scan_token l' \<and> at_char l' c r"
proof -
  define q where "q = (if chars_read_total (lx_position l) = 0 then skip_bom l else (l, True))"
  have q: "before (fst q) (c # r)" "snd q"
    using assms skip_bom_before [OF assms(1)] by (auto simp: q_def token_start_def)
  let ?l = "lx_get (fst q)"
  have a: "at_char ?l c r" using q(1) by (rule at_get)
  then have "skip_whitespace (fst q) = ?l"
    using assms(2) by (simp add: skip_whitespace.simps Let_def at_char_def token_start_def)
  moreover have "skip_comments ?l = (?l, True)"
    using a by (intro skip_comments_off) (simp add: at_char_def before_def)
  ultimately have "scan l = scan_token ?l"
    using q(2) unfolding scan_def q_def [symmetric] by (cases q) simp
  with a show ?thesis by blast
qed

lemma scan_eof:
  assumes "before l []"
  shows "snd (scan l) = end_of_input"
proof -
  define q where "q = (if chars_read_total (lx_position l) = 0 then skip_bom l else (l, True))"
  have q: "before (fst q) []" "snd q"
    using assms skip_bom_before [OF assms(1)] by (auto simp: q_def)
  let ?l = "lx_get (fst q)"
  have a: "lx_current ?l = -1" using eof_get [OF q(1)] by simp
  then have "skip_whitespace (fst q) = ?l"
    by (simp add: skip_whitespace.simps Let_def)
  then have "scan l = scan_token ?l"
    using q(2) a unfolding scan_def q_def [symmetric] by (cases q) simp
  with a show ?thesis by (simp add: scan_token_def)
qed

section \<open>Punctuation and literals\<close>

lemma scan_punct:
  assumes "before l (c # r)"
    and "(c, t) \<in> {(CHR ''['', begin_array), (CHR '']'', end_array), (CHR ''{'', begin_object),
      (CHR ''}'', end_object), (CHR '':'', name_separator), (CHR '','', value_separator)}"
  shows "\<exists>l'. scan l = (l', t) \<and> before l' r"
proof -
  have "token_start c" using assms(2) by (auto simp: token_start_def)
  from scan_at [OF assms(1) this] obtain l' where "scan l = scan_token l'" "at_char l' c r" by blast
  with assms(2) show ?thesis by (auto simp: scan_token_def Let_def at_char_def)
qed

lemma literal_before:
  "before l (w @ r) \<Longrightarrow> \<exists>l'. literal_loop w ty l = (l', ty) \<and> before l' r"
proof (induction w arbitrary: l)
  case (Cons c w)
  then have a: "at_char (lx_get l) c (w @ r)" by (simp add: at_get)
  from Cons.IH [OF at_before [OF a]] at_current [OF a] show ?case by (simp add: Let_def)
qed simp

lemma scan_token_literal:
  "at_char l (CHR ''t'') r \<Longrightarrow> scan_token l = literal_loop ''rue'' literal_true l"
  "at_char l (CHR ''f'') r \<Longrightarrow> scan_token l = literal_loop ''alse'' literal_false l"
  "at_char l (CHR ''n'') r \<Longrightarrow> scan_token l = literal_loop ''ull'' literal_null l"
  by (simp_all only: scan_token_def scan_literal_def at_char_def Let_def list.sel, simp_all del: literal_loop.simps)

lemma scan_literal_before:
  assumes "before l (c # w @ r)" "token_start c"
    and "\<And>l'. at_char l' c (w @ r) \<Longrightarrow> scan_token l' = literal_loop w t l'"
  shows "\<exists>l'. scan l = (l', t) \<and> before l' r"
proof -
  obtain l' where "scan l = scan_token l'" and a: "at_char l' c (w @ r)"
    using scan_at [OF assms(1,2)] by blast
  with assms(3) [OF a] literal_before [OF at_before [OF a]] show ?thesis by simp
qed

lemma scan_true: "before l (''true'' @ r) \<Longrightarrow> \<exists>l'. scan l = (l', literal_true) \<and> before l' r"
  by (rule scan_literal_before [of l "CHR ''t''" "''rue''" r])
    (simp_all add: token_start_def scan_token_literal(1) del: literal_loop.simps)

lemma scan_false: "before l (''false'' @ r) \<Longrightarrow> \<exists>l'. scan l = (l', literal_false) \<and> before l' r"
  by (rule scan_literal_before [of l "CHR ''f''" "''alse''" r])
    (simp_all add: token_start_def scan_token_literal(2) del: literal_loop.simps)

lemma scan_null: "before l (''null'' @ r) \<Longrightarrow> \<exists>l'. scan l = (l', literal_null) \<and> before l' r"
  by (rule scan_literal_before [of l "CHR ''n''" "''ull''" r])
    (simp_all add: token_start_def scan_token_literal(3) del: literal_loop.simps)

section \<open>Strings\<close>

text \<open>One turn of the loop reads the text of \<open>s\<close> and appends \<open>s\<close> to the buffer.\<close>

definition step_reads :: "lexer \<Rightarrow> string \<Rightarrow> string \<Rightarrow> bool" where
  "step_reads l s r \<longleftrightarrow> (\<exists>l'. string_step l = (l', None) \<and> before l' r \<and>
     lx_token_buffer l' = lx_token_buffer l @ s)"

lemma int_of_char: "int (of_char c) = of_char c"
  by (simp add: of_char_def)

lemma nat_of_char_int [simp]: "nat (of_char c :: int) = of_char c"
  by (simp add: int_of_char [symmetric])

lemma step_quote: "before l (CHR 0x22 # r) \<Longrightarrow> string_step l = (lx_get l, Some value_string) \<and> before (lx_get l) r"
  using at_get [of l "CHR 0x22" r] by (simp add: string_step_def Let_def at_char_def)

lemma step_plain:
  assumes "before l (c # r)" "0x20 \<le> (of_char c :: nat)" "(of_char c :: nat) \<le> 0x7F"
    "(of_char c :: nat) \<noteq> 0x22" "(of_char c :: nat) \<noteq> 0x5C"
  shows "step_reads l [c] r"
proof -
  have a: "at_char (lx_get l) c r" using assms(1) by (rule at_get)
  have "(0x20 :: int) \<le> of_char c" "(of_char c :: int) \<le> 0x7F" "(of_char c :: int) \<noteq> 0x22"
    "(of_char c :: int) \<noteq> 0x5C"
    using assms(2-5) by (simp_all add: int_of_char [symmetric])
  with a show ?thesis
    by (auto simp: step_reads_def string_step_def Let_def at_char_def)
qed

lemma step_escape_simple:
  assumes "before l (CHR 0x5C # x # r)"
    and "(x, v) \<in> {(CHR 0x22, 0x22), (CHR 0x5C, 0x5C), (CHR ''b'', 0x08), (CHR ''f'', 0x0C),
      (CHR ''n'', 0x0A), (CHR ''r'', 0x0D), (CHR ''t'', 0x09)}"
  shows "step_reads l [char_of (v :: int)] r"
proof -
  have a: "at_char (lx_get l) (CHR 0x5C) (x # r)" using assms(1) by (rule at_get)
  have b: "at_char (lx_get (lx_get l)) x r" using at_get [OF at_before [OF a]] .
  then have "scan_escape (lx_get l) = (lx_add v (lx_get (lx_get l)), True)"
    using assms(2) by (auto simp: scan_escape_def Let_def at_char_def)
  with a b show ?thesis
    by (simp add: step_reads_def string_step_def Let_def at_char_def)
qed

lemma of_char_hex_digit:
  "d < 16 \<Longrightarrow> (of_char (hex_digit d) :: int) = (if d < 10 then 48 + int d else 87 + int d)"
  by (simp add: hex_digit_def int_of_char [symmetric])

lemma codepoint_hex:
  assumes "before l (hex_digit d # r)" "d < 16"
  shows "codepoint_loop (f # fs) cp l = codepoint_loop fs (cp + int d * 2 ^ f) (lx_get l)"
    and "before (lx_get l) r"
proof -
  have a: "at_char (lx_get l) (hex_digit d) r" using assms(1) by (rule at_get)
  then show "before (lx_get l) r" by (rule at_before)
  have c: "lx_current (lx_get l) = (if d < 10 then 48 + int d else 87 + int d)"
    using a assms(2) by (simp only: at_char_def of_char_hex_digit)
  show "codepoint_loop (f # fs) cp l = codepoint_loop fs (cp + int d * 2 ^ f) (lx_get l)"
    using assms(2) c unfolding codepoint_loop.simps(2) Let_def by (cases "d < 10") simp_all
qed

lemma get_codepoint_digits:
  assumes "before l (hex_digit a # hex_digit b # hex_digit c # hex_digit d # r)"
    and "a < 16" "b < 16" "c < 16" "d < 16"
  shows "\<exists>l'. get_codepoint l = (l', int (a * 4096 + b * 256 + c * 16 + d)) \<and> before l' r \<and>
    lx_token_buffer l' = lx_token_buffer l"
proof -
  note 1 = codepoint_hex [OF assms(1,2)]
  note 2 = codepoint_hex [OF 1(2) assms(3)]
  note 3 = codepoint_hex [OF 2(2) assms(4)]
  note 4 = codepoint_hex [OF 3(2) assms(5)]
  have "get_codepoint l = (lx_get (lx_get (lx_get (lx_get l))), int (a * 4096 + b * 256 + c * 16 + d))"
    unfolding get_codepoint_def 1(1) 2(1) 3(1) 4(1) codepoint_loop.simps(1) by simp
  with 4(2) show ?thesis by simp
qed

lemma get_codepoint_hex4:
  assumes "before l (hex4 n @ r)" "n < 256"
  shows "\<exists>l'. get_codepoint l = (l', int n) \<and> before l' r \<and> lx_token_buffer l' = lx_token_buffer l"
proof -
  have z: "n div 4096 mod 16 = 0" "n div 256 mod 16 = 0" "n div 16 mod 16 < 16" "n mod 16 < 16"
    using assms(2) by simp_all
  have n: "n div 16 mod 16 * 16 + n mod 16 = n"
    using mod_mult2_eq [of n 16 16] assms(2) by simp
  have "before l (hex_digit 0 # hex_digit 0 # hex_digit (n div 16 mod 16) # hex_digit (n mod 16) # r)"
    using assms(1) unfolding hex4_def z(1,2) by simp
  from get_codepoint_digits [OF this _ _ z(3,4)] show ?thesis
    using n by simp
qed

lemma step_control:
  assumes "before l ([CHR 0x5C, CHR ''u''] @ hex4 (of_char c) @ r)" "(of_char c :: nat) < 0x20"
  shows "step_reads l [c] r"
proof -
  have a: "at_char (lx_get l) (CHR 0x5C) (CHR ''u'' # hex4 (of_char c) @ r)"
    using assms(1) by (intro at_get) simp
  have b: "at_char (lx_get (lx_get l)) (CHR ''u'') (hex4 (of_char c) @ r)"
    using at_get [OF at_before [OF a]] .
  obtain l' where l': "get_codepoint (lx_get (lx_get l)) = (l', int (of_char c))" "before l' r"
    "lx_token_buffer l' = lx_token_buffer l"
    using get_codepoint_hex4 [OF at_before [OF b]] assms(2) by auto
  have n: "(of_char c :: int) < 0x20" using assms(2) by (simp add: int_of_char [symmetric])
  have "scan_unicode (lx_get (lx_get l)) = (lx_add (of_char c) l', True)"
    using n by (simp add: scan_unicode_def l'(1) int_of_char add_codepoint_def)
  moreover have "scan_escape (lx_get l) = scan_unicode (lx_get (lx_get l))"
    using b by (simp add: scan_escape_def Let_def at_char_def)
  ultimately show ?thesis
    using a l' by (simp add: step_reads_def string_step_def Let_def at_char_def)
qed

text \<open>The bytes that follow the first byte of a longer character.\<close>

lemma ranges_loop_reads:
  "before l (s @ r) \<Longrightarrow> list_all2 in_byte_range rs (map of_char s) \<Longrightarrow>
   \<exists>l'. ranges_loop rs l = (l', True) \<and> before l' r \<and> lx_token_buffer l' = lx_token_buffer l @ s"
proof (induction rs arbitrary: l s)
  case Nil
  then show ?case by simp
next
  case (Cons q rs)
  then obtain c s' where s: "s = c # s'" by (auto simp: list_all2_Cons1)
  have a: "at_char (lx_get l) c (s' @ r)" using Cons.prems(1) s by (simp add: at_get)
  let ?l = "lx_add (lx_current (lx_get l)) (lx_get l)"
  have "int (fst q) \<le> lx_current (lx_get l) \<and> lx_current (lx_get l) \<le> int (snd q)"
    using Cons.prems(2) s a by (simp add: at_char_def int_of_char [symmetric])
  then have "ranges_loop (q # rs) l = ranges_loop rs ?l" by (simp add: Let_def)
  moreover have "before ?l (s' @ r)" "lx_token_buffer ?l = lx_token_buffer l @ [c]"
    using a by (simp_all add: at_char_def)
  ultimately show ?case using Cons.IH [of ?l s'] Cons.prems(2) s by simp
qed

lemma step_multibyte:
  assumes "before l (c # s @ r)" "utf8_ranges (of_char c) = Some rs" "128 \<le> (of_char c :: nat)"
    "list_all2 in_byte_range rs (map of_char s)"
  shows "step_reads l (c # s) r"
proof -
  have a: "at_char (lx_get l) c (s @ r)" using assms(1) by (rule at_get)
  let ?l = "lx_add (of_char c) (lx_get l)"
  obtain l' where l': "ranges_loop rs ?l = (l', True)" "before l' r"
    "lx_token_buffer l' = lx_token_buffer l @ [c] @ s"
    using ranges_loop_reads [of ?l s r rs] at_before [OF a] assms(4) by auto
  have "(128 :: int) \<le> of_char c" using assms(3) by (simp add: int_of_char [symmetric])
  then show ?thesis
    using a l' assms(2)
    by (simp add: step_reads_def string_step_def Let_def at_char_def next_byte_in_range_def)
qed

text \<open>Every character is read back from its escaped form.\<close>

lemma step_ascii:
  assumes "before l (esc_byte c @ r)" "(of_char c :: nat) < 128"
  shows "step_reads l [c] r"
proof -
  let ?b = "of_char c :: nat"
  have c: "c = char_of ?b" by simp
  consider "?b \<in> {8, 9, 10, 12, 13, 34, 92}" | "?b \<notin> {8, 9, 10, 12, 13, 34, 92}" "?b < 0x20"
    | "?b \<notin> {8, 9, 10, 12, 13, 34, 92}" "0x20 \<le> ?b" by linarith
  then show ?thesis
  proof cases
    case 1
    have s: "step_reads l [char_of v] r"
      if "esc_byte c = [CHR 0x5C, x]" "(x, v) \<in> {(CHR 0x22, 0x22), (CHR 0x5C, 0x5C), (CHR ''b'', 0x08),
        (CHR ''f'', 0x0C), (CHR ''n'', 0x0A), (CHR ''r'', 0x0D), (CHR ''t'', 0x09)}" for x and v :: int
      using step_escape_simple [of l x r v] assms(1) that by simp
    have i: "c = char_of (int ?b)" by (simp add: int_of_char)
    from 1 consider "?b = 8" | "?b = 9" | "?b = 10" | "?b = 12" | "?b = 13" | "?b = 34" | "?b = 92" by blast
    then show ?thesis
      by cases (subst i, rule s, simp_all add: esc_byte_def escape_codepoint_def)+
  next
    case 2
    then have "esc_byte c = [CHR 0x5C, CHR ''u''] @ hex4 ?b"
      by (simp add: esc_byte_def escape_codepoint_def)
    with 2 assms(1) show ?thesis by (intro step_control) simp_all
  next
    case 3
    then have "esc_byte c = [c]" by (simp add: esc_byte_def escape_codepoint_def)
    with 3 assms show ?thesis by (intro step_plain) simp_all
  qed
qed

lemma utf8_run_split:
  "utf8_run rs s \<Longrightarrow> \<exists>a b. s = a @ b \<and> list_all2 in_byte_range rs (map of_char a) \<and> utf8_run [] b"
proof (induction rs arbitrary: s)
  case (Cons r rs)
  then obtain c s' where s: "s = c # s'" by (cases s) auto
  with Cons.prems Cons.IH [of s'] obtain a b where "s' = a @ b"
    "list_all2 in_byte_range rs (map of_char a)" "utf8_run [] b" "in_byte_range r (of_char c)" by auto
  with s show ?case by (intro exI [of _ "c # a"] exI [of _ b]) simp
qed auto

lemma ranges_high: "utf8_ranges b = Some rs \<Longrightarrow> r \<in> set rs \<Longrightarrow> 128 \<le> fst r"
  by (auto simp: utf8_ranges_def split: if_splits)

lemma esc_high_bytes: "list_all2 in_byte_range rs (map of_char s) \<Longrightarrow> (\<And>r. r \<in> set rs \<Longrightarrow> 128 \<le> fst r) \<Longrightarrow> esc s = s"
proof (induction rs arbitrary: s)
  case (Cons r rs)
  then obtain c s' where s: "s = c # s'" by (auto simp: list_all2_Cons1)
  with Cons.prems have "128 \<le> (of_char c :: nat)" by fastforce
  with Cons s show ?case by (simp add: esc_byte_high)
qed simp

lemma scan_string_reads:
  assumes "before l (esc s @ CHR 0x22 # r)" "utf8_valid s"
  shows "\<exists>l'. scan_string_loop l = (l', value_string) \<and> before l' r \<and> lx_token_buffer l' = lx_token_buffer l @ s"
  using assms
proof (induction "length s" arbitrary: s l rule: less_induct)
  case less
  have go: "scan_string_loop l = scan_string_loop l'" if "string_step l = (l', None)" for l'
    using that by (simp add: scan_string_loop.simps [of l])
  have rest: ?case if "step_reads l a (esc b @ CHR 0x22 # r)" "s = a @ b" "a \<noteq> []" "utf8_valid b" for a b
  proof -
    from that(1) obtain l' where l': "string_step l = (l', None)" "before l' (esc b @ CHR 0x22 # r)"
      "lx_token_buffer l' = lx_token_buffer l @ a" by (auto simp: step_reads_def)
    with less.hyps [of b l'] that go [OF l'(1)] show ?thesis by simp
  qed
  show ?case
  proof (cases s)
    case Nil
    with less.prems step_quote [of l r] show ?thesis by (simp add: scan_string_loop.simps [of l])
  next
    case (Cons c cs)
    with less.prems(2) obtain rs where rs: "utf8_ranges (of_char c) = Some rs" "utf8_run rs cs"
      by (auto simp: utf8_valid_def split: option.splits)
    show ?thesis
    proof (cases "(of_char c :: nat) < 128")
      case True
      then have "rs = []" using rs(1) by (simp add: utf8_ranges_def)
      with True rs Cons less.prems(1) show ?thesis
        by (intro rest [of "[c]" cs] step_ascii) (simp_all add: utf8_valid_def)
    next
      case False
      obtain a b where ab: "cs = a @ b" "list_all2 in_byte_range rs (map of_char a)" "utf8_run [] b"
        using utf8_run_split [OF rs(2)] by blast
      have e: "esc (c # a) = c # a"
        using False esc_high_bytes [OF ab(2)] ranges_high [OF rs(1)] by (simp add: esc_byte_high)
      have "esc s = esc (c # a) @ esc b" by (simp add: Cons ab(1))
      then have "before l (c # a @ esc b @ CHR 0x22 # r)"
        using less.prems(1) unfolding e by simp
      then have "step_reads l (c # a) (esc b @ CHR 0x22 # r)"
        using False rs(1) ab(2) by (intro step_multibyte) auto
      with ab Cons show ?thesis by (intro rest [of "c # a" b]) (simp_all add: utf8_valid_def)
    qed
  qed
qed

lemma scan_str:
  assumes "before l ([CHR 0x22] @ esc s @ [CHR 0x22] @ r)" "utf8_valid s"
  shows "\<exists>l'. scan l = (l', value_string) \<and> before l' r \<and> lx_token_buffer l' = s"
proof -
  obtain l1 where l1: "scan l = scan_token l1" "at_char l1 (CHR 0x22) (esc s @ CHR 0x22 # r)"
    using scan_at [of l "CHR 0x22" "esc s @ CHR 0x22 # r"] assms(1) by (auto simp: token_start_def)
  then have "scan_token l1 = scan_string_loop (lx_reset l1)"
    by (simp add: scan_token_def at_char_def scan_string_def)
  moreover have "before (lx_reset l1) (esc s @ CHR 0x22 # r)"
    using l1(2) at_before [of "lx_reset l1"] by simp
  ultimately show ?thesis using scan_string_reads [of "lx_reset l1" s r] assms(2) l1(1) by simp
qed

section \<open>Integers\<close>

text \<open>What may follow a number: the end, or a character that cannot continue it.\<close>

definition follow :: "string \<Rightarrow> bool" where
  "follow r \<longleftrightarrow> (case r of [] \<Rightarrow> True | c # _ \<Rightarrow> c = CHR '','' \<or> c = CHR '']'' \<or> c = CHR ''}'')"

lemma follow_get:
  assumes "before l r" "follow r"
  shows "lx_current (lx_get l) \<notin> {0x2E, 0x65, 0x45} \<and> \<not> is_digit_int (lx_current (lx_get l))"
  using assms eof_get [of l] at_get [of l] by (cases r) (auto simp: follow_def at_char_def)

lemma number_loop_stop:
  assumes "before l r" "follow r" "lab = num_zero \<or> lab = num_any1"
  shows "number_loop lab ty l = (lx_get l, Some ty)"
  using follow_get [OF assms(1,2)] assms(3)
  by (auto simp: number_loop.simps [of lab] number_loop.simps [of num_done] number_step_def Let_def)

lemma char_of_ints [simp]: "char_of (48 :: int) = CHR ''0''" "char_of (45 :: int) = CHR ''-''"
  using char_of_of_char_int [of "CHR ''0''"] char_of_of_char_int [of "CHR ''-''"] by simp_all

lemma is_digit_int_of_char: "is_digit c \<Longrightarrow> is_digit_int (of_char c)"
  by (auto simp: is_digit_def int_of_char [symmetric])

lemma number_loop_digits:
  assumes "before l (ds @ r)" "follow r" "\<And>c. c \<in> set ds \<Longrightarrow> is_digit c"
  shows "\<exists>l'. number_loop num_any1 ty l = (lx_get l', Some ty) \<and> before l' r \<and>
    lx_token_buffer l' = lx_token_buffer l @ ds"
  using assms
proof (induction ds arbitrary: l)
  case Nil
  then show ?case using number_loop_stop [of l r num_any1 ty] by auto
next
  case (Cons c ds)
  have a: "at_char (lx_get l) c (ds @ r)" using Cons.prems(1) by (simp add: at_get)
  have d: "is_digit_int (of_char c)" using Cons.prems(3) by (intro is_digit_int_of_char) simp
  let ?l = "lx_add (of_char c) (lx_get l)"
  have "number_loop num_any1 ty l = number_loop num_any1 ty ?l"
    using a d by (subst number_loop.simps) (simp add: number_step_def Let_def at_char_def)
  moreover have "before ?l (ds @ r)" using at_before [OF a] by simp
  moreover have "lx_token_buffer ?l = lx_token_buffer l @ [c]" by simp
  ultimately show ?case using Cons.IH [of ?l] Cons.prems by auto
qed

lemma show_nat_cons: "\<exists>d ds. show_nat n = d # ds \<and> is_digit d \<and> (\<forall>c \<in> set ds. is_digit c) \<and>
    (d = CHR ''0'' \<longrightarrow> n = 0 \<and> ds = [])"
proof -
  obtain d ds where e: "show_nat n = d # ds" using show_nat_not_Nil [of n] by (cases "show_nat n") auto
  have "n = 0 \<and> ds = []" if "d = CHR ''0''"
  proof -
    from that e show_nat_hd [of n] have "n = 0" by auto
    with e show ?thesis by (simp add: show_nat.simps [of 0])
  qed
  with e show_nat_digits [of _ n] show ?thesis by auto
qed

text \<open>The digits of a number, after an optional sign that is already in the buffer.\<close>

lemma number_digits:
  assumes "at_char l d (ds @ r)" "follow r" "show_nat n = d # ds"
  shows "\<exists>l'. number_loop (if of_char d = (0x30 :: int) then num_zero else num_any1) ty (lx_add (of_char d) l)
      = (lx_get l', Some ty) \<and> before l' r \<and> lx_token_buffer l' = lx_token_buffer l @ show_nat n"
proof -
  have b: "before (lx_add (of_char d) l) (ds @ r)" using at_before [OF assms(1)] by simp
  show ?thesis
  proof (cases "d = CHR ''0''")
    case True
    with assms(3) show_nat_cons [of n] have ds: "ds = []" by auto
    with b True assms number_loop_stop [of "lx_add (of_char d) l" r num_zero ty] show ?thesis
      by (intro exI [of _ "lx_add (of_char d) l"]) simp
  next
    case False
    then have "(of_char d :: int) \<noteq> 0x30"
      using of_char_eq_iff [of d "CHR ''0''", where ?'a = int] by simp
    with number_loop_digits [OF b assms(2)] assms(3) show_nat_cons [of n] show ?thesis by auto
  qed
qed

lemma digit_token: "is_digit d \<Longrightarrow> token_start d \<and> is_digit_int (of_char d)"
  using is_digit_int_of_char [of d] by (auto simp: token_start_def)

lemma scan_unsigned:
  assumes "before l (show_nat n @ r)" "follow r" "n < 2 ^ 64"
  shows "\<exists>l'. scan l = (l', value_unsigned) \<and> before l' r \<and> lx_value_unsigned l' = int n"
proof -
  obtain d ds where d: "show_nat n = d # ds" "is_digit d" using show_nat_cons [of n] by blast
  obtain l1 where l1: "scan l = scan_token l1" "at_char l1 d (ds @ r)"
    using scan_at [of l d "ds @ r"] assms(1) d digit_token by auto
  have i: "is_digit_int (of_char d)" using d(2) digit_token by simp
  have s: "scan_token l1 = scan_number l1"
    using l1(2) i by (auto simp: scan_token_def Let_def at_char_def)
  have c: "lx_current (lx_reset l1) = of_char d" using l1(2) by (simp add: at_char_def)
  have init: "number_init (of_char d) = (if of_char d = (0x30 :: int) then num_zero else num_any1)"
    using i by (auto simp: number_init_def)
  obtain l2 where l2: "number_loop (number_init (of_char d)) value_unsigned (lx_add (of_char d) (lx_reset l1))
      = (lx_get l2, Some value_unsigned)" "before l2 r" "lx_token_buffer l2 = show_nat n"
    using number_digits [of "lx_reset l1" d ds r n value_unsigned] l1(2) assms(2) d(1) unfolding init by auto
  have "strtoull (show_nat n) = Some (int n)" using assms(3) by (simp add: strtoull_def)
  then have "scan_token l1 = ((lx_unget (lx_get l2))\<lparr>lx_value_unsigned := int n\<rparr>, value_unsigned)"
    unfolding s scan_number_def Let_def c l2(1)
    by (simp add: number_done_def Let_def l2(3))
  moreover have "before ((lx_unget (lx_get l2))\<lparr>lx_value_unsigned := int n\<rparr>) r"
    using before_unget_get [OF l2(2)] by (simp add: before_def lexer_ok_def)
  ultimately show ?thesis using l1(1) by simp
qed

lemma scan_negative:
  assumes "before l (CHR ''-'' # show_nat n @ r)" "follow r" "0 < n" "n \<le> 2 ^ 63"
  shows "\<exists>l'. scan l = (l', value_integer) \<and> before l' r \<and> lx_value_integer l' = - int n"
proof -
  obtain d ds where d: "show_nat n = d # ds" "is_digit d" "d \<noteq> CHR ''0''"
    using show_nat_cons [of n] assms(3) by blast
  obtain l1 where l1: "scan l = scan_token l1" "at_char l1 (CHR ''-'') (d # ds @ r)"
    using scan_at [of l "CHR ''-''" "d # ds @ r"] assms(1) d by (auto simp: token_start_def)
  let ?m = "lx_add 0x2D (lx_reset l1)"
  have s: "scan_token l1 = scan_number l1" and c: "lx_current (lx_reset l1) = 0x2D"
    using l1(2) by (simp_all add: scan_token_def Let_def at_char_def)
  have m: "at_char (lx_get ?m) d (ds @ r)"
    using l1(2) at_before [of "lx_reset l1"] by (intro at_get) simp
  have i: "is_digit_int (of_char d)" using d(2) digit_token by simp
  have "(of_char d :: int) \<noteq> 0x30"
    using d(3) of_char_eq_iff [of d "CHR ''0''", where ?'a = int] by simp
  then have "number_loop num_minus value_unsigned ?m = number_loop
      (if of_char d = (0x30 :: int) then num_zero else num_any1) value_integer (lx_add (of_char d) (lx_get ?m))"
    using m i by (subst number_loop.simps) (auto simp: number_step_def Let_def at_char_def)
  then obtain l2 where l2: "number_loop num_minus value_unsigned ?m = (lx_get l2, Some value_integer)"
    "before l2 r" "lx_token_buffer l2 = CHR ''-'' # show_nat n"
    using number_digits [OF m assms(2) d(1), of value_integer] by auto
  have "strtoll (CHR ''-'' # show_nat n) = Some (- int n)"
    using assms(4) by (simp add: strtoll_def int_range_def)
  then have "scan_token l1 = ((lx_unget (lx_get l2))\<lparr>lx_value_integer := - int n\<rparr>, value_integer)"
    unfolding s scan_number_def Let_def c using l2(1)
    by (simp add: number_init_def number_done_def Let_def l2(3))
  moreover have "before ((lx_unget (lx_get l2))\<lparr>lx_value_integer := - int n\<rparr>) r"
    using before_unget_get [OF l2(2)] by (simp add: before_def lexer_ok_def)
  ultimately show ?thesis using l1(1) by simp
qed

end
