(* ===== verification/Json_Roundtrip.thy ===== *)
theory Json_Roundtrip
  imports Json_Tokens
begin

text \<open>
  Parsing what the serializer wrote gives the value back, for values without floating-point
  numbers, binary and discarded values whose strings are UTF-8. A signed integer that is not
  negative comes back as an unsigned one: the text does not tell them apart.
\<close>

section \<open>The text of a value\<close>

fun json_plain :: "json \<Rightarrow> bool" where
  "json_plain (JObject m) \<longleftrightarrow> map_wf m \<and> (\<forall>e \<in> set m. utf8_valid (fst e) \<and> json_plain (snd e))"
| "json_plain (JArray xs) \<longleftrightarrow> (\<forall>x \<in> set xs. json_plain x)"
| "json_plain (JString s) \<longleftrightarrow> utf8_valid s"
| "json_plain (JBoolean b) \<longleftrightarrow> True"
| "json_plain (JInteger n) \<longleftrightarrow> int64 n"
| "json_plain (JUnsigned n) \<longleftrightarrow> 0 \<le> n \<and> n < 2 ^ 64"
| "json_plain JNull \<longleftrightarrow> True"
| "json_plain j \<longleftrightarrow> False"

fun json_norm :: "json \<Rightarrow> json" where
  "json_norm (JObject m) = JObject (map (\<lambda>e. (fst e, json_norm (snd e))) m)"
| "json_norm (JArray xs) = JArray (map json_norm xs)"
| "json_norm (JInteger n) = (if n < 0 then JInteger n else JUnsigned n)"
| "json_norm j = j"

definition quoted :: "string \<Rightarrow> string" where
  "quoted s = [CHR 0x22] @ esc s @ [CHR 0x22]"

fun commas :: "string list \<Rightarrow> string" where
  "commas [] = []"
| "commas [x] = x"
| "commas (x # xs) = x @ '','' @ commas xs"

fun json_text :: "json \<Rightarrow> string" where
  "json_text (JObject m) = ''{'' @ commas (map (\<lambda>e. quoted (fst e) @ '':'' @ json_text (snd e)) m) @ ''}''"
| "json_text (JArray xs) = ''['' @ commas (map json_text xs) @ '']''"
| "json_text (JString s) = quoted s"
| "json_text (JBoolean b) = (if b then ''true'' else ''false'')"
| "json_text (JInteger n) = to_string n"
| "json_text (JUnsigned n) = to_string n"
| "json_text j = ''null''"

lemma commas_Cons: "commas (x # xs) = x @ concat (map (\<lambda>y. '','' @ y) xs)"
  by (induction xs arbitrary: x) simp_all

lemma dump_string_quoted: "utf8_valid s \<Longrightarrow> dump_string strict False s = Inr (quoted s)"
  using dump_escaped_strict [of s] by (simp add: dump_string_def quoted_def)

lemma join_dumps_commas: "join_dumps (map Inr xs) = Inr (commas xs)"
proof (induction xs rule: commas.induct)
  case (3 x y xs)
  then show ?case by simp
qed simp_all

lemma map_Inr: "(\<And>x. x \<in> set xs \<Longrightarrow> f x = Inr (g x)) \<Longrightarrow> map f xs = map Inr (map g xs)"
  by (induction xs) auto

lemma dump_text: "json_plain j \<Longrightarrow> serializer_dump fl strict False j = Inr (json_text j)"
proof (induction j)
  case (JObject m)
  let ?f = "\<lambda>e. sum_bind (dump_string strict False (fst e)) (\<lambda>k.
      sum_bind (serializer_dump fl strict False (snd e)) (\<lambda>v. Inr (k @ '':'' @ v)))"
  have "?f e = Inr (quoted (fst e) @ '':'' @ json_text (snd e))" if e: "e \<in> set m" for e
    using JObject.IH [OF e] JObject.prems e by (cases e) (auto simp: dump_string_quoted)
  then have "map ?f m = map Inr (map (\<lambda>e. quoted (fst e) @ '':'' @ json_text (snd e)) m)"
    by (rule map_Inr)
  then have "join_dumps (map ?f m) = Inr (commas (map (\<lambda>e. quoted (fst e) @ '':'' @ json_text (snd e)) m))"
    by (simp only: join_dumps_commas)
  then show ?case by simp
next
  case (JArray xs)
  have "serializer_dump fl strict False x = Inr (json_text x)" if "x \<in> set xs" for x
    using JArray that by simp
  then have "map (serializer_dump fl strict False) xs = map Inr (map json_text xs)"
    by (rule map_Inr)
  then have "join_dumps (map (serializer_dump fl strict False) xs) = Inr (commas (map json_text xs))"
    by (simp only: join_dumps_commas)
  then show ?case by simp
next
  case (JInteger n)
  then show ?case by (simp add: dump_integer_to_string int_range_def)
next
  case (JUnsigned n)
  then show ?case by (simp add: dump_integer_to_string)
qed (simp_all add: dump_string_quoted)

text \<open>The text holds no line end: it fits the line framing of the connections.\<close>

lemma hex_digit_not_nl: "d < 16 \<Longrightarrow> hex_digit d \<noteq> CHR 0x0A"
proof
  assume d: "d < 16" "hex_digit d = CHR 0x0A"
  then have "(of_char (hex_digit d) :: nat) = 10" by simp
  with d(1) show False by (simp add: hex_digit_def split: if_splits)
qed

lemma esc_byte_not_nl: "CHR 0x0A \<notin> set (esc_byte c)"
proof -
  have "c \<noteq> CHR 0x0A" if "(of_char c :: nat) \<noteq> 10"
    using that by auto
  then show ?thesis
    using hex_digit_not_nl [of _, THEN not_sym]
    by (auto simp: esc_byte_def escape_codepoint_def hex4_def)
qed

lemma esc_not_nl: "CHR 0x0A \<notin> set (esc s)"
  using esc_byte_not_nl by (induction s) auto

lemma to_string_not_nl [simp]: "CHR 0x0A \<notin> set (to_string n)"
  using to_string_chars [of "CHR 0x0A" n] by auto

lemma commas_not_nl: "(\<And>x. x \<in> set xs \<Longrightarrow> CHR 0x0A \<notin> set x) \<Longrightarrow> CHR 0x0A \<notin> set (commas xs)"
  by (induction xs rule: commas.induct) auto

lemma json_text_not_nl: "CHR 0x0A \<notin> set (json_text j)"
proof (induction j)
  case (JObject m)
  have "CHR 0x0A \<notin> set (quoted (fst e) @ '':'' @ json_text (snd e))" if "e \<in> set m" for e
    using JObject [OF that] esc_not_nl [of "fst e"] by (cases e) (auto simp: quoted_def)
  then have "CHR 0x0A \<notin> set (commas (map (\<lambda>e. quoted (fst e) @ '':'' @ json_text (snd e)) m))"
    by (intro commas_not_nl) auto
  then show ?case by simp
next
  case (JArray xs)
  then have "CHR 0x0A \<notin> set (commas (map json_text xs))" by (intro commas_not_nl) auto
  then show ?case by simp
qed (auto simp: quoted_def esc_not_nl)

section \<open>Parsing the text\<close>

text \<open>Two states of the parser that differ in the lexer and the last token only.\<close>

definition same_dom :: "pstate \<Rightarrow> pstate \<Rightarrow> bool" where
  "same_dom p q \<longleftrightarrow> ps_states p = ps_states q \<and> ps_root p = ps_root q \<and> ps_stack p = ps_stack q"

abbreviation reading :: "pstate \<Rightarrow> string \<Rightarrow> bool" where
  "reading p r \<equiv> before (ps_lexer p) r"

lemma same_dom_refl [simp]: "same_dom p p"
  by (simp add: same_dom_def)

lemma same_dom_handle: "same_dom p q \<Longrightarrow> same_dom (handle_value v p) (handle_value v q)"
  by (auto simp: same_dom_def handle_value_def split: list.splits frame.splits)

lemma get_token_scan:
  "scan (ps_lexer p) = (l, t) \<Longrightarrow> ps_lexer (get_token p) = l \<and> ps_last_token (get_token p) = t \<and> same_dom (get_token p) p"
  by (simp add: get_token_def same_dom_def)

lemma sax_value:
  "parse_value p = Inr (p', True) \<Longrightarrow> sax_loop False p = sax_loop True p'"
  by (subst (1 2) sax_loop.simps) simp

lemma sax_continue: "parse_value p = Inr (p', False) \<Longrightarrow> sax_loop False p = sax_loop False p'"
  by (subst sax_loop.simps) simp

lemma sax_next: "eval_state p = Inr (p', Some skip) \<Longrightarrow> sax_loop True p = sax_loop skip p'"
  by (subst sax_loop.simps) simp

lemma sax_end: "ps_states p = [] \<Longrightarrow> sax_loop True p = Inr p"
  by (subst sax_loop.simps) (simp add: eval_state_def)

text \<open>The parser reads the text of \<open>j\<close> and hands \<open>j\<close> to the handler.\<close>

definition reads_value :: "json \<Rightarrow> bool" where
  "reads_value j \<longleftrightarrow> (\<forall>p r. reading p (json_text j @ r) \<longrightarrow> follow r \<longrightarrow>
     ps_last_token (get_token p) \<noteq> end_array \<and>
     (\<exists>p'. sax_loop False (get_token p) = sax_loop True p' \<and>
       same_dom p' (handle_value (json_norm j) p) \<and> reading p' r))"

lemma reads_valueD:
  assumes "reads_value j" "reading p (json_text j @ r)" "follow r"
  shows "ps_last_token (get_token p) \<noteq> end_array"
    and "\<exists>p'. sax_loop False (get_token p) = sax_loop True p' \<and>
      same_dom p' (handle_value (json_norm j) p) \<and> reading p' r"
  using assms unfolding reads_value_def by blast+

lemma reads_scalar:
  assumes scan: "\<And>l r. before l (json_text j @ r) \<Longrightarrow> follow r \<Longrightarrow>
      \<exists>l'. scan l = (l', t) \<and> before l' r \<and> P l'"
    and val: "\<And>p. ps_last_token p = t \<Longrightarrow> P (ps_lexer p) \<Longrightarrow>
      parse_value p = Inr (handle_value (json_norm j) p, True)"
    and tok: "t \<noteq> end_array"
  shows "reads_value j"
  unfolding reads_value_def
proof (intro allI impI)
  fix p r assume "reading p (json_text j @ r)" "follow r"
  from scan [OF this] obtain l where l: "scan (ps_lexer p) = (l, t)" "before l r" "P l"
    by blast
  note g = get_token_scan [OF l(1)]
  with l(3) val have "parse_value (get_token p) = Inr (handle_value (json_norm j) (get_token p), True)"
    by blast
  with g l(2) tok show "ps_last_token (get_token p) \<noteq> end_array \<and>
      (\<exists>p'. sax_loop False (get_token p) = sax_loop True p' \<and>
        same_dom p' (handle_value (json_norm j) p) \<and> reading p' r)"
    using sax_value same_dom_handle by (intro conjI exI [of _ "handle_value (json_norm j) (get_token p)"]) auto
qed

lemma reads_string: "utf8_valid s \<Longrightarrow> reads_value (JString s)"
  using scan_str [of _ s]
  by (intro reads_scalar [where t = value_string and P = "\<lambda>l. lx_token_buffer l = s"])
    (simp_all add: quoted_def parse_value_def)

lemma reads_boolean: "reads_value (JBoolean b)"
proof (cases b)
  case True
  then show ?thesis
    using scan_true
    by (intro reads_scalar [where t = literal_true and P = "\<lambda>l. True"]) (simp_all add: parse_value_def)
next
  case False
  then show ?thesis
    using scan_false
    by (intro reads_scalar [where t = literal_false and P = "\<lambda>l. True"]) (simp_all add: parse_value_def)
qed

lemma reads_null: "reads_value JNull"
  using scan_null
  by (intro reads_scalar [where t = literal_null and P = "\<lambda>l. True"]) (simp_all add: parse_value_def)

lemma reads_unsigned: "0 \<le> n \<Longrightarrow> n < 2 ^ 64 \<Longrightarrow> reads_value (JUnsigned n)"
  using scan_unsigned [of _ "nat n"]
  by (intro reads_scalar [where t = value_unsigned and P = "\<lambda>l. lx_value_unsigned l = n"])
    (simp_all add: parse_value_def to_string_def nat_less_iff)

lemma reads_integer: "int64 n \<Longrightarrow> reads_value (JInteger n)"
proof (cases "n < 0")
  case False
  assume "int64 n"
  with False reads_unsigned [of n] show ?thesis
    by (simp add: reads_value_def int_range_def)
next
  case True
  assume "int64 n"
  then have "nat (- n) \<le> 2 ^ 63" by (simp add: int_range_def nat_le_iff)
  with True scan_negative [of _ "nat (- n)"] show ?thesis
    by (intro reads_scalar [where t = value_integer and P = "\<lambda>l. lx_value_integer l = n"])
      (simp_all add: parse_value_def to_string_def)
qed

section \<open>Arrays\<close>

lemma token_punct:
  assumes "reading p (c # r)"
    and "(c, t) \<in> {(CHR ''['', begin_array), (CHR '']'', end_array), (CHR ''{'', begin_object),
      (CHR ''}'', end_object), (CHR '':'', name_separator), (CHR '','', value_separator)}"
  shows "reading (get_token p) r \<and> ps_last_token (get_token p) = t \<and> same_dom (get_token p) p"
  using scan_punct [OF assms] get_token_scan [of p] by auto

lemma get_token_states: "get_token (p\<lparr>ps_states := sts\<rparr>) = (get_token p)\<lparr>ps_states := sts\<rparr>"
  by (simp add: get_token_def split: prod.split)

lemma handle_value_frame:
  "ps_stack (handle_value v p) = (case ps_stack p of [] \<Rightarrow> []
     | Arr_frame xs # fs \<Rightarrow> Arr_frame (xs @ [v]) # fs
     | Obj_frame m k # fs \<Rightarrow> Obj_frame (map_assign k v m) k # fs)"
  "ps_states (handle_value v p) = ps_states p"
  by (auto simp: handle_value_def split: list.splits frame.splits)

text \<open>Closing a container hands it to its parent.\<close>

fun frame_value :: "frame \<Rightarrow> json" where
  "frame_value (Arr_frame xs) = JArray xs"
| "frame_value (Obj_frame m k) = JObject m"

lemma same_dom_close:
  assumes "same_dom q p" "ps_stack p = f # fs"
  shows "same_dom ((end_container q)\<lparr>ps_states := sts\<rparr>)
    (handle_value (frame_value f) (p\<lparr>ps_states := sts, ps_stack := fs\<rparr>))"
  using assms
  by (cases f) (auto simp: same_dom_def end_container_def handle_value_def split: list.splits frame.splits)

lemma array_rest:
  assumes "\<And>y. y \<in> set ys \<Longrightarrow> reads_value y"
    and "reading p (concat (map (\<lambda>y. '','' @ json_text y) ys) @ '']'' @ r)"
    and "ps_states p = True # sts" "ps_stack p = Arr_frame xs # fs"
  shows "\<exists>p'. sax_loop True p = sax_loop True p' \<and> reading p' r \<and>
    same_dom p' (handle_value (JArray (xs @ map json_norm ys)) (p\<lparr>ps_states := sts, ps_stack := fs\<rparr>))"
  using assms
proof (induction ys arbitrary: p xs)
  case Nil
  note t = token_punct [of p "CHR '']''" r end_array, OF Nil.prems(2) [simplified], simplified]
  let ?p = "(end_container (get_token p))\<lparr>ps_states := sts\<rparr>"
  have "eval_state p = Inr (?p, Some True)" using t Nil.prems(3) by (simp add: eval_state_def)
  moreover have "reading ?p r" using t by simp
  moreover have "same_dom ?p (handle_value (JArray xs) (p\<lparr>ps_states := sts, ps_stack := fs\<rparr>))"
    using t same_dom_close [of "get_token p" p "Arr_frame xs" fs sts] Nil.prems(4) by simp
  ultimately show ?case using sax_next [of p ?p True] by auto
next
  case (Cons y ys)
  let ?rest = "concat (map (\<lambda>y. '','' @ json_text y) ys) @ '']'' @ r" and ?q = "get_token p"
  have q: "reading ?q (json_text y @ ?rest)" "ps_last_token ?q = value_separator" "same_dom ?q p"
    using token_punct [of p "CHR '',''" "json_text y @ ?rest" value_separator] Cons.prems(2) by auto
  have "eval_state p = Inr (get_token ?q, Some False)"
    using q(2) Cons.prems(3) by (simp add: eval_state_def)
  then have n: "sax_loop True p = sax_loop False (get_token ?q)" by (rule sax_next)
  have "follow ?rest" by (cases ys) (simp_all add: follow_def)
  then obtain p1 where p1: "sax_loop False (get_token ?q) = sax_loop True p1"
    "same_dom p1 (handle_value (json_norm y) ?q)" "reading p1 ?rest"
    using reads_valueD(2) [OF Cons.prems(1) q(1)] by auto
  have d: "ps_states p1 = True # sts" "ps_stack p1 = Arr_frame (xs @ [json_norm y]) # fs"
    "ps_root p1 = ps_root p"
    using p1(2) q(3) Cons.prems(3,4) by (simp_all add: same_dom_def handle_value_def)
  obtain p' where p': "sax_loop True p1 = sax_loop True p'" "reading p' r"
    "same_dom p' (handle_value (JArray ((xs @ [json_norm y]) @ map json_norm ys))
       (p1\<lparr>ps_states := sts, ps_stack := fs\<rparr>))"
    using Cons.IH [of p1 "xs @ [json_norm y]"] Cons.prems(1) p1(3) d by auto
  moreover have "same_dom (handle_value v (p1\<lparr>ps_states := sts, ps_stack := fs\<rparr>))
      (handle_value v (p\<lparr>ps_states := sts, ps_stack := fs\<rparr>))" for v
    using d(3) by (intro same_dom_handle) (simp add: same_dom_def)
  ultimately show ?case
    using n p1(1) by (intro exI [of _ p']) (auto simp: same_dom_def)
qed

text \<open>A list with a first element; \<open>q\<close> is the parser that has seen the bracket.\<close>

lemma array_first:
  assumes "ps_last_token q = begin_array"
    and s: "reading (start_array q) (json_text x @ concat (map (\<lambda>y. '','' @ json_text y) ys) @ '']'' @ r)"
      "ps_stack (start_array q) = Arr_frame [] # ps_stack p" "ps_states (start_array q) = ps_states p"
      "ps_root (start_array q) = ps_root p"
    and "\<And>y. y \<in> set (x # ys) \<Longrightarrow> reads_value y"
  shows "\<exists>p'. sax_loop False q = sax_loop True p' \<and>
    same_dom p' (handle_value (json_norm (JArray (x # ys))) p) \<and> reading p' r"
proof -
  let ?s = "start_array q"
  let ?rest = "concat (map (\<lambda>y. '','' @ json_text y) ys) @ '']'' @ r"
  let ?u = "?s\<lparr>ps_states := True # ps_states ?s\<rparr>"
  have f: "follow ?rest" by (cases ys) (simp_all add: follow_def)
  have x: "reads_value x" "reading ?u (json_text x @ ?rest)"
    using assms(6) s(1) by simp_all
  obtain p1 where p1: "sax_loop False (get_token ?u) = sax_loop True p1"
    "same_dom p1 (handle_value (json_norm x) ?u)" "reading p1 ?rest"
    using reads_valueD(2) [OF x f] by auto
  have "ps_last_token (get_token ?s) \<noteq> end_array"
    using reads_valueD(1) [OF x f] by (simp add: get_token_states)
  then have "parse_value q = Inr (get_token ?u, False)"
    using assms(1) by (simp add: parse_value_def Let_def get_token_states) (simp add: get_token_def split: prod.split)
  then have n: "sax_loop False q = sax_loop True p1" using sax_continue p1(1) by simp
  have d: "ps_states p1 = True # ps_states p" "ps_stack p1 = Arr_frame [json_norm x] # ps_stack p"
    "ps_root p1 = ps_root p"
    using p1(2) s by (simp_all add: same_dom_def handle_value_def)
  obtain p' where p': "sax_loop True p1 = sax_loop True p'" "reading p' r"
    "same_dom p' (handle_value (JArray ([json_norm x] @ map json_norm ys))
       (p1\<lparr>ps_states := ps_states p, ps_stack := ps_stack p\<rparr>))"
    using array_rest [OF _ p1(3) d(1,2)] assms(6) by auto
  moreover have "same_dom (handle_value v (p1\<lparr>ps_states := ps_states p, ps_stack := ps_stack p\<rparr>))
      (handle_value v p)" for v
    using d(3) by (intro same_dom_handle) (simp add: same_dom_def)
  ultimately show ?thesis
    using n by (intro exI [of _ p']) (auto simp: same_dom_def)
qed

lemma reads_array:
  assumes "\<And>x. x \<in> set xs \<Longrightarrow> reads_value x"
  shows "reads_value (JArray xs)"
  unfolding reads_value_def
proof (intro allI impI)
  fix p r assume a: "reading p (json_text (JArray xs) @ r)" "follow r"
  let ?q = "get_token p" and ?body = "commas (map json_text xs) @ '']'' @ r"
  have q: "reading ?q ?body" "ps_last_token ?q = begin_array" "same_dom ?q p"
    using token_punct [of p "CHR ''[''" ?body begin_array] a(1) by auto
  let ?s = "start_array ?q"
  have s: "reading ?s ?body" "ps_stack ?s = Arr_frame [] # ps_stack p" "ps_states ?s = ps_states p"
    "ps_root ?s = ps_root p"
    using q by (auto simp: start_array_def same_dom_def)
  have "\<exists>p'. sax_loop False ?q = sax_loop True p' \<and>
      same_dom p' (handle_value (json_norm (JArray xs)) p) \<and> reading p' r"
  proof (cases xs)
    case Nil
    note t = token_punct [of ?s "CHR '']''" r end_array]
    let ?p = "end_container (get_token ?s)"
    have "parse_value ?q = Inr (?p, True)"
      using q(2) t s(1) Nil by (simp add: parse_value_def Let_def)
    moreover have "same_dom ?p (handle_value (JArray []) p)"
      using t s Nil by (auto simp: same_dom_def end_container_def handle_value_def split: list.splits frame.splits)
    moreover have "reading ?p r" using t s(1) Nil by simp
    ultimately show ?thesis using sax_value [of ?q ?p] Nil by auto
  next
    case (Cons x ys)
    then have "?body = json_text x @ concat (map (\<lambda>y. '','' @ json_text y) ys) @ '']'' @ r"
      by (simp add: commas_Cons comp_def)
    from array_first [OF q(2) s(1) [unfolded this] s(2-4)] assms Cons show ?thesis by simp
  qed
  with q(2) show "ps_last_token ?q \<noteq> end_array \<and> (\<exists>p'. sax_loop False ?q = sax_loop True p' \<and>
      same_dom p' (handle_value (json_norm (JArray xs)) p) \<and> reading p' r)"
    by simp
qed

section \<open>Objects\<close>

lemma map_assign_twice: "map_assign k v (map_assign k w m) = map_assign k v m"
  by (induction m) auto

lemma map_assign_last:
  "(\<And>x. x \<in> set m \<Longrightarrow> fst x < k) \<Longrightarrow> map_assign k v m = m @ [(k, v)]"
  by (induction m) auto

text \<open>The members of an object, in order, put into the map one after the other.\<close>

definition assign_members :: "(string \<times> json) list \<Rightarrow> (string \<times> json) list \<Rightarrow> (string \<times> json) list" where
  "assign_members m es = foldl (\<lambda>m e. map_assign (fst e) (json_norm (snd e)) m) m es"

lemma assign_members_simps [simp]:
  "assign_members m [] = m"
  "assign_members m (e # es) = assign_members (map_assign (fst e) (json_norm (snd e)) m) es"
  by (simp_all add: assign_members_def)

lemma assign_members_sorted:
  "map_wf (m @ es) \<Longrightarrow> assign_members m es = m @ map (\<lambda>e. (fst e, json_norm (snd e))) es"
proof (induction es arbitrary: m)
  case (Cons e es)
  have "map_assign (fst e) (json_norm (snd e)) m = m @ [(fst e, json_norm (snd e))]"
    using Cons.prems by (intro map_assign_last) (auto simp: map_wf_append)
  moreover have "map_wf ((m @ [(fst e, json_norm (snd e))]) @ es)"
    using Cons.prems by (auto simp: map_wf_append)
  ultimately show ?case using Cons.IH by simp
qed simp

definition member_text :: "string \<times> json \<Rightarrow> string" where
  "member_text e = quoted (fst e) @ '':'' @ json_text (snd e)"

text \<open>A member: its key, the colon, and its value put into the frame.\<close>

lemma parse_key_reads:
  assumes "reading q (quoted k @ '':'' @ r)" "utf8_valid k"
  shows "\<exists>q'. parse_key (get_token q) = Inr q' \<and> reading q' r \<and> same_dom q' (sax_key k q) \<and>
    ps_last_token (get_token q) = value_string"
proof -
  obtain l where l: "scan (ps_lexer q) = (l, value_string)" "before l ('':'' @ r)" "lx_token_buffer l = k"
    using scan_str [of "ps_lexer q" k "'':'' @ r"] assms by (auto simp: quoted_def)
  note g = get_token_scan [OF l(1)]
  let ?s = "sax_key k (get_token q)"
  have "reading ?s (CHR '':'' # r)" using g l(2) by simp
  then have t: "reading (get_token ?s) r" "ps_last_token (get_token ?s) = name_separator"
    "same_dom (get_token ?s) ?s"
    using token_punct [of ?s "CHR '':''" r name_separator] by auto
  have "parse_key (get_token q) = Inr (get_token ?s)"
    using g l(3) t(2) by (simp add: parse_key_def)
  moreover have "same_dom ?s (sax_key k q)"
    using g by (auto simp: same_dom_def sax_key_def split: list.splits frame.splits)
  ultimately show ?thesis using t g by (auto simp: same_dom_def)
qed

lemma member_reads:
  assumes "reading q (member_text (k, v) @ r)" "utf8_valid k" "reads_value v" "follow r"
    and "ps_stack q = Obj_frame m k0 # fs"
  shows "\<exists>q'. parse_key (get_token q) = Inr q' \<and> ps_last_token (get_token q) = value_string \<and>
    ps_states q' = ps_states q \<and>
    (\<forall>sts. \<exists>p1. sax_loop False (get_token (q'\<lparr>ps_states := sts\<rparr>)) = sax_loop True p1 \<and> reading p1 r \<and>
      ps_states p1 = sts \<and> ps_root p1 = ps_root q \<and>
      ps_stack p1 = Obj_frame (map_assign k (json_norm v) m) k # fs)"
proof -
  have "reading q (quoted k @ '':'' @ json_text v @ r)" using assms(1) by (simp add: member_text_def)
  then obtain q' where q': "parse_key (get_token q) = Inr q'" "reading q' (json_text v @ r)"
    "same_dom q' (sax_key k q)" "ps_last_token (get_token q) = value_string"
    using parse_key_reads [OF _ assms(2)] by auto
  have "\<exists>p1. sax_loop False (get_token (q'\<lparr>ps_states := sts\<rparr>)) = sax_loop True p1 \<and> reading p1 r \<and>
      ps_states p1 = sts \<and> ps_root p1 = ps_root q \<and>
      ps_stack p1 = Obj_frame (map_assign k (json_norm v) m) k # fs" for sts
  proof -
    let ?u = "q'\<lparr>ps_states := sts\<rparr>"
    have "reading ?u (json_text v @ r)" using q'(2) by simp
    from reads_valueD(2) [OF assms(3) this assms(4)] obtain p1 where
      p1: "sax_loop False (get_token ?u) = sax_loop True p1" "same_dom p1 (handle_value (json_norm v) ?u)"
        "reading p1 r" by blast
    have "ps_stack ?u = Obj_frame (if map_of m k = None then map_assign k JNull m else m) k # fs"
      "ps_root ?u = ps_root q"
      using q'(3) assms(5) by (simp_all add: same_dom_def sax_key_def)
    with p1 show ?thesis
      by (intro exI [of _ p1]) (auto simp: same_dom_def handle_value_def map_assign_twice)
  qed
  moreover have "ps_states q' = ps_states q"
    using q'(3) assms(5) by (simp add: same_dom_def sax_key_def)
  ultimately show ?thesis using q'(1,4) by blast
qed

lemma object_rest:
  assumes "\<And>e. e \<in> set es \<Longrightarrow> utf8_valid (fst e) \<and> reads_value (snd e)"
    and "reading p (concat (map (\<lambda>e. '','' @ member_text e) es) @ ''}'' @ r)"
    and "ps_states p = False # sts" "ps_stack p = Obj_frame m k # fs"
  shows "\<exists>p'. sax_loop True p = sax_loop True p' \<and> reading p' r \<and>
    same_dom p' (handle_value (JObject (assign_members m es)) (p\<lparr>ps_states := sts, ps_stack := fs\<rparr>))"
  using assms
proof (induction es arbitrary: p m k)
  case Nil
  note t = token_punct [of p "CHR ''}''" r end_object, OF Nil.prems(2) [simplified], simplified]
  let ?p = "(end_container (get_token p))\<lparr>ps_states := sts\<rparr>"
  have "eval_state p = Inr (?p, Some True)" using t Nil.prems(3) by (simp add: eval_state_def)
  moreover have "reading ?p r" using t by simp
  moreover have "same_dom ?p (handle_value (JObject m) (p\<lparr>ps_states := sts, ps_stack := fs\<rparr>))"
    using t same_dom_close [of "get_token p" p "Obj_frame m k" fs sts] Nil.prems(4) by simp
  ultimately show ?case using sax_next [of p ?p True] by auto
next
  case (Cons e es)
  obtain k1 v1 where e: "e = (k1, v1)" by force
  let ?rest = "concat (map (\<lambda>e. '','' @ member_text e) es) @ ''}'' @ r" and ?q = "get_token p"
  have q: "reading ?q (member_text (k1, v1) @ ?rest)" "ps_last_token ?q = value_separator" "same_dom ?q p"
    using token_punct [of p "CHR '',''" "member_text e @ ?rest" value_separator] Cons.prems(2) e by auto
  have st: "ps_stack ?q = Obj_frame m k # fs" "ps_states ?q = False # sts" "ps_root ?q = ps_root p"
    using q(3) Cons.prems(3,4) by (simp_all add: same_dom_def)
  have f: "follow ?rest" by (cases es) (simp_all add: follow_def)
  have v: "utf8_valid k1" "reads_value v1" using Cons.prems(1) [of e] e by simp_all
  obtain q' where q': "parse_key (get_token ?q) = Inr q'" "ps_states q' = False # sts"
    and all: "\<And>sts'. \<exists>p1. sax_loop False (get_token (q'\<lparr>ps_states := sts'\<rparr>)) = sax_loop True p1 \<and>
      reading p1 ?rest \<and> ps_states p1 = sts' \<and> ps_root p1 = ps_root p \<and>
      ps_stack p1 = Obj_frame (map_assign k1 (json_norm v1) m) k1 # fs"
    using member_reads [OF q(1) v f st(1)] unfolding st(2,3) by blast
  have "eval_state p = Inr (get_token q', Some False)"
    using q(2) q'(1) Cons.prems(3) by (simp add: eval_state_def)
  then have n: "sax_loop True p = sax_loop False (get_token q')" by (rule sax_next)
  have "q'\<lparr>ps_states := False # sts\<rparr> = q'" using q'(2) by simp
  with all [of "False # sts"] obtain p1 where p1: "sax_loop False (get_token q') = sax_loop True p1"
    "reading p1 ?rest" "ps_states p1 = False # sts" "ps_root p1 = ps_root p"
    "ps_stack p1 = Obj_frame (map_assign k1 (json_norm v1) m) k1 # fs" by metis
  obtain p' where p': "sax_loop True p1 = sax_loop True p'" "reading p' r"
    "same_dom p' (handle_value (JObject (assign_members (map_assign k1 (json_norm v1) m) es))
       (p1\<lparr>ps_states := sts, ps_stack := fs\<rparr>))"
    using Cons.IH [OF _ p1(2,3,5)] Cons.prems(1) by auto
  moreover have "same_dom (handle_value v (p1\<lparr>ps_states := sts, ps_stack := fs\<rparr>))
      (handle_value v (p\<lparr>ps_states := sts, ps_stack := fs\<rparr>))" for v
    using p1(4) by (intro same_dom_handle) (simp add: same_dom_def)
  ultimately show ?case
    using n p1(1) e by (intro exI [of _ p']) (auto simp: same_dom_def)
qed

lemma json_text_object: "json_text (JObject m) = ''{'' @ commas (map member_text m) @ ''}''"
  by (simp add: member_text_def [abs_def])

text \<open>An object with a first member.\<close>

lemma object_first:
  assumes "ps_last_token q = begin_object"
    and s: "reading (start_object q) (member_text e @ concat (map (\<lambda>e. '','' @ member_text e) es) @ ''}'' @ r)"
      "ps_stack (start_object q) = Obj_frame [] [] # ps_stack p" "ps_states (start_object q) = ps_states p"
      "ps_root (start_object q) = ps_root p"
    and "map_wf (e # es)" "\<And>x. x \<in> set (e # es) \<Longrightarrow> utf8_valid (fst x) \<and> reads_value (snd x)"
  shows "\<exists>p'. sax_loop False q = sax_loop True p' \<and>
    same_dom p' (handle_value (json_norm (JObject (e # es))) p) \<and> reading p' r"
proof -
  let ?s = "start_object q"
  obtain k v where e: "e = (k, v)" by force
  let ?rest = "concat (map (\<lambda>e. '','' @ member_text e) es) @ ''}'' @ r"
  have f: "follow ?rest" by (cases es) (simp_all add: follow_def)
  have kv: "utf8_valid k" "reads_value v" using assms(7) [of e] e by simp_all
  obtain q' where q': "parse_key (get_token ?s) = Inr q'" "ps_last_token (get_token ?s) = value_string"
    "ps_states q' = ps_states p"
    and all: "\<And>sts'. \<exists>p1. sax_loop False (get_token (q'\<lparr>ps_states := sts'\<rparr>)) = sax_loop True p1 \<and>
      reading p1 ?rest \<and> ps_states p1 = sts' \<and> ps_root p1 = ps_root p \<and>
      ps_stack p1 = Obj_frame (map_assign k (json_norm v) []) k # ps_stack p"
    using member_reads [OF s(1) [unfolded e] kv f s(2)] unfolding s(3,4) by blast
  have "parse_value q = Inr (get_token (q'\<lparr>ps_states := False # ps_states q'\<rparr>), False)"
    using assms(1) q'(1,2) by (simp add: parse_value_def Let_def)
  then have n: "sax_loop False q = sax_loop False (get_token (q'\<lparr>ps_states := False # ps_states p\<rparr>))"
    using sax_continue q'(3) by simp
  obtain p1 where p1: "sax_loop False (get_token (q'\<lparr>ps_states := False # ps_states p\<rparr>)) = sax_loop True p1"
    "reading p1 ?rest" "ps_states p1 = False # ps_states p" "ps_root p1 = ps_root p"
    "ps_stack p1 = Obj_frame (map_assign k (json_norm v) []) k # ps_stack p"
    using all [of "False # ps_states p"] by blast
  have "\<And>x. x \<in> set es \<Longrightarrow> utf8_valid (fst x) \<and> reads_value (snd x)" using assms(7) by simp
  from object_rest [OF this p1(2,3,5)] obtain p' where
    p': "sax_loop True p1 = sax_loop True p'" "reading p' r"
    "same_dom p' (handle_value (JObject (assign_members (map_assign k (json_norm v) []) es))
       (p1\<lparr>ps_states := ps_states p, ps_stack := ps_stack p\<rparr>))"
    by auto
  have "assign_members [] (e # es) = map (\<lambda>e. (fst e, json_norm (snd e))) (e # es)"
    using assign_members_sorted [of "[]" "e # es"] assms(6) by simp
  then have mem: "JObject (assign_members (map_assign k (json_norm v) []) es) = json_norm (JObject (e # es))"
    by (simp add: e)
  have "same_dom (handle_value w (p1\<lparr>ps_states := ps_states p, ps_stack := ps_stack p\<rparr>))
      (handle_value w p)" for w
    using p1(4) by (intro same_dom_handle) (simp add: same_dom_def)
  with n p1(1) p' show ?thesis
    unfolding mem by (intro exI [of _ p']) (auto simp: same_dom_def)
qed

lemma reads_object:
  assumes "map_wf m" "\<And>e. e \<in> set m \<Longrightarrow> utf8_valid (fst e) \<and> reads_value (snd e)"
  shows "reads_value (JObject m)"
  unfolding reads_value_def
proof (intro allI impI)
  fix p r assume a: "reading p (json_text (JObject m) @ r)" "follow r"
  let ?q = "get_token p" and ?body = "commas (map member_text m) @ ''}'' @ r"
  have q: "reading ?q ?body" "ps_last_token ?q = begin_object" "same_dom ?q p"
    using token_punct [of p "CHR ''{''" ?body begin_object] a(1) unfolding json_text_object by auto
  let ?s = "start_object ?q"
  have s: "reading ?s ?body" "ps_stack ?s = Obj_frame [] [] # ps_stack p" "ps_states ?s = ps_states p"
    "ps_root ?s = ps_root p"
    using q by (auto simp: start_object_def same_dom_def)
  have "\<exists>p'. sax_loop False ?q = sax_loop True p' \<and>
      same_dom p' (handle_value (json_norm (JObject m)) p) \<and> reading p' r"
  proof (cases m)
    case Nil
    note t = token_punct [of ?s "CHR ''}''" r end_object]
    let ?p = "end_container (get_token ?s)"
    have "parse_value ?q = Inr (?p, True)"
      using q(2) t s(1) Nil by (simp add: parse_value_def Let_def)
    moreover have "same_dom ?p (handle_value (JObject []) p)"
      using t s Nil by (auto simp: same_dom_def end_container_def handle_value_def split: list.splits frame.splits)
    moreover have "reading ?p r" using t s(1) Nil by simp
    ultimately show ?thesis using sax_value [of ?q ?p] Nil by auto
  next
    case (Cons e es)
    then have "?body = member_text e @ concat (map (\<lambda>e. '','' @ member_text e) es) @ ''}'' @ r"
      by (simp add: commas_Cons comp_def)
    from object_first [OF q(2) s(1) [unfolded this] s(2-4)] assms Cons show ?thesis by simp
  qed
  with q(2) show "ps_last_token ?q \<noteq> end_array \<and> (\<exists>p'. sax_loop False ?q = sax_loop True p' \<and>
      same_dom p' (handle_value (json_norm (JObject m)) p) \<and> reading p' r)"
    by simp
qed

lemma reads_plain: "json_plain j \<Longrightarrow> reads_value j"
proof (induction j)
  case (JObject m)
  have "utf8_valid (fst e) \<and> reads_value (snd e)" if "e \<in> set m" for e
    using JObject.IH [OF that] JObject.prems that by (cases e) auto
  with JObject.prems show ?case by (intro reads_object) simp_all
next
  case (JArray xs)
  then show ?case by (intro reads_array) auto
qed (simp_all add: reads_null reads_string reads_boolean reads_integer reads_unsigned)

lemma parse_text:
  assumes "json_plain j"
  shows "json_parse (json_text j) = Inr (json_norm j)"
proof -
  let ?p0 = "\<lparr>ps_lexer = lexer_ctor (json_text j) False, ps_last_token = uninitialized,
     ps_states = [], ps_root = JNull, ps_stack = []\<rparr>"
  have "reading ?p0 (json_text j @ [])" by simp
  from reads_valueD(2) [OF reads_plain [OF assms] this] obtain p where
    p: "sax_loop False (get_token ?p0) = sax_loop True p" "same_dom p (handle_value (json_norm j) ?p0)"
      "reading p []" by (auto simp: follow_def)
  have d: "ps_states p = []" "ps_root p = json_norm j"
    using p(2) by (simp_all add: same_dom_def handle_value_def)
  have t: "ps_last_token (get_token p) = end_of_input" "ps_root (get_token p) = json_norm j"
    using scan_eof [OF p(3)] d(2) by (simp_all add: get_token_def case_prod_beta)
  show ?thesis
    unfolding json_parse_def parser_ctor_def p(1) sax_end [OF d(1)] by (simp add: t)
qed

section \<open>Properties\<close>

text \<open>C14: what \<^verbatim>\<open>json::dump\<close> writes, \<^verbatim>\<open>json::parse\<close> reads back. For every value built of null,
  Booleans, 64-bit integers, UTF-8 strings, arrays and objects, the dump does not throw, holds
  no line end, and parses to the same value, with the integers that are not negative as
  unsigned integers.\<close>

theorem json_roundtrip:
  assumes "json_plain j"
  shows "\<exists>s. json_dump fl j = Inr s \<and> CHR 0x0A \<notin> set s \<and> json_parse s = Inr (json_norm j)"
  using dump_text [OF assms] parse_text [OF assms] json_text_not_nl [of j]
  by (simp add: json_dump_def)

theorem json_roundtrip_witness:
  "\<exists>s. json_dump (\<lambda>_. []) (JObject [(''a'', JArray [JInteger (-5), JInteger 7, JNull]),
       (''b'', JString [CHR 0x22, CHR 0x0A, CHR 0xC3, CHR 0xA9])]) = Inr s \<and> CHR 0x0A \<notin> set s \<and>
     json_parse s = Inr (JObject [(''a'', JArray [JInteger (-5), JUnsigned 7, JNull]),
       (''b'', JString [CHR 0x22, CHR 0x0A, CHR 0xC3, CHR 0xA9])])"
proof -
  let ?j = "JObject [(''a'', JArray [JInteger (-5), JInteger 7, JNull]),
       (''b'', JString [CHR 0x22, CHR 0x0A, CHR 0xC3, CHR 0xA9])]"
  have "json_plain ?j" by code_simp
  from json_roundtrip [OF this, of "\<lambda>_. []"] show ?thesis by simp
qed

end
