(* ===== verification/Json_Safety.thy ===== *)
theory Json_Safety
  imports Json_Roundtrip
begin

text \<open>
  What the library guarantees of any input: a parsed value has UTF-8 strings, its objects are
  ordered maps and its integers fit their 64 bits; and the serializer fails exactly on a string
  that is not UTF-8. So whatever the parser read can be written again.
\<close>

section \<open>UTF-8 values\<close>

fun json_utf8 :: "json \<Rightarrow> bool" where
  "json_utf8 (JObject m) \<longleftrightarrow> (\<forall>e \<in> set m. utf8_valid (fst e) \<and> json_utf8 (snd e))"
| "json_utf8 (JArray xs) \<longleftrightarrow> (\<forall>x \<in> set xs. json_utf8 x)"
| "json_utf8 (JString s) \<longleftrightarrow> utf8_valid s"
| "json_utf8 j \<longleftrightarrow> True"

text \<open>A computation that returns when \<open>b\<close> holds and throws the error 316 otherwise.\<close>

definition is_utf8_error :: "std_exn \<Rightarrow> bool" where
  "is_utf8_error e \<longleftrightarrow> (\<exists>w. e = type_error 316 w)"

definition throws_unless :: "bool \<Rightarrow> std_exn + 'a \<Rightarrow> bool" where
  "throws_unless b r \<longleftrightarrow> (case r of Inr _ \<Rightarrow> b | Inl e \<Rightarrow> \<not> b \<and> is_utf8_error e)"

lemma throws_Inr [simp]: "throws_unless b (Inr a) \<longleftrightarrow> b"
  by (simp add: throws_unless_def)

lemma throws_bind:
  "throws_unless b r \<Longrightarrow> (\<And>a. throws_unless b' (f a)) \<Longrightarrow> throws_unless (b \<and> b') (sum_bind r f)"
  by (cases r) (simp_all add: throws_unless_def)

lemma throws_bind_Inr: "throws_unless b r \<Longrightarrow> throws_unless b (sum_bind r (\<lambda>a. Inr (f a)))"
  by (cases r) (simp_all add: throws_unless_def)

lemma dump_string_throws: "throws_unless (utf8_valid s) (dump_string strict False s)"
  using dump_escaped_strict [of s] unfolding dump_string_def
  by (intro throws_bind_Inr) (auto simp: throws_unless_def is_utf8_error_def split: if_splits)

lemma join_dumps_throws:
  "(\<And>x. x \<in> set xs \<Longrightarrow> throws_unless (P x) (f x)) \<Longrightarrow>
   throws_unless (\<forall>x \<in> set xs. P x) (join_dumps (map f xs))"
proof (induction xs rule: induct_list012)
  case (3 x y zs)
  have "throws_unless (P x \<and> (\<forall>z \<in> set (y # zs). P z))
      (sum_bind (f x) (\<lambda>s. sum_bind (join_dumps (map f (y # zs))) (\<lambda>t. Inr (s @ '','' @ t))))"
    by (intro throws_bind throws_bind_Inr "3.IH"(2)) (simp_all add: "3.prems")
  then show ?case by simp
qed simp_all

lemma serializer_throws: "throws_unless (json_utf8 j) (serializer_dump fl strict False j)"
proof (induction j)
  case (JObject m)
  let ?f = "\<lambda>e. sum_bind (dump_string strict False (fst e)) (\<lambda>k.
      sum_bind (serializer_dump fl strict False (snd e)) (\<lambda>v. Inr (k @ '':'' @ v)))"
  have "throws_unless (\<forall>e \<in> set m. utf8_valid (fst e) \<and> json_utf8 (snd e)) (join_dumps (map ?f m))"
    using JObject.IH
    by (intro join_dumps_throws throws_bind throws_bind_Inr dump_string_throws)
      (auto simp: snds.simps)
  then show ?case by (auto intro: throws_bind_Inr)
next
  case (JArray xs)
  then show ?case by (auto intro!: throws_bind_Inr join_dumps_throws)
qed (simp_all add: dump_string_throws)

section \<open>The bytes of a code point\<close>

lemma utf8_run_append: "utf8_run rs s \<Longrightarrow> utf8_run rs (s @ t) = utf8_run [] t"
  by (induction rs s rule: utf8_run.induct) (auto split: option.splits)

lemma utf8_valid_append: "utf8_valid s \<Longrightarrow> utf8_valid t \<Longrightarrow> utf8_valid (s @ t)"
  by (simp add: utf8_valid_def utf8_run_append)

lemma utf8_valid_Nil [simp]: "utf8_valid []"
  by (simp add: utf8_valid_def)

lemma of_char_char_of_int: "0 \<le> k \<Longrightarrow> k < 256 \<Longrightarrow> (of_char (char_of (k::int)) :: nat) = nat k"
proof -
  assume k: "0 \<le> k" "k < 256"
  have "int (of_char (char_of k)) = (of_char (char_of k) :: int)" by (simp add: int_of_char)
  also have "\<dots> = k" using k by simp
  finally show ?thesis by simp
qed

lemma add_codepoint_buffer:
  "\<exists>bs. lx_token_buffer (add_codepoint cp l) = lx_token_buffer l @ map char_of bs \<and>
     bs = (if cp < 0x80 then [cp] else if cp \<le> 0x7FF then [0xC0 + cp div 64, 0x80 + cp mod 64]
       else if cp \<le> 0xFFFF then [0xE0 + cp div 4096, 0x80 + cp div 64 mod 64, 0x80 + cp mod 64]
       else [0xF0 + cp div 262144, 0x80 + cp div 4096 mod 64, 0x80 + cp div 64 mod 64, 0x80 + cp mod 64])"
  by (simp add: add_codepoint_def lx_add_def)

lemma mod64_int: "0 \<le> (x::int) mod 64" "x mod 64 < 64"
  by simp_all

text \<open>The encodings of three and of four bytes.\<close>

lemma utf8_three_bytes:
  assumes cp: "0x800 \<le> cp" "cp \<le> 0xFFFF" "cp < 0xD800 \<or> 0xDFFF < cp"
  shows "utf8_valid (map char_of [0xE0 + cp div 4096, 0x80 + cp div 64 mod 64, 0x80 + (cp :: int) mod 64])"
proof -
  define h where "h = cp div 4096"
  define i where "i = cp div 64 mod 64"
  have d: "cp div 64 = 64 * h + i"
    unfolding h_def i_def using zdiv_zmult2_eq [of 64 cp 64] by simp
  have h: "0 \<le> h" "h < 16" using cp by (auto simp: h_def)
  have i: "0 \<le> i" "i < 64" by (simp_all add: i_def)
  have c: "64 * (64 * h + i) \<le> cp" "cp < 64 * (64 * h + i) + 64"
    unfolding d [symmetric] by auto
  have "h = 0 \<Longrightarrow> 32 \<le> i" "h = 13 \<Longrightarrow> i < 32"
    using c cp cp(3) i by auto
  with cp h i mod64_int [of cp] show ?thesis
    unfolding h_def [symmetric] i_def [symmetric]
    by (auto simp: utf8_valid_def of_char_char_of_int utf8_ranges_def nat_less_iff nat_le_iff le_nat_iff
        nat_eq_iff)
qed

lemma utf8_four_bytes:
  assumes cp: "0x10000 \<le> cp" "cp \<le> 0x10FFFF"
  shows "utf8_valid (map char_of [0xF0 + cp div 262144, 0x80 + cp div 4096 mod 64, 0x80 + cp div 64 mod 64, 0x80 + (cp :: int) mod 64])"
proof -
  define h where "h = cp div 262144"
  define i where "i = cp div 4096 mod 64"
  have d: "cp div 4096 = 64 * h + i"
    unfolding h_def i_def using zdiv_zmult2_eq [of 64 cp 4096] by simp
  have h: "0 \<le> h" "h < 5" using cp cp(2) by (auto simp: h_def)
  have i: "0 \<le> i" "i < 64" by (simp_all add: i_def)
  have c: "4096 * (64 * h + i) \<le> cp" "cp < 4096 * (64 * h + i) + 4096"
    unfolding d [symmetric] by auto
  have "h = 0 \<Longrightarrow> 16 \<le> i" "h = 4 \<Longrightarrow> i < 16"
    using c cp cp(2) by auto
  with cp h i mod64_int [of cp] mod64_int [of "cp div 64"] show ?thesis
    unfolding h_def [symmetric] i_def [symmetric]
    by (auto simp: utf8_valid_def of_char_char_of_int utf8_ranges_def nat_less_iff nat_le_iff le_nat_iff
        nat_eq_iff)
qed

lemma add_codepoint_utf8:
  assumes cp: "0 \<le> cp" "cp \<le> 0x10FFFF" "cp < 0xD800 \<or> 0xDFFF < cp"
    and buf: "utf8_valid (lx_token_buffer l)"
  shows "utf8_valid (lx_token_buffer (add_codepoint cp l))"
proof -
  consider (one) "cp < 0x80" | (two) "0x80 \<le> cp" "cp \<le> 0x7FF" | (three) "0x800 \<le> cp" "cp \<le> 0xFFFF"
    | (four) "0x10000 \<le> cp"
    by linarith
  then have "utf8_valid (map char_of (if cp < 0x80 then [cp]
       else if cp \<le> 0x7FF then [0xC0 + cp div 64, 0x80 + cp mod 64]
       else if cp \<le> 0xFFFF then [0xE0 + cp div 4096, 0x80 + cp div 64 mod 64, 0x80 + cp mod 64]
       else [0xF0 + cp div 262144, 0x80 + cp div 4096 mod 64, 0x80 + cp div 64 mod 64, 0x80 + cp mod 64]))"
  proof cases
    case one
    then show ?thesis
      using cp by (simp add: utf8_valid_def of_char_char_of_int utf8_ranges_def nat_less_iff)
  next
    case two
    have "2 \<le> cp div 64" "cp div 64 < 32" using two by auto
    with two mod64_int [of cp] show ?thesis
      by (simp add: utf8_valid_def of_char_char_of_int utf8_ranges_def nat_less_iff nat_le_iff le_nat_iff)
  next
    case three
    with cp(3) utf8_three_bytes [of cp] show ?thesis by simp
  next
    case four
    with cp(2) utf8_four_bytes [of cp] show ?thesis by simp
  qed
  with add_codepoint_buffer [of cp l] buf show ?thesis
    by (auto intro!: utf8_valid_append)
qed

section \<open>Strings\<close>

lemma codepoint_loop_range:
  "codepoint_loop fs cp l = (l', cp') \<Longrightarrow> 0 \<le> cp \<Longrightarrow> cp' \<noteq> -1 \<Longrightarrow>
   cp \<le> cp' \<and> cp' \<le> cp + 15 * sum_list (map (\<lambda>f. 2 ^ f) fs)"
proof (induction fs arbitrary: cp l)
  case (Cons f fs)
  define c where "c = lx_current (lx_get l)"
  obtain d where d: "0 \<le> d" "d \<le> 15" "codepoint_loop fs (cp + d * 2 ^ f) (lx_get l) = (l', cp')"
    using Cons.prems(1,3) that [of "c - 48"] that [of "c - 55"] that [of "c - 87"]
    by (auto simp: Let_def c_def [symmetric] split: if_splits)
  have "0 \<le> d * 2 ^ f" "d * 2 ^ f \<le> 15 * 2 ^ f" using d by simp_all
  moreover have "cp + d * 2 ^ f \<le> cp' \<and> cp' \<le> cp + d * 2 ^ f + 15 * sum_list (map (\<lambda>f. 2 ^ f) fs)"
    using Cons.IH [OF d(3)] Cons.prems(2,3) calculation by linarith
  ultimately show ?case by (simp only: list.map sum_list.Cons distrib_left) linarith
qed simp

lemma codepoint_loop_buffer: "codepoint_loop fs cp l = (l', cp') \<Longrightarrow> lx_token_buffer l' = lx_token_buffer l"
  by (induction fs arbitrary: cp l) (auto simp: Let_def split: if_splits)

lemma get_codepoint_range:
  "get_codepoint l = (l', cp) \<Longrightarrow> cp \<noteq> -1 \<Longrightarrow> 0 \<le> cp \<and> cp \<le> 0xFFFF"
  using codepoint_loop_range [of "[12, 8, 4, 0]" 0 l l' cp] by (simp add: get_codepoint_def)

lemma get_codepoint_buffer: "get_codepoint l = (l', cp) \<Longrightarrow> lx_token_buffer l' = lx_token_buffer l"
  unfolding get_codepoint_def by (rule codepoint_loop_buffer)

lemma scan_unicode_utf8:
  assumes "scan_unicode l = (l', True)" "utf8_valid (lx_token_buffer l)"
  shows "utf8_valid (lx_token_buffer l')"
proof -
  obtain l1 cp1 where 1: "get_codepoint l = (l1, cp1)" by force
  obtain l2 cp2 where 2: "get_codepoint (lx_get (lx_get l1)) = (l2, cp2)" by force
  note r = get_codepoint_range [OF 1] get_codepoint_range [OF 2]
    get_codepoint_buffer [OF 1] get_codepoint_buffer [OF 2]
  consider "l' = add_codepoint cp1 l1" "0 \<le> cp1" "cp1 \<le> 0xFFFF" "cp1 < 0xD800 \<or> 0xDFFF < cp1"
    | "l' = add_codepoint (cp1 * 1024 + cp2 - 0x35FDC00) l2" "0xD800 \<le> cp1" "cp1 \<le> 0xDBFF"
      "0xDC00 \<le> cp2" "cp2 \<le> 0xDFFF"
    using assms(1) r by (auto simp: scan_unicode_def 1 2 Let_def split: if_splits)
  then show ?thesis
    using r assms(2) by cases (auto intro!: add_codepoint_utf8)
qed

lemma utf8_valid_add_ascii:
  "utf8_valid (lx_token_buffer l) \<Longrightarrow> 0 \<le> c \<Longrightarrow> c \<le> 0x7F \<Longrightarrow> utf8_valid (lx_token_buffer (lx_add c l))"
  using add_codepoint_utf8 [of c l] by (simp add: add_codepoint_def)

lemma ranges_loop_utf8:
  "ranges_loop rs l = (l', True) \<Longrightarrow> (\<And>r. r \<in> set rs \<Longrightarrow> snd r < 256) \<Longrightarrow>
   \<exists>s. lx_token_buffer l' = lx_token_buffer l @ s \<and> utf8_run rs s"
proof (induction rs arbitrary: l)
  case Nil
  then show ?case by simp
next
  case (Cons r rs)
  let ?c = "lx_current (lx_get l)"
  let ?l = "lx_add ?c (lx_get l)"
  have c: "int (fst r) \<le> ?c" "?c \<le> int (snd r)" and loop: "ranges_loop rs ?l = (l', True)"
    using Cons.prems(1) by (auto simp: Let_def split: if_splits)
  obtain s where s: "lx_token_buffer l' = lx_token_buffer l @ char_of ?c # s" "utf8_run rs s"
    using Cons.IH [OF loop] Cons.prems(2) by auto
  have "in_byte_range r (of_char (char_of ?c))"
    using c Cons.prems(2) [of r] by (simp add: of_char_char_of_int le_nat_iff nat_le_iff)
  with s show ?case by (intro exI [of _ "char_of ?c # s"]) simp
qed

lemma utf8_ranges_bytes: "utf8_ranges b = Some rs \<Longrightarrow> r \<in> set rs \<Longrightarrow> snd r < 256"
  by (auto simp: utf8_ranges_def split: if_splits)

lemma utf8_ranges_less: "utf8_ranges b = Some rs \<Longrightarrow> b < 256"
  by (auto simp: utf8_ranges_def split: if_splits)

lemma scan_escape_utf8:
  assumes "scan_escape l = (l', True)" "utf8_valid (lx_token_buffer l)"
  shows "utf8_valid (lx_token_buffer l')"
  using assms scan_unicode_utf8 [of "lx_get l" l']
  by (auto simp: scan_escape_def Let_def split: if_splits intro!: utf8_valid_add_ascii simp del: lx_add_buffer)

lemma string_step_utf8:
  assumes step: "string_step l = (l', r)" "r = None \<or> r = Some value_string"
    and buf: "utf8_valid (lx_token_buffer l)"
  shows "utf8_valid (lx_token_buffer l')"
proof -
  let ?l = "lx_get l" and ?c = "lx_current (lx_get l)"
  consider "l' = ?l" | "scan_escape ?l = (l', True)" | "l' = lx_add ?c ?l" "0 \<le> ?c" "?c \<le> 0x7F"
    | (multi) rs where "utf8_ranges (nat ?c) = Some rs" "next_byte_in_range rs ?l = (l', True)" "0 \<le> ?c"
    using step
    by (auto simp: string_step_def Let_def split: if_splits prod.splits option.splits)
  then show ?thesis
  proof cases
    case multi
    then have "?c < 256" using utf8_ranges_less [OF multi(1)] by simp
    moreover from multi obtain s where
      s: "lx_token_buffer l' = lx_token_buffer l @ char_of ?c # s" "utf8_run rs s"
      using ranges_loop_utf8 [of rs "lx_add ?c ?l" l'] utf8_ranges_bytes [of "nat ?c"]
      by (auto simp: next_byte_in_range_def)
    ultimately have "utf8_valid (char_of ?c # s)"
      using multi by (simp add: utf8_valid_def of_char_char_of_int)
    with s(1) buf show ?thesis by (simp add: utf8_valid_append)
  qed (use buf in \<open>auto dest: scan_escape_utf8 intro!: utf8_valid_add_ascii simp del: lx_add_buffer\<close>)
qed

lemma scan_string_loop_utf8:
  "scan_string_loop l = (l', value_string) \<Longrightarrow> utf8_valid (lx_token_buffer l) \<Longrightarrow>
   utf8_valid (lx_token_buffer l')"
proof (induction l rule: scan_string_loop.induct)
  case (1 l)
  obtain l1 r where s: "string_step l = (l1, r)" by force
  show ?case
    using "1.IH" [OF s [symmetric]] "1.prems" string_step_utf8 [OF s] s
    by (cases r) (auto simp: scan_string_loop.simps [of l])
qed

section \<open>Tokens\<close>

text \<open>What a token leaves in the lexer, for the tokens that carry a value.\<close>

definition token_ok :: "lexer \<Rightarrow> token_type \<Rightarrow> bool" where
  "token_ok l t \<longleftrightarrow> (t = value_string \<longrightarrow> utf8_valid (lx_token_buffer l)) \<and>
     (t = value_unsigned \<longrightarrow> 0 \<le> lx_value_unsigned l \<and> lx_value_unsigned l < 2 ^ 64) \<and>
     (t = value_integer \<longrightarrow> int64 (lx_value_integer l))"

lemma number_done_ok: "number_done ty l = (l', t) \<Longrightarrow> token_ok l' t"
  by (auto simp: number_done_def number_as_float_def token_ok_def Let_def strtoull_def strtoll_def
      split: if_splits option.splits)

lemma literal_token: "snd (literal_loop xs ty l) \<in> {ty, tok_parse_error}"
  by (induction xs arbitrary: l) (simp_all add: Let_def)

lemma token_ok_other:
  "t \<notin> {value_string, value_unsigned, value_integer} \<Longrightarrow> token_ok l t"
  by (auto simp: token_ok_def)

lemma scan_literal_ok:
  "scan_literal xs ty l = (l', t) \<Longrightarrow> ty \<in> {literal_true, literal_false, literal_null} \<Longrightarrow> token_ok l' t"
  using literal_token [of "tl xs" ty l] by (auto simp: scan_literal_def intro!: token_ok_other)

lemma scan_string_loop_token: "snd (scan_string_loop l) \<in> {value_string, tok_parse_error}"
proof (induction l rule: scan_string_loop.induct)
  case (1 l)
  obtain l1 r where s: "string_step l = (l1, r)" by force
  have "r \<in> {None, Some value_string, Some tok_parse_error}"
    using s by (auto simp: string_step_def Let_def split: if_splits prod.splits option.splits)
  with "1.IH" [OF s [symmetric]] s show ?case
    by (cases r) (auto simp: scan_string_loop.simps [of l])
qed

lemma scan_string_ok: "scan_string l = (l', t) \<Longrightarrow> token_ok l' t"
  using scan_string_loop_token [of "lx_reset l"] scan_string_loop_utf8 [of "lx_reset l" l']
  by (auto simp: scan_string_def token_ok_def)

lemma scan_number_ok: "scan_number l = (l', t) \<Longrightarrow> token_ok l' t"
  by (auto simp: scan_number_def Let_def intro: token_ok_other number_done_ok
      split: prod.splits option.splits)

lemma scan_token_ok: "scan_token l = (l', t) \<Longrightarrow> token_ok l' t"
  by (auto simp: scan_token_def Let_def intro: token_ok_other scan_literal_ok scan_string_ok scan_number_ok
      split: if_splits)

lemma scan_ok: "scan l = (l', t) \<Longrightarrow> token_ok l' t"
  by (auto simp: scan_def intro: token_ok_other scan_token_ok split: if_splits prod.splits)

section \<open>Values\<close>

text \<open>The value under construction: the root and the open containers.\<close>

definition value_ok :: "json \<Rightarrow> bool" where
  "value_ok j \<longleftrightarrow> json_ok j \<and> json_utf8 j"

fun frame_ok :: "frame \<Rightarrow> bool" where
  "frame_ok (Arr_frame xs) \<longleftrightarrow> value_ok (JArray xs)"
| "frame_ok (Obj_frame m k) \<longleftrightarrow> value_ok (JObject m) \<and> utf8_valid k"

definition dom_ok :: "pstate \<Rightarrow> bool" where
  "dom_ok p \<longleftrightarrow> value_ok (ps_root p) \<and> list_all frame_ok (ps_stack p)"

abbreviation parser_ok :: "pstate \<Rightarrow> bool" where
  "parser_ok p \<equiv> dom_ok p \<and> token_ok (ps_lexer p) (ps_last_token p)"

lemma value_ok_assign: "value_ok (JObject m) \<Longrightarrow> value_ok v \<Longrightarrow> utf8_valid k \<Longrightarrow>
    value_ok (JObject (map_assign k v m))"
  by (auto simp: value_ok_def map_wf_assign set_map_assign)

lemma value_ok_null [simp]: "value_ok JNull"
  by (simp add: value_ok_def)

lemma dom_ok_handle: "dom_ok p \<Longrightarrow> value_ok v \<Longrightarrow> dom_ok (handle_value v p)"
  by (auto simp: dom_ok_def handle_value_def value_ok_assign split: list.splits frame.splits)
    (auto simp: value_ok_def)

lemma dom_ok_start: "dom_ok p \<Longrightarrow> dom_ok (start_object p)" "dom_ok p \<Longrightarrow> dom_ok (start_array p)"
  by (auto simp: dom_ok_def start_object_def start_array_def value_ok_def)

lemma dom_ok_key: "dom_ok p \<Longrightarrow> utf8_valid k \<Longrightarrow> dom_ok (sax_key k p)"
  by (auto simp: dom_ok_def sax_key_def value_ok_assign split: list.splits frame.splits)

lemma dom_ok_end: "dom_ok p \<Longrightarrow> dom_ok (end_container p)"
  by (auto simp: end_container_def intro!: dom_ok_handle split: list.splits frame.splits)
    (auto simp: dom_ok_def)

lemma dom_ok_states [simp]: "dom_ok (p\<lparr>ps_states := sts\<rparr>) = dom_ok p"
  by (simp add: dom_ok_def)

lemma get_token_ok: "dom_ok p \<Longrightarrow> parser_ok (get_token p)"
  using scan_ok [of "ps_lexer p"] by (auto simp: get_token_def dom_ok_def split: prod.splits)

lemma dom_ok_get_token [simp]: "dom_ok p \<Longrightarrow> dom_ok (get_token p)"
  using get_token_ok by blast

lemma parse_key_ok: "parser_ok p \<Longrightarrow> parse_key p = Inr p' \<Longrightarrow> dom_ok p'"
  by (auto simp: parse_key_def Let_def token_ok_def split: if_splits)
    (metis dom_ok_key get_token_ok)

lemma parse_value_ok:
  assumes ok: "parser_ok p" and val: "parse_value p = Inr (p', b)"
  shows "dom_ok p'" "\<not> b \<Longrightarrow> parser_ok p'"
proof -
  have obj: "parser_ok (get_token (start_object p))" and arr: "parser_ok (get_token (start_array p))"
    using ok by (simp_all add: get_token_ok dom_ok_start)
  have key: "parser_ok (get_token (q\<lparr>ps_states := sts\<rparr>))"
    if "parse_key (get_token (start_object p)) = Inr q" for q sts
    using get_token_ok parse_key_ok [OF obj that] by simp
  show "dom_ok p'"
    using ok val obj arr
    by (auto simp: parse_value_def Let_def sum_bind_Inr_conv value_ok_def token_ok_def dest: key
        intro!: dom_ok_handle dom_ok_end split: token_type.splits if_splits)
  show "parser_ok p'" if "\<not> b"
    using that val obj arr
    by (auto simp: parse_value_def Let_def sum_bind_Inr_conv dest: key
        split: token_type.splits if_splits)
qed

lemma eval_state_ok:
  assumes "dom_ok p" "eval_state p = Inr (p', r)"
  shows "dom_ok p'" "r = Some False \<Longrightarrow> parser_ok p'"
proof -
  note tok = get_token_ok [OF assms(1)]
  have key: "parser_ok (get_token q)" if "parse_key (get_token (get_token p)) = Inr q" for q
    using get_token_ok [of "get_token p"] tok parse_key_ok that get_token_ok by blast
  show "dom_ok p'" "r = Some False \<Longrightarrow> parser_ok p'"
    using assms tok get_token_ok [of "get_token p"]
    by (auto simp: eval_state_def Let_def sum_bind_Inr_conv dest: key
        intro!: dom_ok_end split: list.splits bool.splits if_splits)
qed

lemma sax_loop_ok:
  "sax_loop skip p = Inr p' \<Longrightarrow> dom_ok p \<Longrightarrow> (\<not> skip \<Longrightarrow> parser_ok p) \<Longrightarrow> dom_ok p'"
proof (induction skip p rule: sax_loop.induct)
  case (1 skip p)
  define r where "r = (if skip then Inr (p, True) else parse_value p)"
  from "1.prems"(1) obtain p1 ev where r: "r = Inr (p1, ev)"
    by (subst (asm) sax_loop.simps) (auto simp: r_def split: sum.splits if_splits)
  have p1: "dom_ok p1" "\<not> ev \<Longrightarrow> parser_ok p1"
    using r "1.prems" parse_value_ok [of p p1 ev] by (auto simp: r_def split: if_splits)
  have loop: "sax_loop skip p = (if \<not> ev then sax_loop False p1 else (case eval_state p1 of
      Inl e \<Rightarrow> Inl e | Inr (p2, next) \<Rightarrow> (case next of None \<Rightarrow> Inr p2 | Some skip' \<Rightarrow> sax_loop skip' p2)))"
    using r by (subst sax_loop.simps) (simp add: r_def)
  show ?case
  proof (cases ev)
    case False
    with "1.IH"(1) [OF r [unfolded r_def] refl] p1 loop "1.prems"(1) show ?thesis by auto
  next
    case True
    from "1.prems"(1) loop True obtain p2 nx where e: "eval_state p1 = Inr (p2, nx)"
      by (auto split: sum.splits)
    note p2 = eval_state_ok [OF p1(1) e]
    show ?thesis
    proof (cases nx)
      case None
      with loop True e "1.prems"(1) p2 show ?thesis by simp
    next
      case (Some s)
      have "\<not> \<not> ev" using True by simp
      with "1.IH"(2) [OF r [unfolded r_def] refl _ e refl Some] loop True e Some "1.prems"(1) p2
      show ?thesis by auto
    qed
  qed
qed

lemma parse_ok:
  assumes "json_parse s = Inr j"
  shows "json_ok j \<and> json_utf8 j"
proof -
  have d: "dom_ok \<lparr>ps_lexer = lexer_ctor s False, ps_last_token = uninitialized,
     ps_states = [], ps_root = JNull, ps_stack = []\<rparr>"
    by (simp add: dom_ok_def)
  obtain p where p: "sax_loop False (parser_ctor s) = Inr p" "j = ps_root (get_token p)"
    using assms by (auto simp: json_parse_def sum_bind_Inr_conv Let_def split: if_splits)
  have "dom_ok p"
    using sax_loop_ok [OF p(1)] get_token_ok [OF d] by (simp add: parser_ctor_def)
  with p(2) show ?thesis
    using dom_ok_get_token [of p] by (simp add: dom_ok_def value_ok_def)
qed

text \<open>C28: every value that \<^verbatim>\<open>json::parse\<close> returns, for any bytes, is well-formed: the keys of its
  objects are in order and distinct, its integers lie in the range of their 64-bit type, and
  all its strings and keys are UTF-8. So \<^verbatim>\<open>json::dump\<close> writes it without throwing.\<close>

theorem parse_well_formed:
  assumes "json_parse s = Inr j"
  shows "json_ok j \<and> json_utf8 j \<and> (\<exists>t. json_dump fl j = Inr t)"
  using parse_ok [OF assms] serializer_throws [of j fl]
  by (auto simp: throws_unless_def json_dump_def split: sum.splits)

theorem parse_well_formed_witness:
  "json_parse ''[1, true]'' = Inr (JArray [JUnsigned 1, JBoolean True]) \<and>
   json_utf8 (JArray [JUnsigned 1, JBoolean True]) \<and>
   (\<exists>t. json_dump (\<lambda>_. []) (JArray [JUnsigned 1, JBoolean True]) = Inr t)"
proof -
  have "json_parse ''[1, true]'' = Inr (JArray [JUnsigned 1, JBoolean True])"
    by code_simp
  with parse_well_formed [OF this, of "\<lambda>_. []"] show ?thesis by simp
qed

end
