(* ===== verification/Message_Codec.thy ===== *)
theory Message_Codec
  imports Utils Json_Safety
begin

text \<open>
  The wire format of messages (\<^verbatim>\<open>node/utils.cpp\<close>): \<^verbatim>\<open>serialize_message\<close> builds a JSON object and
  ends its text with a line end, \<^verbatim>\<open>deserialize_message\<close> reads a line back and turns every
  exception into a message of type \<open>UNKNOWN\<close>. The locale \<open>line_codec\<close> is what the connections
  need of a format: one line per message, and the line gives the message back.
\<close>

section \<open>Writing\<close>

fun push_pairs :: "(string \<times> string) list \<Rightarrow> json \<Rightarrow> std_exn + json" where
  "push_pairs [] arr = Inr arr"
| "push_pairs ((k, v) # ps) arr = sum_bind (push_back_init [JString k, JString v] arr) (push_pairs ps)"

definition message_json :: "Message \<Rightarrow> std_exn + json" where
  "message_json m =
     sum_bind (set_key ''type'' (JString (msgtype_to_str (m_type m))) JNull) (\<lambda>j.
     sum_bind (set_key ''key'' (JString (m_key m)) j) (\<lambda>j.
     sum_bind (set_key ''value'' (JString (m_value m)) j) (\<lambda>j.
     sum_bind (set_key ''node_id'' (JInteger (m_node_id m)) j) (\<lambda>j.
     sum_bind (set_key ''term'' (JInteger (m_term m)) j) (\<lambda>j.
     sum_bind (set_key ''timestamp'' (JInteger (m_timestamp m)) j) (\<lambda>j.
     sum_bind (set_key ''success'' (JBoolean (m_success m)) j) (\<lambda>j.
     sum_bind (set_key ''error'' (JString (m_error m)) j) (\<lambda>j.
       if m_kv_pairs m \<noteq> []
       then sum_bind (push_pairs (m_kv_pairs m) (JArray [])) (\<lambda>arr. set_key ''kv_pairs'' arr j)
       else Inr j))))))))"

definition serialize_message :: "(double \<Rightarrow> string) \<Rightarrow> Message \<Rightarrow> std_exn + string" where
  "serialize_message fl m =
     sum_bind (message_json m) (\<lambda>j. sum_bind (json_dump fl j) (\<lambda>s. Inr (s @ [CHR 0x0A])))"

section \<open>Reading\<close>

text \<open>
  The body of the \<^verbatim>\<open>try\<close> block is a sequence of assignments to the message. Each is a step that
  may throw; the assignments before it stay.
\<close>

fun run_steps :: "('m \<Rightarrow> 'e + 'm) list \<Rightarrow> 'm \<Rightarrow> 'm \<times> 'e option" where
  "run_steps [] m = (m, None)"
| "run_steps (s # ss) m = (case s m of Inl e \<Rightarrow> (m, Some e) | Inr m' \<Rightarrow> run_steps ss m')"

definition set_field :: "std_exn + 'a \<Rightarrow> ('a \<Rightarrow> Message \<Rightarrow> Message) \<Rightarrow> Message \<Rightarrow> std_exn + Message" where
  "set_field r upd m = sum_bind r (\<lambda>a. Inr (upd a m))"

definition field_steps :: "json \<Rightarrow> (Message \<Rightarrow> std_exn + Message) list" where
  "field_steps j =
    [set_field (value_or get_str ''type'' ''UNKNOWN'' j) (\<lambda>x m. m\<lparr>m_type := str_to_msgtype x\<rparr>),
     set_field (value_or get_str ''key'' [] j) (\<lambda>x m. m\<lparr>m_key := x\<rparr>),
     set_field (value_or get_str ''value'' [] j) (\<lambda>x m. m\<lparr>m_value := x\<rparr>),
     set_field (value_or get_int ''node_id'' 0 j) (\<lambda>x m. m\<lparr>m_node_id := x\<rparr>),
     set_field (value_or get_int ''term'' 0 j) (\<lambda>x m. m\<lparr>m_term := x\<rparr>),
     set_field (value_or get_arithmetic_value ''timestamp'' 0 j) (\<lambda>x m. m\<lparr>m_timestamp := x\<rparr>),
     set_field (value_or get_boolean ''success'' False j) (\<lambda>x m. m\<lparr>m_success := x\<rparr>),
     set_field (value_or get_str ''error'' [] j) (\<lambda>x m. m\<lparr>m_error := x\<rparr>)]"

text \<open>
  One element of \<^verbatim>\<open>kv_pairs\<close>. The order in which C++ evaluates the two arguments is not fixed;
  it only decides which of two bad types an error text names.
\<close>

definition pair_of :: "json \<Rightarrow> std_exn + string \<times> string" where
  "pair_of pair =
     sum_bind (at_index 0 pair) (\<lambda>(pair, a). sum_bind (get_str a) (\<lambda>k.
     sum_bind (at_index 1 pair) (\<lambda>(pair, b). sum_bind (get_str b) (\<lambda>v. Inr (k, v)))))"

definition pair_step :: "json \<Rightarrow> Message \<Rightarrow> std_exn + Message" where
  "pair_step pair = set_field (pair_of pair) (\<lambda>kv m. m\<lparr>m_kv_pairs := m_kv_pairs m @ [kv]\<rparr>)"

definition pairs_steps :: "json \<Rightarrow> (Message \<Rightarrow> std_exn + Message) list" where
  "pairs_steps j = (if contains ''kv_pairs'' j
     then case at_key ''kv_pairs'' j of
         Inl e \<Rightarrow> [\<lambda>m. Inl e]
       | Inr (_, v) \<Rightarrow> map pair_step (json_elements v)
     else [])"

definition parse_failed :: "Message \<Rightarrow> std_exn \<Rightarrow> Message" where
  "parse_failed m e = m\<lparr>m_type := UNKNOWN, m_error := ''parse error: '' @ what e\<rparr>"

definition deserialize_message :: "string \<Rightarrow> Message" where
  "deserialize_message json_str = (case json_parse json_str of
       Inl e \<Rightarrow> parse_failed Message0 e
     | Inr j \<Rightarrow> (case run_steps (field_steps j @ pairs_steps j) Message0 of
         (m, None) \<Rightarrow> m
       | (m, Some e) \<Rightarrow> parse_failed m e))"

section \<open>The messages that can be sent\<close>

definition texts_utf8 :: "Message \<Rightarrow> bool" where
  "texts_utf8 m \<longleftrightarrow> utf8_valid (m_key m) \<and> utf8_valid (m_value m) \<and> utf8_valid (m_error m) \<and>
     (\<forall>p \<in> set (m_kv_pairs m). utf8_valid (fst p) \<and> utf8_valid (snd p))"

definition message_ok :: "Message \<Rightarrow> bool" where
  "message_ok m \<longleftrightarrow> texts_utf8 m \<and> int32 (m_node_id m) \<and> int32 (m_term m) \<and> int64 (m_timestamp m)"

definition pairs_json :: "(string \<times> string) list \<Rightarrow> json list" where
  "pairs_json ps = map (\<lambda>(k, v). JArray [JString k, JString v]) ps"

lemma push_pairs_array: "push_pairs ps (JArray xs) = Inr (JArray (xs @ pairs_json ps))"
  by (induction ps "JArray xs" arbitrary: xs rule: push_pairs.induct) (simp_all add: pairs_json_def)

definition fields_map :: "Message \<Rightarrow> (string \<times> json) list" where
  "fields_map m = map_assign ''error'' (JString (m_error m))
    (map_assign ''success'' (JBoolean (m_success m)) (map_assign ''timestamp'' (JInteger (m_timestamp m))
    (map_assign ''term'' (JInteger (m_term m)) (map_assign ''node_id'' (JInteger (m_node_id m))
    (map_assign ''value'' (JString (m_value m)) (map_assign ''key'' (JString (m_key m))
    (map_assign ''type'' (JString (msgtype_to_str (m_type m))) [])))))))"

definition message_map :: "Message \<Rightarrow> (string \<times> json) list" where
  "message_map m = (if m_kv_pairs m \<noteq> []
     then map_assign ''kv_pairs'' (JArray (pairs_json (m_kv_pairs m))) (fields_map m) else fields_map m)"

lemma message_json_map: "message_json m = Inr (JObject (message_map m))"
  by (simp add: message_json_def message_map_def fields_map_def push_pairs_array del: map_assign.simps(2))

lemma message_map_wf [simp]: "map_wf (message_map m)" "map_wf (fields_map m)"
  by (simp_all add: message_map_def fields_map_def map_wf_assign del: map_assign.simps(2))

lemma utf8_valid_names [simp]:
  "utf8_valid ''error''" "utf8_valid ''success''" "utf8_valid ''timestamp''" "utf8_valid ''term''"
  "utf8_valid ''node_id''" "utf8_valid ''value''" "utf8_valid ''key''" "utf8_valid ''type''"
  "utf8_valid ''kv_pairs''"
  by (simp_all add: utf8_valid_def utf8_ranges_def)

lemma utf8_valid_msgtype [simp]: "utf8_valid (msgtype_to_str t)"
  by (cases t) (simp_all add: utf8_valid_def utf8_ranges_def)

lemma json_utf8_assign:
  "map_wf m \<Longrightarrow> map_of m k = None \<Longrightarrow> json_utf8 (JObject (map_assign k v m)) \<longleftrightarrow>
     utf8_valid k \<and> json_utf8 v \<and> json_utf8 (JObject m)"
proof -
  assume m: "map_wf m" "map_of m k = None"
  then have "{e \<in> set m. fst e \<noteq> k} = set m"
    by (auto simp: map_of_eq_None_iff rev_image_eqI)
  with m(1) show ?thesis by (auto simp: set_map_assign)
qed

lemma json_plain_assign:
  "json_plain (JObject m) \<Longrightarrow> json_plain v \<Longrightarrow> utf8_valid k \<Longrightarrow> json_plain (JObject (map_assign k v m))"
  by (auto simp: set_map_assign map_wf_assign)

lemma message_map_utf8: "json_utf8 (JObject (message_map m)) \<longleftrightarrow> texts_utf8 m"
  by (simp add: message_map_def fields_map_def json_utf8_assign map_wf_assign
      del: map_assign.simps(2) json_utf8.simps(1))
    (auto simp: texts_utf8_def pairs_json_def)

lemma message_map_plain:
  assumes "message_ok m"
  shows "json_plain (JObject (message_map m))"
proof -
  note ok = assms [unfolded message_ok_def texts_utf8_def]
  have "json_plain (JObject (fields_map m))"
    unfolding fields_map_def using ok
    by (intro json_plain_assign) (simp_all add: int_range_def)
  moreover have "json_plain (JArray (pairs_json (m_kv_pairs m)))"
    using ok by (auto simp: pairs_json_def)
  ultimately show ?thesis
    unfolding message_map_def by (simp add: json_plain_assign del: json_plain.simps(1))
qed

lemma serialize_throws: "throws_unless (texts_utf8 m) (serialize_message fl m)"
  using serializer_throws [of "JObject (message_map m)" fl]
  unfolding message_map_utf8 serialize_message_def message_json_map json_dump_def
  by (auto intro: throws_bind_Inr)

section \<open>The round trip\<close>

lemma map_of_norm: "map_of (map (\<lambda>e. (fst e, json_norm (snd e))) m) k = map_option json_norm (map_of m k)"
  by (induction m) auto

lemma get_norm_integer:
  "int32 n \<Longrightarrow> get_int (json_norm (JInteger n)) = Inr n"
  "int64 n \<Longrightarrow> get_arithmetic_value (json_norm (JInteger n)) = Inr n"
  by simp_all

lemma pair_of_strings [simp]: "pair_of (JArray [JString k, JString v]) = Inr (k, v)"
  by (simp add: pair_of_def)

lemma run_pairs:
  "run_steps (map pair_step (map json_norm (pairs_json ps))) m = (m\<lparr>m_kv_pairs := m_kv_pairs m @ ps\<rparr>, None)"
  by (induction ps arbitrary: m) (auto simp: pairs_json_def pair_step_def set_field_def)

lemma run_steps_append:
  "run_steps (ss @ ts) m = (case run_steps ss m of (m', None) \<Rightarrow> run_steps ts m' | (m', Some e) \<Rightarrow> (m', Some e))"
  by (induction ss arbitrary: m) (auto split: sum.splits)

lemma run_fields:
  assumes "message_ok m"
  shows "run_steps (field_steps (json_norm (JObject (message_map m)))) Message0 = (m\<lparr>m_kv_pairs := []\<rparr>, None)"
proof -
  have "int32 (m_node_id m)" "int32 (m_term m)" "int64 (m_timestamp m)"
    using assms by (simp_all add: message_ok_def)
  then show ?thesis
    by (cases m) (simp add: field_steps_def set_field_def map_of_norm message_map_def fields_map_def
        get_norm_integer Message0_def
        del: map_assign.simps(2) json_norm.simps(3) get_int.simps get_arithmetic_value.simps)
qed

lemma run_message:
  assumes "message_ok m"
  shows "run_steps (field_steps (json_norm (JObject (message_map m)))
      @ pairs_steps (json_norm (JObject (message_map m)))) Message0 = (m, None)"
proof (cases "m_kv_pairs m = []")
  case True
  then have "pairs_steps (json_norm (JObject (message_map m))) = []"
    by (simp add: pairs_steps_def map_of_norm message_map_def fields_map_def del: map_assign.simps(2))
  with True run_fields [OF assms] show ?thesis by simp
next
  case False
  then have "pairs_steps (json_norm (JObject (message_map m))) = map pair_step (map json_norm (pairs_json (m_kv_pairs m)))"
    by (simp add: pairs_steps_def map_of_norm message_map_def fields_map_def del: map_assign.simps(2))
  with run_fields [OF assms] show ?thesis by (simp add: run_steps_append run_pairs del: map_map)
qed

lemma codec:
  assumes "message_ok m"
  shows "\<exists>s. serialize_message fl m = Inr (s @ [CHR 0x0A]) \<and> CHR 0x0A \<notin> set s \<and> s \<noteq> [] \<and> deserialize_message s = m"
proof -
  note plain = message_map_plain [OF assms]
  let ?s = "json_text (JObject (message_map m))"
  have "serialize_message fl m = Inr (?s @ [CHR 0x0A])"
    using dump_text [OF plain, of fl] by (simp add: serialize_message_def message_json_map json_dump_def)
  moreover have "deserialize_message ?s = m"
    using parse_text [OF plain] run_message [OF assms] by (simp add: deserialize_message_def)
  moreover have "CHR 0x0A \<notin> set ?s" by (rule json_text_not_nl)
  moreover have "?s \<noteq> []" by simp
  ultimately show ?thesis by blast
qed

text \<open>
  What the connections rely on: a good message is one line of text, and the line gives the
  message back.
\<close>

locale line_codec =
  fixes enc :: "'m \<Rightarrow> 'e + string" and dec :: "string \<Rightarrow> 'm" and ok :: "'m \<Rightarrow> bool"
  assumes enc_line: "ok m \<Longrightarrow> \<exists>s. enc m = Inr (s @ [CHR 0x0A]) \<and> CHR 0x0A \<notin> set s \<and> s \<noteq> [] \<and> dec s = m"
begin

definition line_of :: "'m \<Rightarrow> string" where
  "line_of m = (case enc m of Inr t \<Rightarrow> butlast t | Inl _ \<Rightarrow> [])"

lemma line_of_ok:
  "ok m \<Longrightarrow> enc m = Inr (line_of m @ [CHR 0x0A]) \<and> CHR 0x0A \<notin> set (line_of m) \<and> line_of m \<noteq> [] \<and>
     dec (line_of m) = m"
  using enc_line [of m] by (auto simp: line_of_def)

lemma enc_inject: "ok m \<Longrightarrow> ok m' \<Longrightarrow> enc m = enc m' \<Longrightarrow> m = m'"
  by (metis line_of_def line_of_ok)

text \<open>The first line of a stream that starts with a message is that message.\<close>

lemma first_line:
  assumes "ok m" "enc m = Inr t"
  shows "takeWhile (\<lambda>c. c \<noteq> CHR 0x0A) (t @ rest) = line_of m"
proof -
  have t: "t = line_of m @ [CHR 0x0A]" and nl: "CHR 0x0A \<notin> set (line_of m)"
    using line_of_ok [OF assms(1)] assms(2) by auto
  have "takeWhile (\<lambda>c. c \<noteq> CHR 0x0A) (line_of m @ CHR 0x0A # rest) = line_of m"
    using nl by (subst takeWhile_append2) auto
  then show ?thesis using t by simp
qed

end

interpretation wire: line_codec "serialize_message fl" deserialize_message message_ok for fl
  by unfold_locales (rule codec)

text \<open>C13: a message whose texts are UTF-8 and whose numbers fit their C++ types is serialized to one
  line, ended by the only line end in it, and the receiver of that line gets the same message
  back, in every field, key-value pairs included.\<close>

theorem message_roundtrip:
  assumes "message_ok m"
  shows "\<exists>s. serialize_message fl m = Inr (s @ [CHR 0x0A]) \<and> CHR 0x0A \<notin> set s \<and>
    deserialize_message s = m"
  using wire.line_of_ok [OF assms, of fl] by blast

theorem message_roundtrip_witness:
  "\<exists>s. serialize_message (\<lambda>_. []) (Message0\<lparr>m_type := SYNC_DATA, m_node_id := -7, m_timestamp := 1700000000000,
       m_kv_pairs := [(''k'', [CHR 0x0A, CHR 0x22]), ([], ''v'')]\<rparr>) = Inr (s @ [CHR 0x0A]) \<and>
     CHR 0x0A \<notin> set s \<and> deserialize_message s = (Message0\<lparr>m_type := SYNC_DATA, m_node_id := -7,
       m_timestamp := 1700000000000, m_kv_pairs := [(''k'', [CHR 0x0A, CHR 0x22]), ([], ''v'')]\<rparr>)"
  by (rule message_roundtrip)
    (simp add: message_ok_def texts_utf8_def utf8_valid_def utf8_ranges_def int_range_def)

text \<open>C29: \<^verbatim>\<open>serialize_message\<close> returns exactly for the messages whose key, value, error text and pairs
  are UTF-8; for every other message it throws the type error 316 of the JSON library, which
  it does not catch.\<close>

theorem serialize_throws_iff:
  "(\<exists>t. serialize_message fl m = Inr t) = texts_utf8 m \<and>
   (\<exists>w. serialize_message fl m = Inl (type_error 316 w)) = (texts_utf8 m = False)"
  using serialize_throws [of m fl]
  by (cases "serialize_message fl m") (auto simp: throws_unless_def is_utf8_error_def)

section \<open>What can be received\<close>

lemma run_steps_inv:
  "(\<And>s m m'. s \<in> set ss \<Longrightarrow> P m \<Longrightarrow> s m = Inr m' \<Longrightarrow> P m') \<Longrightarrow> P m \<Longrightarrow> P (fst (run_steps ss m))"
proof (induction ss arbitrary: m)
  case (Cons s ss)
  then show ?case by (cases "s m") (simp_all, blast)
qed simp

lemma narrow_in_range: "0 < w \<Longrightarrow> int_range w (narrow w x)"
  by (rule narrow_range)

lemma double_to_int_range: "0 < w \<Longrightarrow> int_range w (double_to_int w x)"
  by (auto simp: double_to_int_def Let_def int_range_def split: double.splits)

lemma value_or_str: "value_or get_str k d j = Inr x \<Longrightarrow> json_utf8 j \<Longrightarrow> utf8_valid d \<Longrightarrow> utf8_valid x"
proof (cases "(get_str, k, d, j)" rule: value_or.cases)
  case (1 conv key dflt m)
  assume "value_or get_str k d j = Inr x" "json_utf8 j" "utf8_valid d"
  with 1 show ?thesis
    by (auto split: option.splits dest!: map_of_SomeD elim!: get_str.elims)
qed auto

lemma value_or_int: "value_or get_int k 0 j = Inr x \<Longrightarrow> int32 x"
  by (cases j) (auto split: option.splits elim!: get_int.elims
      simp: narrow_in_range double_to_int_range, auto simp: int_range_def)

lemma value_or_int64: "value_or get_arithmetic_value k 0 j = Inr x \<Longrightarrow> json_ok j \<Longrightarrow> int64 x"
  by (cases j) (auto split: option.splits elim!: get_arithmetic_value.elims dest!: map_of_SomeD
      simp: narrow_in_range double_to_int_range, auto simp: int_range_def)

lemma at_index_utf8: "at_index i j = Inr (j', v) \<Longrightarrow> json_utf8 j \<Longrightarrow> json_utf8 j' \<and> json_utf8 v"
  by (cases j) (auto simp: resize_def Let_def nth_append split: if_splits)

lemma pair_of_utf8: "pair_of j = Inr p \<Longrightarrow> json_utf8 j \<Longrightarrow> utf8_valid (fst p) \<and> utf8_valid (snd p)"
  by (auto simp: pair_of_def sum_bind_Inr_conv elim!: get_str.elims dest!: at_index_utf8)

lemma json_elements_utf8: "json_utf8 j \<Longrightarrow> x \<in> set (json_elements j) \<Longrightarrow> json_utf8 x"
  by (cases j) auto

lemma message_ok_iff:
  "message_ok m \<longleftrightarrow> utf8_valid (m_key m) \<and> utf8_valid (m_value m) \<and> utf8_valid (m_error m) \<and> int32 (m_node_id m) \<and>
     int32 (m_term m) \<and> int64 (m_timestamp m) \<and>
     (\<forall>p \<in> set (m_kv_pairs m). utf8_valid (fst p) \<and> utf8_valid (snd p))"
  by (auto simp: message_ok_def texts_utf8_def)

definition ok_step :: "(Message \<Rightarrow> std_exn + Message) \<Rightarrow> bool" where
  "ok_step s \<longleftrightarrow> (\<forall>m m'. message_ok m \<longrightarrow> s m = Inr m' \<longrightarrow> message_ok m')"

lemma ok_stepI:
  "(\<And>a m. r = Inr a \<Longrightarrow> message_ok m \<Longrightarrow> message_ok (upd a m)) \<Longrightarrow> ok_step (set_field r upd)"
  by (simp add: ok_step_def set_field_def sum_bind_Inr_conv) blast

lemma field_steps_ok:
  assumes "json_ok j" "json_utf8 j"
  shows "list_all ok_step (field_steps j)"
  using value_or_str [OF _ assms(2)] value_or_int value_or_int64 [OF _ assms(1)]
  unfolding field_steps_def list.pred_inject
  by (intro conjI ok_stepI TrueI) (simp_all add: message_ok_iff)

lemma pairs_steps_ok:
  assumes "json_utf8 j"
  shows "list_all ok_step (pairs_steps j)"
proof (cases "contains ''kv_pairs'' j")
  case True
  then obtain m v where j: "j = JObject m" "map_of m ''kv_pairs'' = Some v"
    by (cases j) auto
  then have "json_utf8 v" using assms by (auto dest!: map_of_SomeD)
  then have "ok_step (pair_step x)" if "x \<in> set (json_elements v)" for x
    unfolding pair_step_def using json_elements_utf8 [OF _ that] pair_of_utf8 [of x]
    by (intro ok_stepI) (simp add: message_ok_iff)
  with j show ?thesis by (simp add: pairs_steps_def list_all_iff)
qed (simp add: pairs_steps_def)

lemma message_ok_0 [simp]: "message_ok Message0"
  by (simp add: message_ok_iff int_range_def)

text \<open>Either the message is good, or its reading failed after a good part of it.\<close>

lemma deserialize_cases:
  "message_ok (deserialize_message s) \<or> (\<exists>m e. message_ok m \<and> deserialize_message s = parse_failed m e)"
proof (cases "json_parse s")
  case (Inl e)
  then have "deserialize_message s = parse_failed Message0 e" by (simp add: deserialize_message_def)
  then show ?thesis using message_ok_0 by blast
next
  case (Inr j)
  have "list_all ok_step (field_steps j @ pairs_steps j)"
    using field_steps_ok pairs_steps_ok parse_ok [OF Inr] by simp
  then have "message_ok (fst (run_steps (field_steps j @ pairs_steps j) Message0))"
    using message_ok_0 run_steps_inv [of "field_steps j @ pairs_steps j" message_ok]
    unfolding list_all_iff ok_step_def by blast
  then show ?thesis
    using Inr
    by (cases "run_steps (field_steps j @ pairs_steps j) Message0")
      (auto simp: deserialize_message_def split: option.splits)
qed

lemma deserialize_ok: "m_type (deserialize_message s) \<noteq> UNKNOWN \<Longrightarrow> message_ok (deserialize_message s)"
  using deserialize_cases [of s] by (auto simp: parse_failed_def)

text \<open>Whatever bytes arrive, the message read from them has UTF-8 key, value and pairs, and
  numbers in the range of their C++ types. Without its error text it can therefore always be
  sent on.\<close>

lemma received_message_ok: "message_ok ((deserialize_message s)\<lparr>m_error := []\<rparr>)"
  using deserialize_cases [of s] by (auto simp: message_ok_iff parse_failed_def)

section \<open>What is read from a line\<close>

text \<open>
  The fields in the order in which they are read, the values that each of them admits, and the
  word that the error text uses. An \<^verbatim>\<open>int\<close> is also read from a Boolean.
\<close>

definition field_order :: "string list" where
  "field_order = [''type'', ''key'', ''value'', ''node_id'', ''term'', ''timestamp'', ''success'', ''error'']"

definition is_number :: "json \<Rightarrow> bool" where
  "is_number v \<longleftrightarrow> type_name v = ''number''"

definition field_admits :: "string \<Rightarrow> json \<Rightarrow> bool" where
  "field_admits f v \<longleftrightarrow>
    (if f \<in> {''node_id'', ''term''} then is_number v \<or> type_name v = ''boolean''
     else if f = ''timestamp'' then is_number v
     else if f = ''success'' then type_name v = ''boolean''
     else type_name v = ''string'')"

definition field_word :: "string \<Rightarrow> string" where
  "field_word f = (if f \<in> {''node_id'', ''term'', ''timestamp''} then ''number''
     else if f = ''success'' then ''boolean'' else ''string'')"

definition bad_field :: "(string \<times> json) list \<Rightarrow> string \<Rightarrow> bool" where
  "bad_field m f = (case map_of m f of None \<Rightarrow> False | Some v \<Rightarrow> \<not> field_admits f v)"

definition first_bad :: "(string \<times> json) list \<Rightarrow> string option" where
  "first_bad m = find (bad_field m) field_order"

text \<open>The content of a field of the right type, and the default of one that is missing.\<close>

fun text_of :: "json \<Rightarrow> string" where
  "text_of (JString x) = x"
| "text_of j = []"

fun int_of :: "nat \<Rightarrow> json \<Rightarrow> int" where
  "int_of w (JInteger n) = narrow w n"
| "int_of w (JUnsigned n) = narrow w n"
| "int_of w (JFloat x) = double_to_int w x"
| "int_of w (JBoolean b) = (if b then 1 else 0)"
| "int_of w j = 0"

fun bool_of :: "json \<Rightarrow> bool" where
  "bool_of (JBoolean b) = b"
| "bool_of j = False"

definition field_or :: "'a \<Rightarrow> (json \<Rightarrow> 'a) \<Rightarrow> (string \<times> json) list \<Rightarrow> string \<Rightarrow> 'a" where
  "field_or d content m f = (case map_of m f of None \<Rightarrow> d | Some v \<Rightarrow> content v)"

text \<open>The message after the fields in \<open>fs\<close> have been read.\<close>

definition fields_read :: "(string \<times> json) list \<Rightarrow> string list \<Rightarrow> Message" where
  "fields_read m fs =
    \<lparr>m_type = if ''type'' \<in> set fs then str_to_msgtype (field_or ''UNKNOWN'' text_of m ''type'') else UNKNOWN,
     m_key = if ''key'' \<in> set fs then field_or [] text_of m ''key'' else [],
     m_value = if ''value'' \<in> set fs then field_or [] text_of m ''value'' else [],
     m_node_id = if ''node_id'' \<in> set fs then field_or 0 (int_of 32) m ''node_id'' else 0,
     m_term = if ''term'' \<in> set fs then field_or 0 (int_of 32) m ''term'' else 0,
     m_timestamp = if ''timestamp'' \<in> set fs then field_or 0 (int_of 64) m ''timestamp'' else 0,
     m_success = (''success'' \<in> set fs \<and> field_or False bool_of m ''success''),
     m_error = if ''error'' \<in> set fs then field_or [] text_of m ''error'' else [],
     m_kv_pairs = []\<rparr>"

text \<open>An element of \<^verbatim>\<open>kv_pairs\<close> is a pair when it is an array that starts with two strings.\<close>

fun is_pair :: "json \<Rightarrow> bool" where
  "is_pair (JArray (JString k # JString v # _)) \<longleftrightarrow> True"
| "is_pair j \<longleftrightarrow> False"

fun the_pair :: "json \<Rightarrow> string \<times> string" where
  "the_pair (JArray (JString k # JString v # _)) = (k, v)"
| "the_pair j = ([], [])"

text \<open>The exception for an element that is not a pair: a missing entry counts as null.\<close>

definition is_text :: "json \<Rightarrow> bool" where
  "is_text j \<longleftrightarrow> (case j of JString _ \<Rightarrow> True | _ \<Rightarrow> False)"

definition not_text_error :: "json list \<Rightarrow> std_exn" where
  "not_text_error xs = type_error 302 (''type must be string, but is '' @
     type_name (hd (filter (\<lambda>x. \<not> is_text x) (take 2 (xs @ [JNull, JNull])))))"

definition pair_error :: "json \<Rightarrow> std_exn" where
  "pair_error j = (case j of JArray xs \<Rightarrow> not_text_error xs | JNull \<Rightarrow> not_text_error []
     | _ \<Rightarrow> type_error 305 (''cannot use operator[] with a numeric argument with '' @ type_name j))"

definition pair_elements :: "(string \<times> json) list \<Rightarrow> json list" where
  "pair_elements m = (case map_of m ''kv_pairs'' of None \<Rightarrow> [] | Some v \<Rightarrow> json_elements v)"

lemma error_numbers: "to_string 302 = ''302''" "to_string 306 = ''306''"
  by code_simp+

lemma type_errors:
  "what (type_error 302 w) = ''[json.exception.type_error.302] '' @ w"
  "what (type_error 306 w) = ''[json.exception.type_error.306] '' @ w"
  by (simp_all add: type_error_def exn_name_def error_numbers)

definition field_error :: "(string \<times> json) list \<Rightarrow> string \<Rightarrow> string" where
  "field_error m f = ''[json.exception.type_error.302] type must be '' @ field_word f @ '', but is '' @ type_name (the (map_of m f))"

text \<open>The conversions on the values that they admit, and on the others.\<close>

definition converts :: "string \<Rightarrow> (json \<Rightarrow> std_exn + 'a) \<Rightarrow> (json \<Rightarrow> 'a) \<Rightarrow> json \<Rightarrow> bool" where
  "converts f conv content v \<longleftrightarrow> conv v = (if field_admits f v then Inr (content v)
     else Inl (type_error 302 (''type must be '' @ field_word f @ '', but is '' @ type_name v)))"

lemma conversions:
  "f \<in> {''type'', ''key'', ''value'', ''error''} \<Longrightarrow> converts f get_str text_of v"
  "f \<in> {''node_id'', ''term''} \<Longrightarrow> converts f get_int (int_of 32) v"
  "json_ok v \<Longrightarrow> converts ''timestamp'' get_arithmetic_value (int_of 64) v"
  "converts ''success'' get_boolean bool_of v"
  by (cases v; auto simp: converts_def field_admits_def field_word_def is_number_def)+

lemma field_step:
  assumes "\<And>v. map_of m f = Some v \<Longrightarrow> converts f conv content v"
  shows "set_field (value_or conv f d (JObject m)) upd x = (if bad_field m f
    then Inl (type_error 302 (''type must be '' @ field_word f @ '', but is '' @ type_name (the (map_of m f))))
    else Inr (upd (field_or d content m f) x))"
  using assms by (auto simp: set_field_def bad_field_def field_or_def converts_def split: option.split)

lemma field_steps_read:
  assumes "json_ok (JObject m)"
  shows "case first_bad m of
      None \<Rightarrow> run_steps (field_steps (JObject m)) Message0 = (fields_read m field_order, None)
    | Some f \<Rightarrow> \<exists>e. run_steps (field_steps (JObject m)) Message0 = (fields_read m (takeWhile (\<lambda>g. g \<noteq> f) field_order), Some e) \<and>
        what e = field_error m f"
proof -
  have ok: "map_of m f = Some v \<Longrightarrow> json_ok v" for f v using assms by (force dest: map_of_SomeD)
  note steps = field_step [OF conversions(1)] field_step [OF conversions(2)]
    field_step [OF conversions(3) [OF ok]] field_step [OF conversions(4)]
  show ?thesis
    unfolding field_steps_def first_bad_def field_order_def
    by (simp add: steps fields_read_def Message0_def field_error_def type_errors del: value_or.simps)
qed

lemma get_str_text: "get_str y = (if is_text y then Inr (text_of y) else Inl (type_error 302 (''type must be string, but is '' @ type_name y)))"
  by (cases y) (simp_all add: is_text_def)

lemma pair_of_array:
  "pair_of (JArray xs) = (let a = (xs @ [JNull, JNull]) ! 0; b = (xs @ [JNull, JNull]) ! 1
     in sum_bind (get_str a) (\<lambda>k. sum_bind (get_str b) (\<lambda>v. Inr (k, v))))"
  by (cases xs rule: remdups_adj.cases) (auto simp: pair_of_def Let_def resize_def numeral_2_eq_2)

lemma is_pair_cases:
  "pair_of x = (if is_pair x then Inr (the_pair x) else Inl (pair_error x))"
proof (cases x)
  case (JArray xs)
  show ?thesis
    unfolding JArray pair_of_array pair_error_def not_text_error_def get_str_text
    by (cases xs rule: remdups_adj.cases) (auto simp: is_text_def Let_def numeral_2_eq_2 split: json.splits)
qed (simp_all add: pair_of_def pair_error_def not_text_error_def resize_def is_text_def numeral_2_eq_2)

lemma pair_steps_read:
  "run_steps (map pair_step xs) r = (r\<lparr>m_kv_pairs := m_kv_pairs r @ map the_pair (takeWhile is_pair xs)\<rparr>,
     if list_all is_pair xs then None else Some (pair_error (hd (dropWhile is_pair xs))))"
  by (induction xs arbitrary: r) (simp_all add: pair_step_def set_field_def is_pair_cases)

lemma pairs_steps_elements: "pairs_steps (JObject m) = map pair_step (pair_elements m)"
  by (auto simp: pairs_steps_def pair_elements_def split: option.split)

lemma not_object_steps:
  assumes "\<nexists>m. j = JObject m"
  shows "run_steps (field_steps j @ pairs_steps j) Message0 = (Message0, Some (type_error 306 (''cannot use value() with '' @ type_name j)))"
  using assms by (cases j) (simp_all add: field_steps_def set_field_def)

text \<open>C30: what is read from any line. A line that is not JSON gives a message of type \<open>UNKNOWN\<close> with the text
  of the exception and default values elsewhere, and so does a JSON value that is not an object.
  For an object whose fields do not all have their types, the fields before the first bad one, in
  the order of the source, are read, the later ones keep their defaults, the type is \<open>UNKNOWN\<close> and
  the error text names the expected and the actual type of the bad field. Otherwise every field
  has its value or its default, and the pairs are read up to the first element that is not an
  array starting with two strings, which again gives the type \<open>UNKNOWN\<close> and the text
  of the exception, with the two entries of an element converted from left to right. Nothing is thrown.\<close>

theorem line_read:
  "case json_parse s of
     Inl e \<Rightarrow> deserialize_message s = Message0\<lparr>m_error := ''parse error: '' @ what e\<rparr>
   | Inr (JObject m) \<Rightarrow> (case first_bad m of
         Some f \<Rightarrow> deserialize_message s = (fields_read m (takeWhile (\<lambda>g. g \<noteq> f) field_order))
           \<lparr>m_type := UNKNOWN, m_error := ''parse error: '' @ field_error m f\<rparr>
       | None \<Rightarrow> deserialize_message s = (let r = (fields_read m field_order)
             \<lparr>m_kv_pairs := map the_pair (takeWhile is_pair (pair_elements m))\<rparr>
           in if list_all is_pair (pair_elements m) then r
              else r\<lparr>m_type := UNKNOWN,
                m_error := ''parse error: '' @ what (pair_error (hd (dropWhile is_pair (pair_elements m))))\<rparr>))
   | Inr j \<Rightarrow> deserialize_message s =
       Message0\<lparr>m_error := ''parse error: [json.exception.type_error.306] cannot use value() with '' @ type_name j\<rparr>"
proof (cases "json_parse s")
  case (Inl e)
  then show ?thesis by (simp add: deserialize_message_def parse_failed_def Message0_def)
next
  case (Inr j)
  show ?thesis
  proof (cases "\<exists>m. j = JObject m")
    case True
    then obtain m where j: "j = JObject m" by blast
    have F: "case first_bad m of
      None \<Rightarrow> run_steps (field_steps (JObject m)) Message0 = (fields_read m field_order, None)
    | Some f \<Rightarrow> \<exists>e. run_steps (field_steps (JObject m)) Message0 = (fields_read m (takeWhile (\<lambda>g. g \<noteq> f) field_order), Some e) \<and>
        what e = field_error m f"
      using field_steps_read parse_ok [OF Inr] unfolding j by blast
    have kv: "m_kv_pairs (fields_read m fs) = []" for fs by (simp add: fields_read_def)
    show ?thesis
    proof (cases "first_bad m")
      case None
      have "run_steps (map pair_step (pair_elements m)) (fields_read m field_order) =
          ((fields_read m field_order)\<lparr>m_kv_pairs := map the_pair (takeWhile is_pair (pair_elements m))\<rparr>,
           if list_all is_pair (pair_elements m) then None else Some (pair_error (hd (dropWhile is_pair (pair_elements m)))))"
        by (simp add: pair_steps_read kv)
      with None F Inr j show ?thesis
        by (auto simp: deserialize_message_def run_steps_append pairs_steps_elements parse_failed_def Let_def)
    next
      case (Some f)
      with F Inr j show ?thesis
        by (auto simp: deserialize_message_def run_steps_append parse_failed_def)
    qed
  next
    case False
    with Inr not_object_steps [of j] have "deserialize_message s =
        Message0\<lparr>m_error := ''parse error: [json.exception.type_error.306] cannot use value() with '' @ type_name j\<rparr>"
      by (auto simp: deserialize_message_def parse_failed_def type_errors Message0_def)
    with False Inr show ?thesis by (cases j) auto
  qed
qed

end
