(* ===== verification/System.thy ===== *)
theory System
  imports Message_Codec
begin

text \<open>
  What the node sees of the operating system, and how the model writes code with effects. The
  record \<open>env\<close> is the environment: what each system call returns, as a function of the number of
  calls made before, the clock, and the order in which \<^verbatim>\<open>std::unordered_map\<close> hands out its
  entries. It is an argument of every definition that calls the system, and the theorems hold
  for all environments. The record \<open>sys\<close> is what the process did so far: the open sockets, the
  bytes written, the lines logged and the threads started. The state of the node extends it.

  Code that may throw, that may wait forever and that changes the state is a function from the
  state to \<open>None\<close> (it does not return) or to the result, an exception or a value, and the new
  state.
\<close>

section \<open>The environment\<close>

record env =
  env_clock :: "nat \<Rightarrow> int"
  env_socket :: "nat \<Rightarrow> int"
  env_resolve :: "nat \<Rightarrow> string \<Rightarrow> int option"
  env_connect :: "nat \<Rightarrow> int \<Rightarrow> int \<Rightarrow> int \<Rightarrow> bool"
  env_send :: "nat \<Rightarrow> int \<Rightarrow> string \<Rightarrow> int"
  env_recv :: "nat \<Rightarrow> int \<Rightarrow> char option"
  env_bind :: "nat \<Rightarrow> int \<Rightarrow> int \<Rightarrow> bool"
  env_listen :: "nat \<Rightarrow> int \<Rightarrow> bool"
  env_accept :: "nat \<Rightarrow> int \<Rightarrow> int"
  env_walk :: "(string \<times> string) list \<Rightarrow> (string \<times> string) list"
  env_walk_seen :: "(int \<times> int) list \<Rightarrow> (int \<times> int) list"
  env_float :: "double \<Rightarrow> string"

text \<open>The threads that the node starts and does not wait for.\<close>

datatype task =
    Task_send_and_forget string int Message
  | Task_trigger_election
  | Task_election_timeout int
  | Task_handle_connection int
  | Task_sync "NodeInfo list"

record sys =
  sys_calls :: nat
  sys_open :: "int list"
  sys_timeouts :: "(int \<times> int \<times> int) list"
  sys_sent :: "(int \<times> string) list"
  sys_log :: "(LogLevel \<times> string) list"
  sys_tasks :: "task list"

definition sys0 :: sys where
  "sys0 = \<lparr>sys_calls = 0, sys_open = [], sys_timeouts = [], sys_sent = [], sys_log = [], sys_tasks = []\<rparr>"

section \<open>Effects\<close>

type_synonym ('s, 'a) io = "'s \<Rightarrow> ((std_exn + 'a) \<times> 's) option"

definition io_return :: "'a \<Rightarrow> ('s, 'a) io" where
  "io_return a s = Some (Inr a, s)"

definition io_throw :: "std_exn \<Rightarrow> ('s, 'a) io" where
  "io_throw e s = Some (Inl e, s)"

definition io_bind :: "('s, 'a) io \<Rightarrow> ('a \<Rightarrow> ('s, 'b) io) \<Rightarrow> ('s, 'b) io" where
  "io_bind m f s = (case m s of None \<Rightarrow> None
     | Some (r, s') \<Rightarrow> (case r of Inl e \<Rightarrow> Some (Inl e, s') | Inr a \<Rightarrow> f a s'))"

definition io_then :: "('s, 'a) io \<Rightarrow> ('s, 'b) io \<Rightarrow> ('s, 'b) io" where
  "io_then m k = io_bind m (\<lambda>_. k)"

definition io_catch :: "('s, 'a) io \<Rightarrow> (std_exn \<Rightarrow> ('s, 'a) io) \<Rightarrow> ('s, 'a) io" where
  "io_catch m h s = (case m s of None \<Rightarrow> None
     | Some (r, s') \<Rightarrow> (case r of Inl e \<Rightarrow> h e s' | Inr a \<Rightarrow> Some (Inr a, s')))"

definition io_gets :: "('s \<Rightarrow> 'a) \<Rightarrow> ('s, 'a) io" where
  "io_gets f s = Some (Inr (f s), s)"

definition io_modify :: "('s \<Rightarrow> 's) \<Rightarrow> ('s, unit) io" where
  "io_modify f s = Some (Inr (), f s)"

text \<open>A computation that may throw and touches no state.\<close>

definition io_sum :: "std_exn + 'a \<Rightarrow> ('s, 'a) io" where
  "io_sum r s = Some (r, s)"

text \<open>A loop over a list for its effects.\<close>

fun io_for :: "'a list \<Rightarrow> ('a \<Rightarrow> ('s, unit) io) \<Rightarrow> ('s, unit) io" where
  "io_for [] f = io_return ()"
| "io_for (x # xs) f = io_then (f x) (io_for xs f)"

lemma io_simps [simp]:
  "io_return a s = Some (Inr a, s)" "io_throw e s = Some (Inl e, s)" "io_gets f s = Some (Inr (f s), s)"
  "io_modify g s = Some (Inr (), g s)" "io_sum r s = Some (r, s)"
  by (simp_all add: io_return_def io_throw_def io_gets_def io_modify_def io_sum_def)

lemma io_bind_simps [simp]:
  "m s = None \<Longrightarrow> io_bind m f s = None"
  "m s = Some (Inl e, s') \<Longrightarrow> io_bind m f s = Some (Inl e, s')"
  "m s = Some (Inr a, s') \<Longrightarrow> io_bind m f s = f a s'"
  by (simp_all add: io_bind_def)

lemma io_then_simps [simp]:
  "m s = None \<Longrightarrow> io_then m k s = None"
  "m s = Some (Inl e, s') \<Longrightarrow> io_then m k s = Some (Inl e, s')"
  "m s = Some (Inr a, s') \<Longrightarrow> io_then m k s = k s'"
  by (simp_all add: io_then_def)

lemma io_catch_simps [simp]:
  "m s = None \<Longrightarrow> io_catch m h s = None"
  "m s = Some (Inl e, s') \<Longrightarrow> io_catch m h s = h e s'"
  "m s = Some (Inr a, s') \<Longrightarrow> io_catch m h s = Some (Inr a, s')"
  by (simp_all add: io_catch_def)

text \<open>A sequence that returned a value: so did both its parts.\<close>

lemma io_bind_InrE:
  assumes "io_bind m f s = Some (Inr b, s')"
  obtains a t where "m s = Some (Inr a, t)" "f a t = Some (Inr b, s')"
  using assms that by (auto simp: io_bind_def split: option.splits sum.splits)

lemma io_then_InrE:
  assumes "io_then m k s = Some (Inr b, s')"
  obtains a t where "m s = Some (Inr a, t)" "k t = Some (Inr b, s')"
  using io_bind_InrE [OF assms [unfolded io_then_def]] that .

text \<open>
  A property of the state, relative to the state before, that a computation keeps on every
  outcome: the frame conditions of the components are instances.
\<close>

definition io_keeps :: "('s \<Rightarrow> 's \<Rightarrow> bool) \<Rightarrow> ('s, 'a) io \<Rightarrow> bool" where
  "io_keeps P m \<longleftrightarrow> (\<forall>s r s'. m s = Some (r, s') \<longrightarrow> P s s')"

lemma io_keepsD: "io_keeps P m \<Longrightarrow> m s = Some (r, s') \<Longrightarrow> P s s'"
  by (auto simp: io_keeps_def)

lemma keeps_if: "(b \<Longrightarrow> io_keeps R m) \<Longrightarrow> (\<not> b \<Longrightarrow> io_keeps R k) \<Longrightarrow> io_keeps R (if b then m else k)"
  by simp

lemma keeps_option: "(x = None \<Longrightarrow> io_keeps R m) \<Longrightarrow> (\<And>a. x = Some a \<Longrightarrow> io_keeps R (f a)) \<Longrightarrow>
    io_keeps R (case x of None \<Rightarrow> m | Some a \<Rightarrow> f a)"
  by (cases x) auto

lemma keeps_gets: "(\<And>s. io_keeps R (f (g s))) \<Longrightarrow> io_keeps R (io_bind (io_gets g) f)"
  by (simp add: io_keeps_def)

text \<open>The relation between states is reflexive and transitive: it holds over any sequence of steps.\<close>

locale io_frame =
  fixes R :: "'s \<Rightarrow> 's \<Rightarrow> bool"
  assumes frame_refl: "R s s" and frame_trans: "R s t \<Longrightarrow> R t u \<Longrightarrow> R s u"
begin

lemma keeps_pure [simp, intro]: "io_keeps R (io_return a)" "io_keeps R (io_throw e)" "io_keeps R (io_gets f)"
  "io_keeps R (io_sum r)"
  by (simp_all add: io_keeps_def frame_refl)

lemma keeps_modify: "(\<And>s. R s (g s)) \<Longrightarrow> io_keeps R (io_modify g)"
  by (simp add: io_keeps_def)

lemma keeps_bind:
  assumes "io_keeps R m" "\<And>a. io_keeps R (f a)"
  shows "io_keeps R (io_bind m f)"
  unfolding io_keeps_def
proof (intro allI impI)
  fix s r s' assume b: "io_bind m f s = Some (r, s')"
  then obtain q t where m: "m s = Some (q, t)"
    by (auto simp: io_bind_def split: option.splits)
  show "R s s'"
  proof (cases q)
    case (Inl e)
    with b m io_keepsD [OF assms(1) m] show ?thesis by simp
  next
    case (Inr a)
    with b m have "f a t = Some (r, s')" by simp
    with io_keepsD [OF assms(1) m] io_keepsD [OF assms(2)] frame_trans show ?thesis by blast
  qed
qed

lemma keeps_then: "io_keeps R m \<Longrightarrow> io_keeps R k \<Longrightarrow> io_keeps R (io_then m k)"
  unfolding io_then_def by (rule keeps_bind)

lemma keeps_catch:
  assumes "io_keeps R m" "\<And>e. io_keeps R (h e)"
  shows "io_keeps R (io_catch m h)"
  unfolding io_keeps_def
proof (intro allI impI)
  fix s r s' assume b: "io_catch m h s = Some (r, s')"
  then obtain q t where m: "m s = Some (q, t)"
    by (auto simp: io_catch_def split: option.splits)
  show "R s s'"
  proof (cases q)
    case (Inl e)
    with b m have "h e t = Some (r, s')" by simp
    with io_keepsD [OF assms(1) m] io_keepsD [OF assms(2)] frame_trans show ?thesis by blast
  next
    case (Inr a)
    with b m io_keepsD [OF assms(1) m] show ?thesis by simp
  qed
qed

lemma keeps_for: "(\<And>x. io_keeps R (f x)) \<Longrightarrow> io_keeps R (io_for xs f)"
  by (induction xs) (auto intro: keeps_then)

lemmas keeps_rules = keeps_bind keeps_then keeps_catch keeps_modify keeps_for keeps_if keeps_option

end

text \<open>A computation that never throws.\<close>

definition io_safe :: "('s, 'a) io \<Rightarrow> bool" where
  "io_safe m \<longleftrightarrow> (\<forall>s r s'. m s = Some (r, s') \<longrightarrow> (\<exists>a. r = Inr a))"

lemma io_safeD: "io_safe m \<Longrightarrow> m s = Some (r, s') \<Longrightarrow> \<exists>a. r = Inr a"
  by (auto simp: io_safe_def)

lemma safe_bindE:
  assumes "io_safe m" "io_bind m f s = Some (r, s')"
  obtains a t where "m s = Some (Inr a, t)" "f a t = Some (r, s')"
proof -
  obtain q t where m: "m s = Some (q, t)"
    using assms(2) by (auto simp: io_bind_def split: option.splits)
  with io_safeD [OF assms(1) m] assms(2) that show thesis by auto
qed

lemma safe_thenE:
  assumes "io_safe m" "io_then m k s = Some (r, s')"
  obtains a t where "m s = Some (Inr a, t)" "k t = Some (r, s')"
  using safe_bindE [OF assms(1) assms(2) [unfolded io_then_def]] that .

lemma safe_pure [simp, intro]: "io_safe (io_return a)" "io_safe (io_gets f)" "io_safe (io_modify g)"
  by (simp_all add: io_safe_def)

lemma safe_bind: "io_safe m \<Longrightarrow> (\<And>a. io_safe (f a)) \<Longrightarrow> io_safe (io_bind m f)"
  unfolding io_safe_def io_bind_def by (fastforce split: option.splits sum.splits)

lemma safe_if: "(b \<Longrightarrow> io_safe m) \<Longrightarrow> (\<not> b \<Longrightarrow> io_safe k) \<Longrightarrow> io_safe (if b then m else k)"
  by simp

lemma safe_option: "(x = None \<Longrightarrow> io_safe m) \<Longrightarrow> (\<And>a. x = Some a \<Longrightarrow> io_safe (f a)) \<Longrightarrow>
    io_safe (case x of None \<Rightarrow> m | Some a \<Rightarrow> f a)"
  by (cases x) auto

lemma safe_gets: "(\<And>s. io_safe (f (g s))) \<Longrightarrow> io_safe (io_bind (io_gets g) f)"
  by (simp add: io_safe_def)

lemma safe_then: "io_safe m \<Longrightarrow> io_safe k \<Longrightarrow> io_safe (io_then m k)"
  unfolding io_then_def by (rule safe_bind)

lemma safe_for: "(\<And>x. io_safe (f x)) \<Longrightarrow> io_safe (io_for xs f)"
  by (induction xs) (auto intro: safe_then)

lemma safe_catch: "(\<And>e. io_safe (h e)) \<Longrightarrow> io_safe (io_catch m h)"
  unfolding io_safe_def io_catch_def by (fastforce split: option.splits sum.splits)

lemmas safe_rules = safe_bind safe_then safe_for safe_if safe_option

text \<open>A loop whose body only changes the state.\<close>

lemma io_for_modify: "(\<And>x s. f x s = Some (Inr (), g x s)) \<Longrightarrow> io_for xs f s = Some (Inr (), fold g xs s)"
  by (induction xs arbitrary: s) simp_all

section \<open>System calls, log and threads\<close>

definition sys_call :: "(nat \<Rightarrow> 'a) \<Rightarrow> ('z sys_scheme, 'a) io" where
  "sys_call f s = Some (Inr (f (sys_calls s)), s\<lparr>sys_calls := Suc (sys_calls s)\<rparr>)"

definition now_ms :: "env \<Rightarrow> ('z sys_scheme, int) io" where
  "now_ms en = sys_call (env_clock en)"

text \<open>The log holds every call of the logger; the minimum level only selects which of them are printed.\<close>

definition io_log :: "LogLevel \<Rightarrow> string \<Rightarrow> ('z sys_scheme, unit) io" where
  "io_log lvl msg = io_modify (\<lambda>s. s\<lparr>sys_log := sys_log s @ [(lvl, msg)]\<rparr>)"

text \<open>Starting a thread succeeds: the exception of \<^verbatim>\<open>std::thread\<close> when the system has no more threads is left out.\<close>

definition spawn :: "task \<Rightarrow> ('z sys_scheme, unit) io" where
  "spawn t = io_modify (\<lambda>s. s\<lparr>sys_tasks := sys_tasks s @ [t]\<rparr>)"

definition close_sock :: "int \<Rightarrow> ('z sys_scheme, unit) io" where
  "close_sock fd = io_modify (\<lambda>s. s\<lparr>sys_open := remove1 fd (sys_open s)\<rparr>)"

lemma sys_effects [simp]:
  "sys_call f s = Some (Inr (f (sys_calls s)), s\<lparr>sys_calls := Suc (sys_calls s)\<rparr>)"
  "io_log lvl msg s = Some (Inr (), s\<lparr>sys_log := sys_log s @ [(lvl, msg)]\<rparr>)"
  "spawn t s = Some (Inr (), s\<lparr>sys_tasks := sys_tasks s @ [t]\<rparr>)"
  "close_sock fd s = Some (Inr (), s\<lparr>sys_open := remove1 fd (sys_open s)\<rparr>)"
  by (simp_all add: sys_call_def io_log_def spawn_def close_sock_def)

lemma safe_sys [simp, intro]:
  "io_safe (sys_call f)" "io_safe (now_ms en)" "io_safe (io_log lvl msg)" "io_safe (spawn t)" "io_safe (close_sock fd)"
  by (simp_all add: io_safe_def now_ms_def)

text \<open>The part of the state that is not the system's: what a system call leaves alone.\<close>

definition same_more :: "'z sys_scheme \<Rightarrow> 'z sys_scheme \<Rightarrow> bool" where
  "same_more s s' \<longleftrightarrow> sys.more s' = sys.more s"

interpretation more: io_frame same_more
  by unfold_locales (simp_all add: same_more_def)

lemma more_sys [simp, intro]:
  "io_keeps same_more (sys_call f)" "io_keeps same_more (now_ms en)" "io_keeps same_more (io_log lvl msg)"
  "io_keeps same_more (spawn t)" "io_keeps same_more (close_sock fd)"
  by (auto simp: io_keeps_def same_more_def now_ms_def)

end
