(* ===== verification/Tcp_Client.thy ===== *)
theory Tcp_Client
  imports System
begin

text \<open>
  \<^verbatim>\<open>include/tcp_client.h\<close>: a connection per message. \<open>make_connection\<close> opens a socket, sets its
  timeouts, resolves the host and connects; \<open>send_message\<close> writes a line and reads the reply up
  to a line end; \<open>send_and_forget\<close> writes once and closes. The lemmas show which bytes are
  written, that a reply is read back whole, and that every path closes the socket, except the
  one on which the message cannot be serialized.
\<close>

section \<open>The loops over send and recv\<close>

text \<open>The flag says whether everything was written.\<close>

function send_loop :: "env \<Rightarrow> int \<Rightarrow> string \<Rightarrow> nat \<Rightarrow> 'z sys_scheme \<Rightarrow> bool \<times> 'z sys_scheme" where
  "send_loop en fd data tot s = (if length data \<le> tot then (True, s)
     else let sent = env_send en (sys_calls s) fd (drop tot data);
              s = s\<lparr>sys_calls := Suc (sys_calls s)\<rparr>
          in if sent \<le> 0 then (False, s)
             else send_loop en fd data (tot + nat sent)
               (s\<lparr>sys_sent := sys_sent s @ [(fd, take (nat sent) (drop tot data))]\<rparr>))"
  by pat_completeness auto
termination
  by (relation "measure (\<lambda>(en, fd, data, tot, s). length data - tot)") auto

declare send_loop.simps [simp del]

text \<open>A byte at a time up to a line end, the end of the stream or an error: \<open>None\<close> is \<^verbatim>\<open>n <= 0\<close>.\<close>

partial_function (option) recv_loop ::
    "env \<Rightarrow> int \<Rightarrow> string \<Rightarrow> 'z sys_scheme \<Rightarrow> (string \<times> 'z sys_scheme) option" where
  "recv_loop en fd buf s =
    (let s' = s\<lparr>sys_calls := Suc (sys_calls s)\<rparr>
     in case env_recv en (sys_calls s) fd of
         None \<Rightarrow> Some (buf, s')
       | Some c \<Rightarrow> if c = CHR 0x0A then Some (buf, s') else recv_loop en fd (buf @ [c]) s')"

definition io_send :: "env \<Rightarrow> int \<Rightarrow> string \<Rightarrow> ('z sys_scheme, bool) io" where
  "io_send en fd data s = (case send_loop en fd data 0 s of (ok, s') \<Rightarrow> Some (Inr ok, s'))"

definition io_recv :: "env \<Rightarrow> int \<Rightarrow> ('z sys_scheme, string) io" where
  "io_recv en fd s = (case recv_loop en fd [] s of None \<Rightarrow> None | Some (buf, s') \<Rightarrow> Some (Inr buf, s'))"

section \<open>Connections\<close>

abbreviation (input) INVALID_SOCK :: int where "INVALID_SOCK \<equiv> -1"

definition open_socket :: "env \<Rightarrow> ('z sys_scheme, int) io" where
  "open_socket en = io_bind (sys_call (env_socket en)) (\<lambda>fd.
     io_then (io_modify (\<lambda>s. if fd = INVALID_SOCK then s else s\<lparr>sys_open := fd # sys_open s\<rparr>))
     (io_return fd))"

definition set_timeouts :: "int \<Rightarrow> int \<Rightarrow> ('z sys_scheme, unit) io" where
  "set_timeouts fd timeout_ms = io_modify (\<lambda>s. s\<lparr>sys_timeouts := sys_timeouts s
     @ [(fd, timeout_ms div 1000, (timeout_ms mod 1000) * 1000)]\<rparr>)"

text \<open>The port is cut to 16 bits.\<close>

definition make_connection :: "env \<Rightarrow> string \<Rightarrow> int \<Rightarrow> int \<Rightarrow> ('z sys_scheme, int) io" where
  "make_connection en host port timeout_ms =
    io_bind (open_socket en) (\<lambda>fd.
      if fd = INVALID_SOCK then io_return INVALID_SOCK
      else io_then (set_timeouts fd timeout_ms)
        (io_bind (sys_call (\<lambda>k. env_resolve en k host)) (\<lambda>res.
          case res of
            None \<Rightarrow> io_then (close_sock fd) (io_return INVALID_SOCK)
          | Some ip \<Rightarrow> io_bind (sys_call (\<lambda>k. env_connect en k fd ip (port mod 65536))) (\<lambda>ok.
              if \<not> ok then io_then (close_sock fd) (io_return INVALID_SOCK) else io_return fd))))"

definition send_message :: "env \<Rightarrow> string \<Rightarrow> int \<Rightarrow> Message \<Rightarrow> ('z sys_scheme, Message option) io" where
  "send_message en host port msg =
    io_bind (make_connection en host port 2000) (\<lambda>fd.
      if fd = INVALID_SOCK then
        io_then (io_log WRN (''send_message: cannot connect to '' @ host @ '':'' @ to_string port))
          (io_return None)
      else io_bind (io_sum (serialize_message (env_float en) msg)) (\<lambda>data.
        io_bind (io_send en fd data) (\<lambda>ok.
          if \<not> ok then io_then (close_sock fd) (io_return None)
          else io_bind (io_recv en fd) (\<lambda>reply.
            io_then (close_sock fd)
              (io_return (if reply = [] then None else Some (deserialize_message reply)))))))"

definition send_once :: "env \<Rightarrow> int \<Rightarrow> string \<Rightarrow> ('z sys_scheme, unit) io" where
  "send_once en fd data = io_bind (sys_call (\<lambda>k. env_send en k fd data)) (\<lambda>sent.
     io_modify (\<lambda>s. s\<lparr>sys_sent := sys_sent s @ [(fd, take (nat sent) data)]\<rparr>))"

definition send_and_forget :: "env \<Rightarrow> string \<Rightarrow> int \<Rightarrow> Message \<Rightarrow> ('z sys_scheme, unit) io" where
  "send_and_forget en host port msg =
    io_bind (make_connection en host port 1000) (\<lambda>fd.
      if fd = INVALID_SOCK then io_return ()
      else io_bind (io_sum (serialize_message (env_float en) msg)) (\<lambda>data.
        io_then (send_once en fd data) (close_sock fd)))"

section \<open>What is written\<close>

text \<open>The bytes written to a socket, in order.\<close>

definition written :: "int \<Rightarrow> 'z sys_scheme \<Rightarrow> string" where
  "written fd s = concat (map snd (filter (\<lambda>c. fst c = fd) (sys_sent s)))"

lemma written_upd [simp]:
  "written fd (s\<lparr>sys_calls := k\<rparr>) = written fd s" "written fd (s\<lparr>sys_open := os\<rparr>) = written fd s"
  "written fd (s\<lparr>sys_log := l\<rparr>) = written fd s" "written fd (s\<lparr>sys_tasks := ts\<rparr>) = written fd s"
  "written fd (s\<lparr>sys_timeouts := tm\<rparr>) = written fd s"
  "written fd (s\<lparr>sys_sent := sys_sent s @ [(fd', b)]\<rparr>) = written fd s @ (if fd' = fd then b else [])"
  by (simp_all add: written_def)

text \<open>
  What the documentation of \<^verbatim>\<open>send\<close> says: it accepts at most the bytes it was given. A connection
  that works accepts at least one.
\<close>

definition send_bounded :: "env \<Rightarrow> bool" where
  "send_bounded en \<longleftrightarrow> (\<forall>k fd data. env_send en k fd data \<le> int (length data))"

definition send_works :: "env \<Rightarrow> int \<Rightarrow> bool" where
  "send_works en fd \<longleftrightarrow> (\<forall>k data. data \<noteq> [] \<longrightarrow> 0 < env_send en k fd data)"

text \<open>A prefix of the data is written, and all of it when the loop says so.\<close>

lemma send_loop_written:
  "send_bounded en \<Longrightarrow> tot \<le> length data \<Longrightarrow> send_loop en fd data tot s = (ok, s') \<Longrightarrow>
    \<exists>n. n \<le> length data - tot \<and> written fd s' = written fd s @ take n (drop tot data) \<and>
      (ok \<longleftrightarrow> n = length data - tot) \<and> (send_works en fd \<longrightarrow> ok)"
proof (induction en fd data tot s rule: send_loop.induct)
  case (1 en fd data tot s)
  define sent where "sent = env_send en (sys_calls s) fd (drop tot data)"
  define s1 where "s1 = s\<lparr>sys_calls := Suc (sys_calls s)\<rparr>"
  define s2 where "s2 = s1\<lparr>sys_sent := sys_sent s1 @ [(fd, take (nat sent) (drop tot data))]\<rparr>"
  have loop: "send_loop en fd data tot s = (if length data \<le> tot then (True, s)
      else if sent \<le> 0 then (False, s1) else send_loop en fd data (tot + nat sent) s2)"
    by (subst send_loop.simps) (simp add: Let_def sent_def s1_def s2_def)
  have b: "sent \<le> int (length data - tot)"
    using "1.prems"(1) unfolding send_bounded_def sent_def by (metis length_drop)
  consider (all) "length data \<le> tot" | (stop) "tot < length data" "sent \<le> 0"
    | (more) "tot < length data" "0 < sent" by linarith
  then show ?case
  proof cases
    case all
    with loop "1.prems" show ?thesis by (intro exI [of _ 0]) auto
  next
    case stop
    then have "\<not> send_works en fd"
      unfolding send_works_def sent_def by (metis drop_eq_Nil leD)
    with stop loop "1.prems" show ?thesis by (intro exI [of _ 0]) (auto simp: s1_def)
  next
    case more
    then have "send_loop en fd data (tot + nat sent) s2 = (ok, s')" using loop "1.prems" by simp
    moreover have "tot + nat sent \<le> length data" using b more by linarith
    ultimately obtain n where n: "n \<le> length data - (tot + nat sent)"
      "written fd s' = written fd s2 @ take n (drop (tot + nat sent) data)"
      "ok \<longleftrightarrow> n = length data - (tot + nat sent)" "send_works en fd \<longrightarrow> ok"
      using "1.IH" [OF _ sent_def s1_def] "1.prems"(1) more s2_def by auto
    have "written fd s2 = written fd s @ take (nat sent) (drop tot data)"
      by (simp add: s2_def s1_def written_def)
    with n have "written fd s' = written fd s @ take (nat sent + n) (drop tot data)"
      by (subst take_add) (simp add: add.commute)
    with n more b show ?thesis by (intro exI [of _ "nat sent + n"]) auto
  qed
qed

text \<open>The loop touches nothing else.\<close>

lemma send_loop_frame:
  "send_loop en fd data tot s = (ok, s') \<Longrightarrow> sys_open s' = sys_open s \<and> sys_tasks s' = sys_tasks s \<and>
    sys_log s' = sys_log s \<and> same_more s s' \<and> (\<forall>fd'. fd' \<noteq> fd \<longrightarrow> written fd' s' = written fd' s)"
proof (induction en fd data tot s rule: send_loop.induct)
  case (1 en fd data tot s)
  note loop = "1.prems" [unfolded send_loop.simps [of en fd data tot s]]
  show ?case
    using "1.IH" [OF _ refl refl] loop
    by (auto simp: Let_def same_more_def written_def split: if_splits)
qed

section \<open>What is read\<close>

text \<open>The bytes from call \<open>k\<close> on are \<open>str\<close>.\<close>

definition stream_at :: "env \<Rightarrow> int \<Rightarrow> nat \<Rightarrow> string \<Rightarrow> bool" where
  "stream_at en fd k str \<longleftrightarrow> (\<forall>i < length str. env_recv en (k + i) fd = Some (str ! i))"

lemma stream_at_Cons: "stream_at en fd k (c # str) \<longleftrightarrow> env_recv en k fd = Some c \<and> stream_at en fd (Suc k) str"
  by (auto simp: stream_at_def All_less_Suc2 less_Suc_eq_0_disj)

lemma recv_loop_line:
  "stream_at en fd (sys_calls s) (line @ [CHR 0x0A]) \<Longrightarrow> CHR 0x0A \<notin> set line \<Longrightarrow>
   recv_loop en fd buf s = Some (buf @ line, s\<lparr>sys_calls := sys_calls s + Suc (length line)\<rparr>)"
proof (induction line arbitrary: buf s)
  case Nil
  then show ?case by (subst recv_loop.simps) (simp add: stream_at_Cons Let_def)
next
  case (Cons c line)
  let ?s = "s\<lparr>sys_calls := Suc (sys_calls s)\<rparr>"
  have "recv_loop en fd (buf @ [c]) ?s = Some ((buf @ [c]) @ line, ?s\<lparr>sys_calls := sys_calls ?s + Suc (length line)\<rparr>)"
    using Cons by (intro Cons.IH) (simp_all add: stream_at_Cons)
  with Cons.prems show ?case
    by (subst recv_loop.simps) (auto simp: stream_at_Cons Let_def)
qed

text \<open>The call at which the loop stops, if it does.\<close>

definition stops_at :: "env \<Rightarrow> int \<Rightarrow> nat \<Rightarrow> bool" where
  "stops_at en fd k \<longleftrightarrow> env_recv en k fd = None \<or> env_recv en k fd = Some (CHR 0x0A)"

lemma recv_loop_stops:
  "stops_at en fd (sys_calls s + n) \<Longrightarrow> \<exists>r s'. recv_loop en fd buf s = Some (r, s')"
proof (induction n arbitrary: s buf)
  case 0
  then show ?case by (subst recv_loop.simps) (auto simp: stops_at_def Let_def)
next
  case (Suc n)
  show ?case
    using Suc.IH [of "s\<lparr>sys_calls := Suc (sys_calls s)\<rparr>"] Suc.prems
    by (subst recv_loop.simps) (auto simp: Let_def split: option.splits)
qed

lemma recv_loop_frame:
  assumes ret: "recv_loop en fd buf s = Some p"
  shows "\<exists>n. snd p = s\<lparr>sys_calls := sys_calls s + Suc n\<rparr> \<and> stops_at en fd (sys_calls s + n)"
proof (rule recv_loop.raw_induct [where P = "\<lambda>en fd buf s p.
      \<exists>n. snd p = s\<lparr>sys_calls := sys_calls s + Suc n\<rparr> \<and> stops_at en fd (sys_calls s + n)", OF _ ret])
  fix f :: "env \<Rightarrow> int \<Rightarrow> string \<Rightarrow> 'a sys_scheme \<Rightarrow> (string \<times> 'a sys_scheme) option"
    and en fd buf and s :: "'a sys_scheme" and p
  let ?s = "s\<lparr>sys_calls := Suc (sys_calls s)\<rparr>"
  assume IH: "\<And>en fd buf s p. f en fd buf s = Some p \<Longrightarrow>
      \<exists>n. snd p = s\<lparr>sys_calls := sys_calls s + Suc n\<rparr> \<and> stops_at en fd (sys_calls s + n)"
    and step: "(let s' = ?s in case env_recv en (sys_calls s) fd of
        None \<Rightarrow> Some (buf, s') | Some c \<Rightarrow> if c = CHR 0x0A then Some (buf, s') else f en fd (buf @ [c]) s') = Some p"
  show "\<exists>n. snd p = s\<lparr>sys_calls := sys_calls s + Suc n\<rparr> \<and> stops_at en fd (sys_calls s + n)"
  proof (cases "stops_at en fd (sys_calls s)")
    case True
    with step show ?thesis by (intro exI [of _ 0]) (auto simp: stops_at_def Let_def)
  next
    case False
    with step obtain c where "f en fd (buf @ [c]) ?s = Some p"
      by (auto simp: stops_at_def Let_def split: option.splits)
    from IH [OF this] obtain n where "snd p = ?s\<lparr>sys_calls := sys_calls ?s + Suc n\<rparr>" "stops_at en fd (sys_calls ?s + n)"
      by blast
    then show ?thesis by (intro exI [of _ "Suc n"]) simp
  qed
qed

lemma recv_loop_iff:
  "(\<exists>r. recv_loop en fd buf s = Some r) \<longleftrightarrow> (\<exists>n. stops_at en fd (sys_calls s + n))"
  using recv_loop_frame [of en fd buf s] recv_loop_stops [of en fd s _ buf] by blast

section \<open>The whole exchange\<close>

text \<open>A connection that is not made leaves no socket open, and one that is made leaves one.\<close>

lemma make_connection_result:
  obtains fd s' where "make_connection en host port timeout_ms s = Some (Inr fd, s')"
    "sys_open s' = (if fd = -1 then sys_open s else fd # sys_open s)" "sys_sent s' = sys_sent s"
    "sys_tasks s' = sys_tasks s" "sys_log s' = sys_log s" "same_more s s'"
proof -
  have "\<exists>fd s'. make_connection en host port timeout_ms s = Some (Inr fd, s') \<and>
    sys_open s' = (if fd = -1 then sys_open s else fd # sys_open s) \<and> sys_sent s' = sys_sent s \<and>
    sys_tasks s' = sys_tasks s \<and> sys_log s' = sys_log s \<and> same_more s s'"
    by (auto simp: make_connection_def open_socket_def set_timeouts_def io_bind_def io_then_def
        same_more_def split: option.split)
  then show thesis using that by blast
qed

lemma make_connection_sent:
  assumes "make_connection en host port timeout_ms s = Some (Inr fd, s1)"
  shows "sys_sent s1 = sys_sent s"
proof -
  obtain fd' s' where "make_connection en host port timeout_ms s = Some (Inr fd', s')" "sys_sent s' = sys_sent s"
    by (rule make_connection_result)
  with assms show ?thesis by simp
qed

lemma written_cong: "sys_sent s' = sys_sent s \<Longrightarrow> written fd s' = written fd s"
  by (simp add: written_def)

text \<open>What a call that returns leaves behind, and when it throws.\<close>

definition client_exit :: "Message \<Rightarrow> 'z sys_scheme \<Rightarrow> std_exn + 'a \<Rightarrow> 'z sys_scheme \<Rightarrow> bool" where
  "client_exit msg s r s' \<longleftrightarrow> same_more s s' \<and> sys_tasks s' = sys_tasks s \<and>
     (case r of Inr _ \<Rightarrow> sys_open s' = sys_open s
      | Inl e \<Rightarrow> is_utf8_error e \<and> \<not> texts_utf8 msg \<and> (\<exists>fd. sys_open s' = fd # sys_open s))"

lemma serialize_Inl:
  "serialize_message fl m = Inl e \<Longrightarrow> is_utf8_error e \<and> \<not> texts_utf8 m"
  using serialize_throws [of m fl] by (simp add: throws_unless_def)

text \<open>The code after the connection is made and the message is serialized.\<close>

abbreviation closed :: "int \<Rightarrow> 'z sys_scheme \<Rightarrow> 'z sys_scheme" where
  "closed fd s \<equiv> s\<lparr>sys_open := remove1 fd (sys_open s)\<rparr>"

lemma send_message_connected:
  assumes "make_connection en host port 2000 s = Some (Inr fd, s1)" "fd \<noteq> -1"
    "serialize_message (env_float en) msg = Inr data" "send_loop en fd data 0 s1 = (ok, s2)"
  shows "send_message en host port msg s = (if \<not> ok then Some (Inr None, closed fd s2)
    else (case recv_loop en fd [] s2 of None \<Rightarrow> None
      | Some (buf, s3) \<Rightarrow> Some (Inr (if buf = [] then None else Some (deserialize_message buf)), closed fd s3)))"
  using assms
  by (simp add: send_message_def io_bind_def io_then_def io_send_def io_recv_def split: option.split)

lemma send_message_exit:
  assumes "send_message en host port msg s = Some (r, s')"
  shows "client_exit msg s r s'"
proof -
  obtain fd s1 where c: "make_connection en host port 2000 s = Some (Inr fd, s1)"
    "sys_open s1 = (if fd = -1 then sys_open s else fd # sys_open s)"
    "sys_tasks s1 = sys_tasks s" "same_more s s1"
    by (rule make_connection_result)
  consider (refused) "fd = -1" | (thrown) e where "fd \<noteq> -1" "serialize_message (env_float en) msg = Inl e"
    | (sent) data where "fd \<noteq> -1" "serialize_message (env_float en) msg = Inr data"
    by (cases "serialize_message (env_float en) msg") auto
  then show ?thesis
  proof cases
    case refused
    with c assms show ?thesis
      by (auto simp: send_message_def client_exit_def same_more_def)
  next
    case thrown
    with c assms serialize_Inl [OF thrown(2)] show ?thesis
      by (auto simp: send_message_def client_exit_def)
  next
    case sent
    obtain ok s2 where l: "send_loop en fd data 0 s1 = (ok, s2)" by force
    have s2: "sys_open s2 = fd # sys_open s" "sys_tasks s2 = sys_tasks s" "same_more s s2"
      using send_loop_frame [OF l] c sent by (simp_all add: same_more_def)
    note eq = send_message_connected [OF c(1) sent l]
    have "client_exit msg s r (closed fd s2)" if "r = Inr x" for x
      using s2 that by (simp add: client_exit_def same_more_def)
    moreover have "client_exit msg s r (closed fd s3)"
      if "recv_loop en fd [] s2 = Some (buf, s3)" "r = Inr x" for buf s3 x
      using recv_loop_frame [OF that(1)] s2 that(2) by (auto simp: client_exit_def same_more_def)
    ultimately show ?thesis
      using assms unfolding eq by (auto split: if_splits option.splits)
  qed
qed

lemma send_message_safe:
  "texts_utf8 msg \<Longrightarrow> io_safe (send_message en host port msg :: ('a sys_scheme, Message option) io)"
  unfolding io_safe_def
proof (intro allI impI)
  fix s r and s' :: "'a sys_scheme"
  assume u: "texts_utf8 msg" and ret: "send_message en host port msg s = Some (r, s')"
  from send_message_exit [OF ret] u show "\<exists>a. r = Inr a"
    by (cases r) (simp_all add: client_exit_def)
qed

text \<open>A reply is the message read from some line.\<close>

lemma send_message_line:
  assumes "send_message en host port msg s = Some (Inr (Some m), s')"
  shows "\<exists>line. m = deserialize_message line"
  using assms unfolding send_message_def
  by (auto elim!: io_bind_InrE io_then_InrE split: if_splits) blast

lemma send_and_forget_exit:
  "\<exists>r s'. send_and_forget en host port msg s = Some (r, s') \<and> client_exit msg s r s'"
proof -
  obtain fd s1 where c: "make_connection en host port 1000 s = Some (Inr fd, s1)"
    "sys_open s1 = (if fd = -1 then sys_open s else fd # sys_open s)"
    "sys_tasks s1 = sys_tasks s" "same_more s s1"
    by (rule make_connection_result)
  show ?thesis
  proof (cases "serialize_message (env_float en) msg")
    case (Inl e)
    with c serialize_Inl [OF Inl] show ?thesis
      by (cases "fd = -1") (auto simp: send_and_forget_def client_exit_def)
  next
    case (Inr data)
    with c show ?thesis
      by (cases "fd = -1") (auto simp: send_and_forget_def client_exit_def send_once_def same_more_def)
  qed
qed

lemma send_message_reply:
  assumes con: "make_connection en host port 2000 s = Some (Inr fd, s1)" "fd \<noteq> -1"
    and snd: "send_bounded en" "send_works en fd" "serialize_message (env_float en) req = Inr t"
    and rcv: "message_ok resp" "serialize_message (env_float en) resp = Inr u"
      "stream_at en fd (sys_calls (snd (send_loop en fd t 0 s1))) u"
  shows "\<exists>s'. send_message en host port req s = Some (Inr (Some resp), s') \<and>
    written fd s' = written fd s @ t \<and> sys_open s' = sys_open s"
proof -
  obtain ok s2 where l: "send_loop en fd t 0 s1 = (ok, s2)" by force
  have w: "ok" "written fd s2 = written fd s1 @ t"
    using send_loop_written [OF snd(1) _ l] snd(2) by auto
  have w1: "written fd s1 = written fd s"
    using make_connection_sent [OF con(1)] by (rule written_cong)
  let ?line = "wire.line_of (env_float en) resp"
  have u: "u = ?line @ [CHR 0x0A]" and nl: "CHR 0x0A \<notin> set ?line" "?line \<noteq> []" "deserialize_message ?line = resp"
    using wire.line_of_ok [OF rcv(1), of "env_float en"] rcv(2) by simp_all
  have "recv_loop en fd [] s2 = Some ([] @ ?line, s2\<lparr>sys_calls := sys_calls s2 + Suc (length ?line)\<rparr>)"
    using rcv(3) nl(1) unfolding u l by (intro recv_loop_line) simp_all
  then have ret: "send_message en host port req s =
      Some (Inr (Some resp), closed fd (s2\<lparr>sys_calls := sys_calls s2 + Suc (length ?line)\<rparr>))"
    using send_message_connected [OF con snd(3) l] w(1) nl(2,3) by simp
  then show ?thesis
    using send_message_exit [OF ret] w w1 by (simp add: client_exit_def)
qed

section \<open>What a reply depends on\<close>

text \<open>The environment answers by the number of calls before: of the state, only this number matters.\<close>

definition io_blind :: "('z sys_scheme, 'a) io \<Rightarrow> bool" where
  "io_blind m \<longleftrightarrow> (\<forall>s t r s'. sys_calls t = sys_calls s \<longrightarrow> m s = Some (r, s') \<longrightarrow>
     (\<exists>t'. m t = Some (r, t') \<and> sys_calls t' = sys_calls s'))"

lemma io_blindE:
  assumes "io_blind m" "m s = Some (r, s')" "sys_calls t = sys_calls s"
  obtains t' where "m t = Some (r, t')" "sys_calls t' = sys_calls s'"
  using assms unfolding io_blind_def by blast

lemma blind_pure [simp, intro]: "io_blind (io_return a)" "io_blind (io_sum x)" "io_blind (sys_call f)" "io_blind (io_log lvl msg)"
  "io_blind (close_sock fd)"
  by (simp_all add: io_blind_def)

lemma blind_modify: "(\<And>s. sys_calls (g s) = sys_calls s) \<Longrightarrow> io_blind (io_modify g)"
  by (simp add: io_blind_def)

lemma blind_bind:
  assumes "io_blind m" "\<And>a. io_blind (f a)"
  shows "io_blind (io_bind m f)"
  unfolding io_blind_def
proof (intro allI impI)
  fix s t s' :: "'a sys_scheme" and r assume c: "sys_calls t = sys_calls s" and b: "io_bind m f s = Some (r, s')"
  then obtain q s1 where s1: "m s = Some (q, s1)" by (auto simp: io_bind_def split: option.splits)
  obtain t1 where t1: "m t = Some (q, t1)" "sys_calls t1 = sys_calls s1" by (rule io_blindE [OF assms(1) s1 c])
  show "\<exists>t'. io_bind m f t = Some (r, t') \<and> sys_calls t' = sys_calls s'"
  proof (cases q)
    case (Inl e)
    with b s1 t1 show ?thesis by auto
  next
    case (Inr a)
    with b s1 have "f a s1 = Some (r, s')" by simp
    from io_blindE [OF assms(2) this t1(2)] Inr t1(1) show ?thesis by auto
  qed
qed

lemma blind_then: "io_blind m \<Longrightarrow> io_blind k \<Longrightarrow> io_blind (io_then m k)"
  unfolding io_then_def by (rule blind_bind)

lemma blind_send: "io_blind (io_send en fd data)"
proof -
  have "send_loop en fd data tot s = (ok, s') \<Longrightarrow> sys_calls t = sys_calls s \<Longrightarrow>
      \<exists>t'. send_loop en fd data tot t = (ok, t') \<and> sys_calls t' = sys_calls s'" for tot ok and s t s' :: "'a sys_scheme"
  proof (induction en fd data tot s arbitrary: t rule: send_loop.induct)
    case (1 en fd data tot s)
    note loops = send_loop.simps [of en fd data tot s] send_loop.simps [of en fd data tot t]
    show ?case
      using "1.prems" "1.IH" [OF _ refl refl] unfolding loops by (auto simp: Let_def split: if_splits)
  qed
  then show ?thesis by (fastforce simp: io_blind_def io_send_def split: prod.splits)
qed

lemma blind_recv: "io_blind (io_recv en fd)"
proof -
  have "\<forall>t :: 'a sys_scheme. sys_calls t = sys_calls s \<longrightarrow> (\<exists>t'. recv_loop en fd buf t = Some (fst p, t') \<and> sys_calls t' = sys_calls (snd p))"
    if "recv_loop en fd buf s = Some p" for buf p and s :: "'a sys_scheme"
  proof (rule recv_loop.raw_induct [where P = "\<lambda>en fd buf s p. \<forall>t :: 'a sys_scheme. sys_calls t = sys_calls s \<longrightarrow>
        (\<exists>t'. recv_loop en fd buf t = Some (fst p, t') \<and> sys_calls t' = sys_calls (snd p))", OF _ that], intro allI impI)
    fix f :: "env \<Rightarrow> int \<Rightarrow> string \<Rightarrow> 'a sys_scheme \<Rightarrow> (string \<times> 'a sys_scheme) option"
      and en fd buf and s :: "'a sys_scheme" and p and t :: "'a sys_scheme"
    let ?s = "s\<lparr>sys_calls := Suc (sys_calls s)\<rparr>" and ?t = "t\<lparr>sys_calls := Suc (sys_calls s)\<rparr>"
    assume IH: "\<And>en fd buf s p. f en fd buf s = Some p \<Longrightarrow> \<forall>t :: 'a sys_scheme. sys_calls t = sys_calls s \<longrightarrow>
        (\<exists>t'. recv_loop en fd buf t = Some (fst p, t') \<and> sys_calls t' = sys_calls (snd p))"
      and step: "(let s' = ?s in case env_recv en (sys_calls s) fd of
        None \<Rightarrow> Some (buf, s') | Some c \<Rightarrow> if c = CHR 0x0A then Some (buf, s') else f en fd (buf @ [c]) s') = Some p"
      and c: "sys_calls t = sys_calls s"
    have loop: "recv_loop en fd buf t = (case env_recv en (sys_calls s) fd of
        None \<Rightarrow> Some (buf, ?t) | Some c \<Rightarrow> if c = CHR 0x0A then Some (buf, ?t) else recv_loop en fd (buf @ [c]) ?t)"
      by (subst recv_loop.simps) (simp add: c Let_def)
    show "\<exists>t'. recv_loop en fd buf t = Some (fst p, t') \<and> sys_calls t' = sys_calls (snd p)"
    proof (cases "stops_at en fd (sys_calls s)")
      case True
      with step show ?thesis unfolding loop by (auto simp: stops_at_def Let_def)
    next
      case False
      then obtain b where b: "env_recv en (sys_calls s) fd = Some b" "b \<noteq> CHR 0x0A" by (auto simp: stops_at_def)
      with step have "f en fd (buf @ [b]) ?s = Some p" by (simp add: Let_def)
      from IH [OF this, THEN spec, of ?t] b show ?thesis unfolding loop by simp
    qed
  qed
  then show ?thesis by (fastforce simp: io_blind_def io_recv_def split: option.splits)
qed

lemma blind_connection: "io_blind (make_connection en host port tm)"
  unfolding make_connection_def open_socket_def set_timeouts_def
  by (auto intro!: blind_bind blind_then blind_modify split: option.split)

lemma blind_message: "io_blind (send_message en host port msg)"
  unfolding send_message_def
  by (auto intro!: blind_bind blind_then blind_connection blind_send blind_recv)

section \<open>Properties\<close>

text \<open>A small environment: one host, and a peer that answers with \<open>u\<close> after one call of \<^verbatim>\<open>send\<close>.\<close>

definition demo_env :: "string \<Rightarrow> env" where
  "demo_env u = \<lparr>env_clock = int, env_socket = (\<lambda>_. 5), env_resolve = (\<lambda>_ _. Some 1),
     env_connect = (\<lambda>_ _ _ _. True), env_send = (\<lambda>_ _ data. int (length data)),
     env_recv = (\<lambda>k _. if 4 \<le> k \<and> k - 4 < length u then Some (u ! (k - 4)) else None),
     env_bind = (\<lambda>_ _ _. True), env_listen = (\<lambda>_ _. True), env_accept = (\<lambda>_ _. -1),
     env_walk = (\<lambda>m. m), env_walk_seen = (\<lambda>m. m), env_float = (\<lambda>_. [])\<rparr>"

lemma demo_env_simps [simp]:
  "send_bounded (demo_env u)" "send_works (demo_env u) fd" "env_float (demo_env u) = (\<lambda>_. [])"
  "stream_at (demo_env u) fd 4 u"
  by (auto simp: demo_env_def send_bounded_def send_works_def stream_at_def)

lemma demo_connection:
  "make_connection (demo_env u) host port tm sys0 = Some (Inr 5, sys0\<lparr>sys_calls := 3, sys_open := [5],
     sys_timeouts := [(5, tm div 1000, tm mod 1000 * 1000)]\<rparr>)"
  by (simp add: make_connection_def open_socket_def set_timeouts_def demo_env_def sys0_def)

lemma demo_send: "t \<noteq> [] \<Longrightarrow> sys_calls (snd (send_loop (demo_env u) fd t 0 s)) = Suc (sys_calls s)"
  by (subst send_loop.simps, subst send_loop.simps) (simp add: demo_env_def Let_def)

text \<open>From any state in which no call has been made, the peer is answered, or not.\<close>

lemma demo_exchange:
  fixes s :: "'z sys_scheme"
  assumes "sys_calls s = 0" "texts_utf8 req"
  shows "message_ok resp \<Longrightarrow> serialize_message (\<lambda>_. []) resp = Inr u \<Longrightarrow> \<exists>s'. send_message (demo_env u) host port req s = Some (Inr (Some resp), s')"
    and "\<exists>s'. send_message (demo_env []) host port req s = Some (Inr None, s')"
proof -
  obtain t where t: "serialize_message (\<lambda>_. []) req = Inr t"
    using serialize_throws [of req "\<lambda>_. []"] assms(2) by (auto simp: throws_unless_def split: sum.splits)
  then have nonempty: "t \<noteq> []" by (auto simp: serialize_message_def sum_bind_Inr_conv)
  have con: "\<exists>s1. make_connection (demo_env v) host port 2000 s = Some (Inr 5, s1) \<and> sys_calls s1 = 3" for v
    using assms(1) by (simp add: make_connection_def open_socket_def set_timeouts_def demo_env_def)
  show "\<exists>s'. send_message (demo_env u) host port req s = Some (Inr (Some resp), s')"
    if "message_ok resp" "serialize_message (\<lambda>_. []) resp = Inr u"
  proof -
    obtain s1 where s1: "make_connection (demo_env u) host port 2000 s = Some (Inr 5, s1)" "sys_calls s1 = 3" using con by blast
    have "sys_calls (snd (send_loop (demo_env u) 5 t 0 s1)) = 4" using demo_send [OF nonempty, of u 5 s1] s1(2) by simp
    with send_message_reply [OF s1(1), of req t resp u] t that show ?thesis by auto
  qed
  obtain s1 where s1: "make_connection (demo_env []) host port 2000 s = Some (Inr 5, s1)" using con by blast
  obtain ok s2 where l: "send_loop (demo_env []) 5 t 0 s1 = (ok, s2)" by force
  have "recv_loop (demo_env []) 5 [] s2 = Some ([], s2\<lparr>sys_calls := Suc (sys_calls s2)\<rparr>)"
    by (subst recv_loop.simps) (simp add: demo_env_def)
  with send_message_connected [OF s1 _ _ l, of req] t show "\<exists>s'. send_message (demo_env []) host port req s = Some (Inr None, s')"
    by (cases ok) auto
qed

text \<open>C31: no socket is leaked. When \<^verbatim>\<open>send_message\<close> returns, with a reply or without, and on every
  path of \<^verbatim>\<open>send_and_forget\<close> that does not throw, the open sockets are those from before the call,
  whatever the system calls returned. Only a message with a text that is not UTF-8 makes them
  throw, and then the socket that was just connected stays open.\<close>

theorem client_sockets_closed:
  assumes "send_message en host port msg s = Some (r, s')" "send_and_forget en host port msg s = Some (q, s'')"
  shows "(case r of Inr _ \<Rightarrow> sys_open s' = sys_open s
      | Inl e \<Rightarrow> texts_utf8 msg = False \<and> (\<exists>fd. sys_open s' = fd # sys_open s)) \<and>
    (case q of Inr _ \<Rightarrow> sys_open s'' = sys_open s
      | Inl e \<Rightarrow> texts_utf8 msg = False \<and> (\<exists>fd. sys_open s'' = fd # sys_open s))"
  using send_message_exit [OF assms(1)] send_and_forget_exit [of en host port msg s] assms(2)
  by (auto simp: client_exit_def split: sum.splits)

theorem client_sockets_closed_witness:
  "\<exists>e s' f s''. send_message (demo_env []) ''h'' 1 (Message0\<lparr>m_key := [CHR 0xFF]\<rparr>) sys0 = Some (Inl e, s') \<and>
     send_and_forget (demo_env []) ''h'' 1 (Message0\<lparr>m_key := [CHR 0xFF]\<rparr>) sys0 = Some (Inl f, s'') \<and>
     (\<exists>fd. sys_open s' = [fd]) \<and> (\<exists>fd. sys_open s'' = [fd])"
proof -
  let ?m = "Message0\<lparr>m_key := [CHR 0xFF]\<rparr>"
  have "\<not> texts_utf8 ?m" by (simp add: texts_utf8_def utf8_valid_def utf8_ranges_def)
  then obtain e where e: "serialize_message (\<lambda>_. []) ?m = Inl e"
    using serialize_throws [of ?m "\<lambda>_. []"] by (auto simp: throws_unless_def split: sum.splits)
  obtain s' where s': "send_message (demo_env []) ''h'' 1 ?m sys0 = Some (Inl e, s')"
    using e demo_connection [of "[]" "''h''" 1 2000] by (simp add: send_message_def)
  obtain s'' where s'': "send_and_forget (demo_env []) ''h'' 1 ?m sys0 = Some (Inl e, s'')"
    using e demo_connection [of "[]" "''h''" 1 1000] by (simp add: send_and_forget_def)
  show ?thesis
    using client_sockets_closed [OF s' s''] s' s'' by (simp add: sys0_def)
qed

text \<open>C32: the loop that reads a line, in the client and in the server, returns exactly when the
  stream holds a line end, ends or fails at some point: a peer that keeps the connection open
  and sends no line end is waited for, a peer that keeps sending is read for ever.\<close>

theorem recv_line_returns_iff:
  "(\<exists>r. recv_loop en fd [] s = Some r) =
   (\<exists>n. env_recv en (sys_calls s + n) fd = None \<or> env_recv en (sys_calls s + n) fd = Some (CHR 0x0A))"
  using recv_loop_iff [of en fd "[]" s] by (simp add: stops_at_def)

end
