(* ===== verification/Tcp_Server.thy ===== *)
theory Tcp_Server
  imports Tcp_Client
begin

text \<open>
  \<^verbatim>\<open>include/tcp_server.h\<close> and \<^verbatim>\<open>node/tcp_server.cpp\<close>: the accept loop and the handling of one
  connection, one request line and one reply line. The handler is an argument, as it is a
  callback in the source. The lemmas show that a request line reaches the handler as the
  message its sender wrote, that the reply is written back, and that a connection is closed
  and no exception leaves its thread whatever happens.
\<close>

section \<open>Connections\<close>

definition recv_line :: "env \<Rightarrow> int \<Rightarrow> ('z sys_scheme, string) io" where
  "recv_line en fd = io_recv en fd"

definition send_all :: "env \<Rightarrow> int \<Rightarrow> string \<Rightarrow> ('z sys_scheme, unit) io" where
  "send_all en fd data = io_then (io_send en fd data) (io_return ())"

text \<open>The handler is \<open>None\<close> when none was set.\<close>

definition handle_connection ::
    "env \<Rightarrow> (Message \<Rightarrow> ('z sys_scheme, Message) io) option \<Rightarrow> int \<Rightarrow> ('z sys_scheme, unit) io" where
  "handle_connection en handler client_fd =
    io_then
      (io_catch
        (io_bind (recv_line en client_fd) (\<lambda>line.
          case handler of
            None \<Rightarrow> io_return ()
          | Some h \<Rightarrow>
              if line = [] then io_return ()
              else io_bind (h (deserialize_message line)) (\<lambda>resp.
                io_bind (io_sum (serialize_message (env_float en) resp)) (send_all en client_fd))))
        (\<lambda>e. io_log ERR (''Connection handler error: '' @ what e)))
      (close_sock client_fd)"

section \<open>The accept loop\<close>

record tcp = sys +
  srv_running :: bool
  srv_fd :: int

definition tcp_init :: "sys \<Rightarrow> tcp" where
  "tcp_init s = sys.extend s \<lparr>srv_running = False, srv_fd = INVALID_SOCK\<rparr>"

definition bind_listen :: "env \<Rightarrow> int \<Rightarrow> ('z tcp_scheme, unit) io" where
  "bind_listen en port =
    io_bind (io_gets srv_fd) (\<lambda>fd.
    io_bind (sys_call (\<lambda>k. env_bind en k fd (port mod 65536))) (\<lambda>ok.
      if \<not> ok then io_throw (runtime_error (''bind() failed on port '' @ to_string port))
      else io_bind (sys_call (\<lambda>k. env_listen en k fd)) (\<lambda>ok.
        if \<not> ok then io_throw (runtime_error ''listen() failed'') else io_return ())))"

text \<open>A turn of the loop adds the thread of one connection. Within a call nobody lowers the flag, so the
  test of \<^verbatim>\<open>running_\<close> before the warning is the test at the head of the loop.\<close>

partial_function (option) accept_loop :: "env \<Rightarrow> 'z tcp_scheme \<Rightarrow> 'z tcp_scheme option" where
  "accept_loop en s = (if \<not> srv_running s then Some s
     else let fd = env_accept en (sys_calls s) (srv_fd s); s = s\<lparr>sys_calls := Suc (sys_calls s)\<rparr>
          in if fd = INVALID_SOCK
             then Some (s\<lparr>sys_log := sys_log s @ [(WRN, ''accept() returned invalid socket'')]\<rparr>)
             else accept_loop en (s\<lparr>sys_open := fd # sys_open s,
               sys_tasks := sys_tasks s @ [Task_handle_connection fd]\<rparr>))"

definition io_accept :: "env \<Rightarrow> ('z tcp_scheme, unit) io" where
  "io_accept en s = (case accept_loop en s of None \<Rightarrow> None | Some s' \<Rightarrow> Some (Inr (), s'))"

definition server_start :: "env \<Rightarrow> int \<Rightarrow> ('z tcp_scheme, unit) io" where
  "server_start en port =
    io_then (io_modify (\<lambda>s. s\<lparr>srv_running := True\<rparr>))
    (io_bind (open_socket en) (\<lambda>fd.
    io_then (io_modify (\<lambda>s. s\<lparr>srv_fd := fd\<rparr>))
    (if fd = INVALID_SOCK then io_throw (runtime_error ''socket() failed'')
     else io_then (bind_listen en port)
       (io_then (io_log INFO (''TCP server listening on port '' @ to_string port)) (io_accept en)))))"

definition server_stop :: "('z tcp_scheme, unit) io" where
  "server_stop = io_then (io_modify (\<lambda>s. s\<lparr>srv_running := False\<rparr>))
    (io_bind (io_gets srv_fd) (\<lambda>fd.
      if fd \<noteq> INVALID_SOCK then io_then (close_sock fd) (io_modify (\<lambda>s. s\<lparr>srv_fd := INVALID_SOCK\<rparr>))
      else io_return ()))"

section \<open>Lemmas\<close>

text \<open>The sockets that are open.\<close>

definition same_open :: "'z sys_scheme \<Rightarrow> 'z sys_scheme \<Rightarrow> bool" where
  "same_open s s' \<longleftrightarrow> sys_open s' = sys_open s"

interpretation opn: io_frame same_open
  by unfold_locales (simp_all add: same_open_def)

lemma opn_sys [simp, intro]:
  "io_keeps same_open (sys_call f)" "io_keeps same_open (now_ms en)" "io_keeps same_open (io_log lvl msg)"
  "io_keeps same_open (spawn t)"
  by (auto simp: io_keeps_def same_open_def now_ms_def)

lemma opn_send: "io_keeps same_open (io_send en fd data)"
  by (auto simp: io_keeps_def io_send_def same_open_def dest: send_loop_frame split: prod.splits)

lemma opn_recv: "io_keeps same_open (io_recv en fd)"
  by (auto simp: io_keeps_def io_recv_def same_open_def dest!: recv_loop_frame split: option.splits)

lemma opn_send_all: "io_keeps same_open (send_all en fd data)"
  unfolding send_all_def by (intro opn.keeps_then opn_send opn.keeps_pure)

lemma catch_then_close:
  assumes "io_keeps same_open m" "io_then (io_catch m (\<lambda>e. io_log lvl (f e))) (close_sock fd) s = Some (r, s')"
  shows "r = Inr () \<and> sys_open s' = remove1 fd (sys_open s)"
proof -
  obtain q t where m: "m s = Some (q, t)"
    using assms(2) by (auto simp: io_then_def io_bind_def io_catch_def split: option.splits)
  have "sys_open t = sys_open s" using io_keepsD [OF assms(1) m] by (simp add: same_open_def)
  with assms(2) m show ?thesis by (cases q) auto
qed

lemma handle_connection_closes:
  assumes h: "\<And>hd m. handler = Some hd \<Longrightarrow> io_keeps same_open (hd m)"
    and ret: "handle_connection en handler fd s = Some (r, s')"
  shows "r = Inr () \<and> sys_open s' = remove1 fd (sys_open s)"
proof (rule catch_then_close [OF _ ret [unfolded handle_connection_def]])
  show "io_keeps same_open (io_bind (recv_line en fd) (\<lambda>line. case handler of None \<Rightarrow> io_return ()
      | Some h \<Rightarrow> if line = [] then io_return () else io_bind (h (deserialize_message line)) (\<lambda>resp.
          io_bind (io_sum (serialize_message (env_float en) resp)) (send_all en fd))))"
    using h by (intro opn.keeps_bind)
      (auto simp: recv_line_def intro: opn_recv opn_send_all opn.keeps_bind split: option.split)
qed

lemma handle_connection_reply:
  assumes req: "message_ok req" "serialize_message (env_float en) req = Inr t" "stream_at en fd (sys_calls s) t"
    and h: "h req (s\<lparr>sys_calls := sys_calls s + length t\<rparr>) = Some (Inr resp, s1)"
    and resp: "serialize_message (env_float en) resp = Inr u" "send_bounded en" "send_works en fd"
  shows "\<exists>s'. handle_connection en (Some h) fd s = Some (Inr (), s') \<and> written fd s' = written fd s1 @ u \<and>
    same_more s1 s' \<and> sys_open s' = remove1 fd (sys_open s1)"
proof -
  let ?line = "wire.line_of (env_float en) req"
  have t: "t = ?line @ [CHR 0x0A]" and l: "CHR 0x0A \<notin> set ?line" "?line \<noteq> []" "deserialize_message ?line = req"
    using wire.line_of_ok [OF req(1), of "env_float en"] req(2) by simp_all
  have "recv_loop en fd [] s = Some ([] @ ?line, s\<lparr>sys_calls := sys_calls s + Suc (length ?line)\<rparr>)"
    using req(3) l(1) unfolding t by (intro recv_loop_line) simp_all
  then have rl: "recv_line en fd s = Some (Inr ?line, s\<lparr>sys_calls := sys_calls s + length t\<rparr>)"
    by (simp add: recv_line_def io_recv_def t)
  obtain ok s2 where s2: "send_loop en fd u 0 s1 = (ok, s2)" by force
  have w: "written fd s2 = written fd s1 @ u" "sys_open s2 = sys_open s1" "same_more s1 s2"
    using send_loop_written [OF resp(2) _ s2] send_loop_frame [OF s2] resp(3) by auto
  then have sa: "send_all en fd u s1 = Some (Inr (), s2)"
    using s2 by (simp add: send_all_def io_send_def)
  have "handle_connection en (Some h) fd s = Some (Inr (), closed fd s2)"
    using rl l h resp(1) sa by (simp add: handle_connection_def)
  with w show ?thesis by (simp add: same_more_def)
qed

text \<open>The connections that come in on a socket from the \<open>k\<close>-th call on, up to the first failure.\<close>

definition accepted :: "env \<Rightarrow> int \<Rightarrow> nat \<Rightarrow> int list \<Rightarrow> bool" where
  "accepted en fd k fds \<longleftrightarrow> (\<forall>i < length fds. fds ! i = env_accept en (k + i) fd \<and> fds ! i \<noteq> -1) \<and>
     env_accept en (k + length fds) fd = -1"

lemma accepted_Nil [simp]: "accepted en fd k [] \<longleftrightarrow> env_accept en k fd = -1"
  by (simp add: accepted_def)

lemma accepted_Cons [simp]:
  "accepted en fd k (c # fds) \<longleftrightarrow> c = env_accept en k fd \<and> c \<noteq> -1 \<and> accepted en fd (Suc k) fds"
  by (auto simp: accepted_def All_less_Suc2)

lemma accepted_ex:
  assumes "env_accept en (k + i) fd = -1"
  shows "\<exists>fds. accepted en fd k fds"
proof -
  define n where "n = (LEAST i. env_accept en (k + i) fd = -1)"
  have "env_accept en (k + n) fd = -1" unfolding n_def by (rule LeastI [of _ i]) (rule assms)
  moreover have "env_accept en (k + j) fd \<noteq> -1" if "j < n" for j using not_less_Least that unfolding n_def by blast
  ultimately show ?thesis
    by (intro exI [of _ "map (\<lambda>j. env_accept en (k + j) fd) [0..<n]"]) (simp add: accepted_def)
qed

lemma accept_loop_accepted:
  "srv_running s \<Longrightarrow> accepted en (srv_fd s) (sys_calls s) fds \<Longrightarrow>
   \<exists>l. accept_loop en s = Some (s\<lparr>sys_calls := sys_calls s + Suc (length fds), sys_open := rev fds @ sys_open s,
     sys_tasks := sys_tasks s @ map Task_handle_connection fds, sys_log := l\<rparr>)"
proof (induction fds arbitrary: s)
  case Nil
  then show ?case by (auto simp: accept_loop.simps Let_def)
next
  case (Cons c fds)
  let ?t = "s\<lparr>sys_calls := Suc (sys_calls s), sys_open := c # sys_open s, sys_tasks := sys_tasks s @ [Task_handle_connection c]\<rparr>"
  have "accept_loop en s = accept_loop en ?t" using Cons.prems by (simp add: accept_loop.simps [of en s] Let_def)
  with Cons.IH [of ?t] Cons.prems show ?case by auto
qed

lemma accept_loop_fails:
  assumes "accept_loop en s = Some s'"
  shows "srv_running s \<longrightarrow> (\<exists>i. env_accept en (sys_calls s + i) (srv_fd s) = -1)"
proof (rule accept_loop.raw_induct [where P = "\<lambda>en s s'. srv_running s \<longrightarrow> (\<exists>i. env_accept en (sys_calls s + i) (srv_fd s) = -1)", OF _ assms])
  fix f :: "env \<Rightarrow> 'a tcp_scheme \<Rightarrow> 'a tcp_scheme option" and en :: env and s s' :: "'a tcp_scheme"
  define fd where "fd = env_accept en (sys_calls s) (srv_fd s)"
  let ?s = "s\<lparr>sys_calls := Suc (sys_calls s)\<rparr>"
  assume IH: "\<And>en s s'. f en s = Some s' \<Longrightarrow> srv_running s \<longrightarrow> (\<exists>i. env_accept en (sys_calls s + i) (srv_fd s) = -1)"
    and step: "(if \<not> srv_running s then Some s else let fd = env_accept en (sys_calls s) (srv_fd s); s = ?s
       in if fd = -1 then Some (s\<lparr>sys_log := sys_log s @ [(WRN, ''accept() returned invalid socket'')]\<rparr>)
          else f en (s\<lparr>sys_open := fd # sys_open s, sys_tasks := sys_tasks s @ [Task_handle_connection fd]\<rparr>)) = Some s'"
  show "srv_running s \<longrightarrow> (\<exists>i. env_accept en (sys_calls s + i) (srv_fd s) = -1)"
  proof (cases "srv_running s \<and> fd \<noteq> -1")
    case True
    with step IH have "\<exists>i. env_accept en (Suc (sys_calls s) + i) (srv_fd s) = -1" by (force simp: Let_def fd_def [symmetric])
    then show ?thesis by (metis add_Suc_shift)
  next
    case False
    then show ?thesis by (auto simp: fd_def intro: exI [of _ 0])
  qed
qed

lemma accept_returns:
  assumes "srv_running s"
  shows "(case io_accept en s of
      None \<Rightarrow> \<forall>i. env_accept en (sys_calls s + i) (srv_fd s) \<noteq> -1
    | Some (r, s') \<Rightarrow> r = Inr () \<and> srv_fd s' = srv_fd s \<and> (\<exists>fds. accepted en (srv_fd s) (sys_calls s) fds \<and>
        sys_open s' = rev fds @ sys_open s \<and> sys_tasks s' = sys_tasks s @ map Task_handle_connection fds))"
proof (cases "\<exists>fds. accepted en (srv_fd s) (sys_calls s) fds")
  case True
  with accept_loop_accepted [OF assms] show ?thesis by (fastforce simp: io_accept_def)
next
  case False
  then have n: "\<forall>i. env_accept en (sys_calls s + i) (srv_fd s) \<noteq> -1" using accepted_ex by blast
  with accept_loop_fails [of en s] assms have "accept_loop en s = None" by (cases "accept_loop en s") auto
  with n show ?thesis by (simp add: io_accept_def)
qed

section \<open>Properties\<close>

lemma server_stop_state:
  "server_stop s = Some (Inr (), s\<lparr>srv_running := False, sys_open := (if srv_fd s = -1 then sys_open s
     else remove1 (srv_fd s) (sys_open s)), srv_fd := -1\<rparr>)"
  by (simp add: server_stop_def)

text \<open>What becomes of \<^verbatim>\<open>start\<close> depends on the calls it makes: \<open>k\<close> counts them, \<open>fd\<close> is the new socket.\<close>

definition start_result :: "env \<Rightarrow> nat \<Rightarrow> int \<Rightarrow> int \<Rightarrow> std_exn + unit" where
  "start_result en k fd port = (if fd = -1 then Inl (runtime_error ''socket() failed'')
     else if \<not> env_bind en (k + 1) fd (port mod 65536) then Inl (runtime_error (''bind() failed on port '' @ to_string port))
     else if \<not> env_listen en (k + 2) fd then Inl (runtime_error ''listen() failed'')
     else Inr ())"

lemma server_start_state:
  fixes s :: "'z tcp_scheme"
  assumes fd_def: "fd = env_socket en (sys_calls s)"
  shows "server_start en port s = (case start_result en (sys_calls s) fd port of
      Inl e \<Rightarrow> Some (Inl e, s\<lparr>srv_running := True, srv_fd := fd, sys_open := (if fd = -1 then [] else [fd]) @ sys_open s,
        sys_calls := sys_calls s + (if fd = -1 then 1 else if \<not> env_bind en (sys_calls s + 1) fd (port mod 65536) then 2 else 3)\<rparr>)
    | Inr _ \<Rightarrow> io_accept en (s\<lparr>srv_running := True, srv_fd := fd, sys_open := fd # sys_open s, sys_calls := sys_calls s + 3,
        sys_log := sys_log s @ [(INFO, ''TCP server listening on port '' @ to_string port)]\<rparr>))"
  unfolding fd_def
  by (cases s) (simp add: server_start_def open_socket_def start_result_def bind_listen_def io_bind_def io_then_def eval_nat_numeral)

text \<open>C33: the life of the server. \<^verbatim>\<open>start\<close> fails to return only when the socket is listening and no
  \<^verbatim>\<open>accept\<close> ever fails. When it returns, it has thrown the \<^verbatim>\<open>runtime_error\<close> of the first of
  \<^verbatim>\<open>socket\<close>, \<^verbatim>\<open>bind\<close> and \<^verbatim>\<open>listen\<close> that failed, and then started no thread, or none failed, and it has
  started one thread for each connection that \<^verbatim>\<open>accept\<close> gave on that socket up to its first
  failure, in that order. \<^verbatim>\<open>stop\<close> after it, also when it threw, closes the listening socket and
  only that, and a second \<^verbatim>\<open>stop\<close> changes nothing.\<close>

theorem server_lifecycle:
  "let k = sys_calls s; fd = env_socket en k;
       result = (if fd = -1 then Inl (runtime_error ''socket() failed'')
         else if \<not> env_bind en (k + 1) fd (port mod 65536) then Inl (runtime_error (''bind() failed on port '' @ to_string port))
         else if \<not> env_listen en (k + 2) fd then Inl (runtime_error ''listen() failed'')
         else Inr ())
   in case server_start en port s of
        None \<Rightarrow> result = Inr () \<and> (\<forall>i. env_accept en (k + 3 + i) fd \<noteq> -1)
      | Some (r, s') \<Rightarrow> r = result \<and> (\<exists>fds t. (case r of Inl e \<Rightarrow> fds = [] | Inr _ \<Rightarrow> accepted en fd (k + 3) fds) \<and>
          sys_tasks s' = sys_tasks s @ map Task_handle_connection fds \<and>
          server_stop s' = Some (Inr (), t) \<and> server_stop t = Some (Inr (), t) \<and>
          mset (sys_open t) = mset fds + mset (sys_open s))"
proof -
  define k fd where "k = sys_calls s" and "fd = env_socket en k"
  define t where "t = s\<lparr>srv_running := True, srv_fd := fd, sys_open := fd # sys_open s, sys_calls := k + 3,
      sys_log := sys_log s @ [(INFO, ''TCP server listening on port '' @ to_string port)]\<rparr>"
  have S: "server_start en port s = io_accept en t" if "start_result en k fd port = Inr ()"
    using that server_start_state [OF refl, of en port s] by (simp add: k_def fd_def t_def)
  have "case server_start en port s of
        None \<Rightarrow> start_result en k fd port = Inr () \<and> (\<forall>i. env_accept en (k + 3 + i) fd \<noteq> -1)
      | Some (r, s') \<Rightarrow> r = start_result en k fd port \<and> (\<exists>fds t. (case r of Inl e \<Rightarrow> fds = [] | Inr _ \<Rightarrow> accepted en fd (k + 3) fds) \<and>
          sys_tasks s' = sys_tasks s @ map Task_handle_connection fds \<and>
          server_stop s' = Some (Inr (), t) \<and> server_stop t = Some (Inr (), t) \<and>
          mset (sys_open t) = mset fds + mset (sys_open s))"
  proof (cases "start_result en k fd port")
    case (Inl e)
    then show ?thesis
      using server_start_state [OF refl, of en port s] by (simp add: k_def fd_def server_stop_state)
  next
    case (Inr u)
    then have "start_result en k fd port = Inr ()" "fd \<noteq> -1" by (auto simp: start_result_def split: if_splits)
    with S accept_returns [of t en] show ?thesis
      by (auto simp: t_def server_stop_state split: option.splits)
  qed
  then show ?thesis unfolding k_def fd_def start_result_def Let_def .
qed

text \<open>A server to which one connection comes.\<close>

theorem server_lifecycle_witness:
  "\<exists>s' t. server_start ((demo_env [])\<lparr>env_accept := (\<lambda>k _. if k = 3 then 9 else -1)\<rparr>) 8001 (tcp_init sys0) = Some (Inr (), s') \<and>
     sys_tasks s' = [Task_handle_connection 9] \<and> server_stop s' = Some (Inr (), t) \<and> sys_open t = [9]"
proof -
  let ?en = "(demo_env [])\<lparr>env_accept := (\<lambda>k _. if k = 3 then 9 else -1)\<rparr>" and ?s = "tcp_init sys0"
  have s: "sys_calls ?s = 0" "sys_tasks ?s = []" "sys_open ?s = []" by (simp_all add: tcp_init_def sys.defs sys0_def)
  have en: "env_socket ?en 0 = 5" "env_bind ?en k fd port" "env_listen ?en k fd" for k fd port by (simp_all add: demo_env_def)
  have only: "accepted ?en 5 3 fds \<Longrightarrow> fds = [9]" for fds
    by (cases fds; cases "tl fds") (auto simp: accepted_def dest: spec [of _ 1])
  from server_lifecycle [of ?s ?en 8001] s en show ?thesis
    by (cases "server_start ?en 8001 ?s") (auto simp: dest!: only spec [of _ 1])
qed

end
