(* ===== verification/Replication.thy ===== *)
theory Replication
  imports Tcp_Server Storage_Engine
begin

text \<open>
  \<^verbatim>\<open>include/replication.h\<close> and \<^verbatim>\<open>node/replication.cpp\<close>: writes are sent to the replicas by detached
  threads, a replica applies what it receives, and a node that starts asks a peer for all its
  pairs. The operation travels in the error field of the message. The lemmas show what a write
  hands to the threads, that a replica that applies a message ends with the pair of the sender,
  and that a synchronization
  adds the pairs of the peer to the local ones: a key deleted at the peer stays.
\<close>

record replica = tcp +
  rm_my_id :: int
  rm_storage :: StorageEngine

lemma replica_same_more:
  "same_more s s' \<Longrightarrow> rm_storage s' = rm_storage s \<and> rm_my_id s' = rm_my_id s"
  for s s' :: "'z replica_scheme"
  by (cases s; cases s') (simp add: same_more_def)

section \<open>The storage engine as an effect\<close>

text \<open>
  The log line of a write carries the time; a batch reads the clock for every line. A deletion
  counts one reading also when it removes nothing, and so does a write whose log file is not
  open: the result of the reading is then not used.
\<close>

definition io_put :: "env \<Rightarrow> string \<Rightarrow> string \<Rightarrow> ('z replica_scheme, unit) io" where
  "io_put en key val = io_bind (now_ms en) (\<lambda>ts.
     io_modify (\<lambda>s. s\<lparr>rm_storage := put ts key val (rm_storage s)\<rparr>))"

definition io_get :: "string \<Rightarrow> ('z replica_scheme, string option) io" where
  "io_get key = io_gets (\<lambda>s. get key (rm_storage s))"

definition io_del :: "env \<Rightarrow> string \<Rightarrow> ('z replica_scheme, bool) io" where
  "io_del en key = io_bind (now_ms en) (\<lambda>ts.
     io_bind (io_gets (\<lambda>s. snd (del ts key (rm_storage s)))) (\<lambda>removed.
     io_then (io_modify (\<lambda>s. s\<lparr>rm_storage := fst (del ts key (rm_storage s))\<rparr>)) (io_return removed)))"

definition io_put_batch :: "env \<Rightarrow> (string \<times> string) list \<Rightarrow> ('z replica_scheme, unit) io" where
  "io_put_batch en ps = io_modify (\<lambda>s. s\<lparr>sys_calls := sys_calls s + length ps,
     rm_storage := put_batch (\<lambda>i. env_clock en (sys_calls s + i)) ps (rm_storage s)\<rparr>)"

section \<open>Operations\<close>

definition replicate_msg :: "int \<Rightarrow> int \<Rightarrow> string \<Rightarrow> string \<Rightarrow> MsgType \<Rightarrow> Message" where
  "replicate_msg my_id now key val oper = Message0\<lparr>m_type := REPLICATE, m_key := key, m_value := val,
     m_node_id := my_id, m_timestamp := now, m_error := (if oper = PUT then ''PUT'' else ''DEL'')\<rparr>"

definition replicate_to :: "env \<Rightarrow> string \<Rightarrow> string \<Rightarrow> MsgType \<Rightarrow> NodeInfo list \<Rightarrow> ('z replica_scheme, unit) io" where
  "replicate_to en key val oper replicas =
    io_bind (io_gets rm_my_id) (\<lambda>my_id.
    io_bind (now_ms en) (\<lambda>now.
    io_then (io_for replicas (\<lambda>r. if ni_id r = my_id then io_return ()
        else spawn (Task_send_and_forget (ni_host r) (ni_port r) (replicate_msg my_id now key val oper))))
      (io_log DBG (''Replicated key='' @ key @ '' to '' @ to_string (int (length replicas)) @ '' nodes''))))"

definition plain_ack :: "int \<Rightarrow> Message" where
  "plain_ack my_id = Message0\<lparr>m_type := ACK, m_node_id := my_id, m_success := True\<rparr>"

definition handle_replicate :: "env \<Rightarrow> Message \<Rightarrow> ('z replica_scheme, Message) io" where
  "handle_replicate en msg =
    io_then
      (if m_error msg = ''DEL''
       then io_then (io_del en (m_key msg)) (io_log DBG (''Replica DEL key='' @ m_key msg))
       else io_then (io_put en (m_key msg) (m_value msg)) (io_log DBG (''Replica PUT key='' @ m_key msg)))
      (io_gets (\<lambda>s. plain_ack (rm_my_id s)))"

definition handle_sync_request :: "env \<Rightarrow> Message \<Rightarrow> ('z replica_scheme, Message) io" where
  "handle_sync_request en msg =
    io_bind (io_gets (\<lambda>s. Message0\<lparr>m_type := SYNC_DATA, m_node_id := rm_my_id s,
      m_kv_pairs := get_all_pairs (env_walk en) (rm_storage s), m_success := True\<rparr>)) (\<lambda>resp.
    io_then (io_log INFO (''Serving SYNC_DATA: '' @ to_string (int (length (m_kv_pairs resp))) @ '' key-value pairs''))
      (io_return resp))"

definition handle_sync_data :: "env \<Rightarrow> Message \<Rightarrow> ('z replica_scheme, unit) io" where
  "handle_sync_data en msg = (if m_kv_pairs msg = [] then io_return ()
     else io_then (io_put_batch en (m_kv_pairs msg))
       (io_log INFO (''Sync complete: '' @ to_string (int (length (m_kv_pairs msg))) @ '' pairs loaded from node ''
         @ to_string (m_node_id msg))))"

definition sync_from_peer :: "env \<Rightarrow> NodeInfo \<Rightarrow> ('z replica_scheme, unit) io" where
  "sync_from_peer en peer =
    io_then (io_log INFO (''Requesting sync from peer node '' @ to_string (ni_id peer)))
    (io_bind (io_gets (\<lambda>s. Message0\<lparr>m_type := SYNC_REQUEST, m_node_id := rm_my_id s\<rparr>)) (\<lambda>req.
     io_bind (send_message en (ni_host peer) (ni_port peer) req) (\<lambda>resp.
       case resp of
         None \<Rightarrow> io_log WRN (''Sync from node '' @ to_string (ni_id peer) @ '' failed'')
       | Some r \<Rightarrow>
           if m_type r \<noteq> SYNC_DATA then io_log WRN (''Sync from node '' @ to_string (ni_id peer) @ '' failed'')
           else handle_sync_data en r)))"

section \<open>Lemmas\<close>

lemma io_store_state:
  "io_put en k v s = Some (Inr (), s\<lparr>sys_calls := Suc (sys_calls s),
     rm_storage := put (env_clock en (sys_calls s)) k v (rm_storage s)\<rparr>)"
  "io_get k s = Some (Inr (get k (rm_storage s)), s)"
  "io_del en k s = Some (Inr (get k (rm_storage s) \<noteq> None), s\<lparr>sys_calls := Suc (sys_calls s),
     rm_storage := fst (del (env_clock en (sys_calls s)) k (rm_storage s))\<rparr>)"
  by (simp_all add: io_put_def io_get_def io_del_def now_ms_def del_removed)

text \<open>The messages that a write hands to the threads, in order.\<close>

definition replicate_tasks :: "int \<Rightarrow> Message \<Rightarrow> NodeInfo list \<Rightarrow> task list" where
  "replicate_tasks my_id msg rs =
     map (\<lambda>r. Task_send_and_forget (ni_host r) (ni_port r) msg) (filter (\<lambda>r. ni_id r \<noteq> my_id) rs)"

lemma spawn_replicas:
  "io_for rs (\<lambda>r. if ni_id r = my_id then io_return ()
      else spawn (Task_send_and_forget (ni_host r) (ni_port r) msg)) s =
   Some (Inr (), s\<lparr>sys_tasks := sys_tasks s @ replicate_tasks my_id msg rs\<rparr>)"
  by (induction rs arbitrary: s) (simp_all add: replicate_tasks_def)

lemma replicate_to_state:
  "replicate_to en key val oper rs s = Some (Inr (), s\<lparr>sys_calls := Suc (sys_calls s),
     sys_tasks := sys_tasks s @ replicate_tasks (rm_my_id s)
       (replicate_msg (rm_my_id s) (env_clock en (sys_calls s)) key val oper) rs,
     sys_log := sys_log s @ [(DBG, ''Replicated key='' @ key @ '' to '' @ to_string (int (length rs)) @ '' nodes'')]\<rparr>)"
  by (simp add: replicate_to_def now_ms_def spawn_replicas)

lemma handle_replicate_state:
  "\<exists>s'. handle_replicate en msg s = Some (Inr (plain_ack (rm_my_id s)), s') \<and>
     store_abs (rm_storage s') = (if m_error msg = ''DEL'' then (store_abs (rm_storage s))(m_key msg := None)
       else (store_abs (rm_storage s))(m_key msg \<mapsto> m_value msg))"
  by (simp add: handle_replicate_def io_store_state del_store)
    (simp add: store_abs_def update_conv')

lemma handle_sync_data_state:
  assumes "store_inv (rm_storage s)"
  shows "\<exists>s'. handle_sync_data en msg s = Some (Inr (), s') \<and>
    store_abs (rm_storage s') = store_abs (rm_storage s) ++ map_of (rev (m_kv_pairs msg))"
  using assms umap.lookup_assign_list
  by (auto simp: handle_sync_data_def io_put_batch_def store_abs_def store_inv_def)

text \<open>What a synchronization asks and gets, as the pairs that both sides hold.\<close>

lemma walk_rev: "walk_ok iter \<Longrightarrow> walk_ok (\<lambda>m. rev (iter m))"
  by (simp add: walk_ok_def)

lemma sync_pairs:
  assumes "walk_ok iter" "store_inv e"
  shows "map_of (rev (get_all_pairs iter e)) = store_abs e"
  using walk_map_of [OF walk_rev [OF assms(1)]] assms(2)
  by (simp add: get_all_pairs_def store_inv_def store_abs_def)

section \<open>Properties\<close>

text \<open>A node of the demonstration environment with one stored pair.\<close>

definition demo_replica :: "int \<Rightarrow> (string \<times> string) list \<Rightarrow> replica" where
  "demo_replica i ps = tcp.extend (tcp_init sys0) \<lparr>rm_my_id = i, rm_storage = \<lparr>se_wal_path = ''w'', se_store = ps,
     se_open = True, se_wal = []\<rparr>\<rparr>"

lemma demo_replica_simps [simp]:
  "rm_my_id (demo_replica i ps) = i" "se_store (rm_storage (demo_replica i ps)) = ps"
  "sys_tasks (demo_replica i ps) = []"
  by (simp_all add: demo_replica_def tcp.defs tcp_init_def sys.defs sys0_def)

text \<open>C34: a synchronization merges. A node that loads what a peer answered to its request ends with the
  peer's value for every key the peer holds and keeps its own value for every other key; the
  peer's data is unchanged. In particular a key that the peer has deleted stays.\<close>

theorem sync_merges:
  assumes "walk_ok (env_walk en)" "store_inv (rm_storage p)" "store_inv (rm_storage s)"
    and "handle_sync_request en req p = Some (Inr resp, p')" "handle_sync_data en' resp s = Some (r, s')"
  shows "store_abs (rm_storage s') = store_abs (rm_storage s) ++ store_abs (rm_storage p) \<and>
    rm_storage p' = rm_storage p"
proof -
  have p: "m_kv_pairs resp = get_all_pairs (env_walk en) (rm_storage p)" "rm_storage p' = rm_storage p"
    using assms(4) by (auto simp: handle_sync_request_def)
  from handle_sync_data_state [OF assms(3), of en' resp] assms(5)
  have "store_abs (rm_storage s') = store_abs (rm_storage s) ++ map_of (rev (m_kv_pairs resp))" by auto
  with p sync_pairs [OF assms(1,2)] show ?thesis by simp
qed

theorem sync_merges_witness:
  "\<exists>resp p' s'. handle_sync_request (demo_env []) Message0 (demo_replica 1 [(''a'', ''1'')]) = Some (Inr resp, p') \<and>
     handle_sync_data (demo_env []) resp (demo_replica 2 [(''a'', ''0''), (''gone'', ''x'')]) = Some (Inr (), s') \<and>
     store_abs (rm_storage s') ''a'' = Some ''1'' \<and> store_abs (rm_storage s') ''gone'' = Some ''x''"
proof -
  let ?p = "demo_replica 1 [(''a'', ''1'')]" and ?s = "demo_replica 2 [(''a'', ''0''), (''gone'', ''x'')]"
  have w: "walk_ok (env_walk (demo_env []))" by (simp add: demo_env_def)
  have inv: "store_inv (rm_storage ?p)" "store_inv (rm_storage ?s)" by (simp_all add: store_inv_def umap_wf_def)
  obtain resp p' where p: "handle_sync_request (demo_env []) Message0 ?p = Some (Inr resp, p')"
    by (simp add: handle_sync_request_def)
  obtain s' where s: "handle_sync_data (demo_env []) resp ?s = Some (Inr (), s')"
    using handle_sync_data_state [OF inv(2)] by blast
  show ?thesis
    using sync_merges [OF w inv p s] p s by (auto simp: store_abs_def)
qed

end
