(* ===== verification/Leader_Election.thy ===== *)
theory Leader_Election
  imports Replication
begin

text \<open>
  \<^verbatim>\<open>include/leader_election.h\<close> and \<^verbatim>\<open>node/leader_election.cpp\<close>: the bully algorithm of one node. An
  election asks every node with a higher identifier; without an acknowledgement the node makes
  itself leader and tells all others. The leader callback is an argument. The lemmas show when
  a node becomes leader and when it accepts another one, that an election leaves no trace in
  the flag that the timeout thread tests, and that the term stays in its 32 bits.
\<close>

record election = replica +
  le_my_id :: int
  le_all_nodes :: "NodeInfo list"
  le_leader :: int
  le_in_progress :: bool
  le_term :: int
  le_got_higher_ack :: bool
  le_running :: bool
  le_node_alive :: "(int, bool) unordered_map"

abbreviation (input) ELECTION_TIMEOUT_MS :: int where "ELECTION_TIMEOUT_MS \<equiv> 5000"

definition election_init :: "int \<Rightarrow> NodeInfo list \<Rightarrow> replica \<Rightarrow> election" where
  "election_init my_id all_nodes s = replica.extend s
    \<lparr>le_my_id = my_id, le_all_nodes = all_nodes, le_leader = -1, le_in_progress = False, le_term = 0,
     le_got_higher_ack = False, le_running = False,
     le_node_alive = foldl (\<lambda>m n. AList.update (ni_id n) True m) [] all_nodes\<rparr>"

section \<open>Operations\<close>

text \<open>The thread that \<open>start\<close> makes triggers an election after half a second.\<close>

definition election_start :: "('z election_scheme, unit) io" where
  "election_start = io_then (io_modify (\<lambda>s. s\<lparr>le_running := True\<rparr>)) (spawn Task_trigger_election)"

definition election_stop :: "('z election_scheme, unit) io" where
  "election_stop = io_modify (\<lambda>s. s\<lparr>le_running := False\<rparr>)"

definition get_leader :: "'z election_scheme \<Rightarrow> int" where
  "get_leader s = le_leader s"

definition am_i_leader :: "'z election_scheme \<Rightarrow> bool" where
  "am_i_leader s \<longleftrightarrow> le_leader s = le_my_id s"

definition find_highest_alive_id :: "int \<Rightarrow> (int \<times> bool) list \<Rightarrow> int" where
  "find_highest_alive_id my_id walk =
     foldl (\<lambda>highest (i, alive). if alive \<and> highest < i then i else highest) my_id walk"

text \<open>The test \<^verbatim>\<open>node_alive_[n.id]\<close> adds a missing identifier with the value false.\<close>

fun higher_nodes :: "int \<Rightarrow> NodeInfo list \<Rightarrow> (int, bool) unordered_map \<Rightarrow> NodeInfo list \<times> (int, bool) unordered_map" where
  "higher_nodes my_id [] m = ([], m)"
| "higher_nodes my_id (n # ns) m =
    (if my_id < ni_id n then
       (case map_of m (ni_id n) of
          Some b \<Rightarrow> (case higher_nodes my_id ns m of (hs, m') \<Rightarrow> (if b then n # hs else hs, m'))
        | None \<Rightarrow> higher_nodes my_id ns (AList.update (ni_id n) False m))
     else higher_nodes my_id ns m)"

definition election_msg :: "int \<Rightarrow> int \<Rightarrow> Message" where
  "election_msg my_id term = Message0\<lparr>m_type := ELECTION, m_node_id := my_id, m_term := term\<rparr>"

definition ask_node :: "env \<Rightarrow> Message \<Rightarrow> NodeInfo \<Rightarrow> ('z election_scheme, unit) io" where
  "ask_node en msg n = io_bind (send_message en (ni_host n) (ni_port n) msg) (\<lambda>resp.
     case resp of
       Some r \<Rightarrow> if m_type r = ACK then io_modify (\<lambda>s. s\<lparr>le_got_higher_ack := True\<rparr>) else io_return ()
     | None \<Rightarrow> io_return ())"

definition leader_msg :: "int \<Rightarrow> int \<Rightarrow> Message" where
  "leader_msg my_id term = Message0\<lparr>m_type := LEADER, m_node_id := my_id, m_term := term\<rparr>"

definition broadcast_leader :: "('z election_scheme, unit) io" where
  "broadcast_leader = io_bind (io_gets (\<lambda>s. s)) (\<lambda>s.
     io_for (le_all_nodes s) (\<lambda>n. if ni_id n = le_my_id s then io_return ()
       else spawn (Task_send_and_forget (ni_host n) (ni_port n) (leader_msg (le_my_id s) (le_term s)))))"

text \<open>The first part: the new term, and the higher nodes are asked.\<close>

definition election_round :: "env \<Rightarrow> ('z election_scheme, int) io" where
  "election_round en =
    io_then (io_modify (\<lambda>s. s\<lparr>le_term := narrow 32 (le_term s + 1), le_got_higher_ack := False\<rparr>))
    (io_bind (io_gets (\<lambda>s. s)) (\<lambda>s.
     io_then (io_log INFO (''Election triggered (term='' @ to_string (le_term s) @ '', my_id='' @ to_string (le_my_id s) @ '')''))
    (io_then (io_modify (\<lambda>s. s\<lparr>le_node_alive := snd (higher_nodes (le_my_id s) (le_all_nodes s) (le_node_alive s))\<rparr>))
    (io_then (io_for (fst (higher_nodes (le_my_id s) (le_all_nodes s) (le_node_alive s)))
        (ask_node en (election_msg (le_my_id s) (le_term s))))
      (io_return (le_term s))))))"

definition trigger_election ::
    "env \<Rightarrow> (int \<Rightarrow> ('z election_scheme, unit) io) \<Rightarrow> ('z election_scheme, unit) io" where
  "trigger_election en on_leader_change =
    io_bind (io_gets (\<lambda>s. s)) (\<lambda>s.
      if \<not> le_running s then io_return ()
      else io_then (io_modify (\<lambda>s. s\<lparr>le_in_progress := True\<rparr>))
       (if le_in_progress s then io_return ()
        else io_bind (election_round en) (\<lambda>term.
          io_bind (io_gets le_got_higher_ack) (\<lambda>ack.
            if \<not> ack then
              io_then (io_modify (\<lambda>s. s\<lparr>le_leader := le_my_id s, le_in_progress := False\<rparr>))
             (io_then (io_log INFO (''I am the new LEADER (id='' @ to_string (le_my_id s) @ '')''))
             (io_then broadcast_leader (on_leader_change (le_my_id s))))
            else io_then (spawn (Task_election_timeout term))
              (io_modify (\<lambda>s. s\<lparr>le_in_progress := False\<rparr>))))))"

text \<open>The body of the timeout thread, after its sleep.\<close>

definition election_timeout ::
    "env \<Rightarrow> (int \<Rightarrow> ('z election_scheme, unit) io) \<Rightarrow> int \<Rightarrow> ('z election_scheme, unit) io" where
  "election_timeout en on_leader_change term =
    io_bind (io_gets (\<lambda>s. s)) (\<lambda>s.
      if le_in_progress s \<and> le_term s = term
      then io_then (io_modify (\<lambda>s. s\<lparr>le_in_progress := False\<rparr>)) (trigger_election en on_leader_change)
      else io_return ())"

definition mark_node_alive :: "int \<Rightarrow> ('z election_scheme, unit) io" where
  "mark_node_alive i = io_modify (\<lambda>s. s\<lparr>le_node_alive := AList.update i True (le_node_alive s)\<rparr>)"

definition handle_election :: "Message \<Rightarrow> ('z election_scheme, Message option) io" where
  "handle_election msg =
    io_then (mark_node_alive (m_node_id msg))
    (io_bind (io_gets le_my_id) (\<lambda>my_id.
      if m_node_id msg < my_id then io_then (spawn Task_trigger_election) (io_return (Some (plain_ack my_id)))
      else io_return None))"

definition handle_leader ::
    "(int \<Rightarrow> ('z election_scheme, unit) io) \<Rightarrow> Message \<Rightarrow> ('z election_scheme, Message option) io" where
  "handle_leader on_leader_change msg =
    io_bind (io_gets (\<lambda>s. s)) (\<lambda>s.
    io_then
     (if le_leader s < m_node_id msg \<or> le_term s < m_term msg then
        io_then (io_modify (\<lambda>s. s\<lparr>le_leader := m_node_id msg, le_term := m_term msg, le_in_progress := False\<rparr>))
       (io_then (io_log INFO (''Accepted LEADER: node '' @ to_string (m_node_id msg)))
       (io_then (mark_node_alive (m_node_id msg)) (on_leader_change (m_node_id msg))))
      else io_return ())
     (io_return (Some (plain_ack (le_my_id s)))))"

definition handle_message ::
    "(int \<Rightarrow> ('z election_scheme, unit) io) \<Rightarrow> Message \<Rightarrow> ('z election_scheme, Message option) io" where
  "handle_message on_leader_change msg =
    (if m_type msg = ELECTION then handle_election msg
     else if m_type msg = LEADER then handle_leader on_leader_change msg
     else if m_type msg = HEARTBEAT then io_then (mark_node_alive (m_node_id msg)) (io_return None)
     else io_return None)"

text \<open>The callback that \<^verbatim>\<open>main\<close> passes.\<close>

definition announce_leader :: "int \<Rightarrow> ('z election_scheme, unit) io" where
  "announce_leader leader_id = io_log INFO (''=== New cluster leader: Node '' @ to_string leader_id @ '' ==='')"

lemma mark_node_alive_state [simp]:
  "mark_node_alive i s = Some (Inr (), s\<lparr>le_node_alive := AList.update i True (le_node_alive s)\<rparr>)"
  by (simp add: mark_node_alive_def)

lemma reply_election_state:
  "(if m_node_id msg < i then io_then (spawn Task_trigger_election) (io_return (Some (plain_ack i)))
    else io_return None) t = Some (if m_node_id msg < i
      then (Inr (Some (plain_ack i)), t\<lparr>sys_tasks := sys_tasks t @ [Task_trigger_election]\<rparr>) else (Inr None, t))"
  by simp

lemma handle_election_state:
  "handle_election msg s = (let t = s\<lparr>le_node_alive := AList.update (m_node_id msg) True (le_node_alive s)\<rparr>
     in Some (if m_node_id msg < le_my_id t
       then (Inr (Some (plain_ack (le_my_id t))), t\<lparr>sys_tasks := sys_tasks t @ [Task_trigger_election]\<rparr>)
       else (Inr None, t)))"
proof -
  have "handle_election msg s = (\<lambda>t. (if m_node_id msg < le_my_id t
      then io_then (spawn Task_trigger_election) (io_return (Some (plain_ack (le_my_id t)))) else io_return None) t)
      (s\<lparr>le_node_alive := AList.update (m_node_id msg) True (le_node_alive s)\<rparr>)"
    by (simp only: handle_election_def io_then_simps(3) [OF mark_node_alive_state] io_bind_simps(3) [OF io_simps(3)])
  then show ?thesis by (simp only: reply_election_state Let_def)
qed

lemma handle_message_other:
  "m_type msg \<noteq> LEADER \<Longrightarrow> handle_message cb msg s = (if m_type msg = ELECTION then handle_election msg s
     else if m_type msg = HEARTBEAT
     then Some (Inr None, s\<lparr>le_node_alive := AList.update (m_node_id msg) True (le_node_alive s)\<rparr>)
     else Some (Inr None, s))"
  unfolding handle_message_def if_distrib [of "\<lambda>f. f s"]
  by (simp only: if_False io_then_simps(3) [OF mark_node_alive_state] io_simps)

section \<open>Asking the higher nodes\<close>

text \<open>What an exchange with other nodes leaves alone.\<close>

definition same_election :: "'z election_scheme \<Rightarrow> 'z election_scheme \<Rightarrow> bool" where
  "same_election s s' \<longleftrightarrow> le_my_id s' = le_my_id s \<and> le_all_nodes s' = le_all_nodes s \<and> le_leader s' = le_leader s \<and>
     le_in_progress s' = le_in_progress s \<and> le_term s' = le_term s \<and> le_running s' = le_running s \<and>
     le_node_alive s' = le_node_alive s \<and> rm_storage s' = rm_storage s \<and> rm_my_id s' = rm_my_id s \<and>
     election.more s' = election.more s \<and> sys_open s' = sys_open s \<and> sys_tasks s' = sys_tasks s"

interpretation elec: io_frame same_election
  by unfold_locales (simp_all add: same_election_def)

lemma same_more_election:
  "same_more s s' \<Longrightarrow> sys_open s' = sys_open s \<Longrightarrow> sys_tasks s' = sys_tasks s \<Longrightarrow>
   same_election s s' \<and> le_got_higher_ack s' = le_got_higher_ack s"
  for s s' :: "'z election_scheme"
  by (cases s; cases s') (simp add: same_more_def same_election_def)

lemma send_message_election:
  fixes s :: "'z election_scheme"
  assumes "texts_utf8 msg" "send_message en host port msg s = Some (r, s')"
  shows "same_election s s' \<and> le_got_higher_ack s' = le_got_higher_ack s"
  using send_message_exit [OF assms(2)] assms(1)
  by (intro same_more_election) (auto simp: client_exit_def split: sum.splits)

lemma ask_node_election:
  "texts_utf8 msg \<Longrightarrow> io_keeps same_election (ask_node en msg n)"
  "texts_utf8 msg \<Longrightarrow> io_safe (ask_node en msg n)"
proof -
  assume u: "texts_utf8 msg"
  have "io_keeps same_election (send_message en (ni_host n) (ni_port n) msg)"
    by (auto simp: io_keeps_def dest: send_message_election [OF u])
  then show "io_keeps same_election (ask_node en msg n)"
    unfolding ask_node_def
    by (intro elec.keeps_bind) (auto intro!: elec.keeps_modify simp: same_election_def split: option.split)
  show "io_safe (ask_node en msg n)"
    unfolding ask_node_def by (intro safe_bind send_message_safe [OF u]) (auto split: option.split)
qed

lemma texts_utf8_election [simp]: "texts_utf8 (election_msg i t)" "texts_utf8 (leader_msg i t)"
  by (simp_all add: texts_utf8_def election_msg_def leader_msg_def)

lemma higher_nodes_alive:
  "(\<And>n. n \<in> set ns \<Longrightarrow> map_of m (ni_id n) = Some True) \<Longrightarrow>
   higher_nodes my_id ns m = (filter (\<lambda>n. my_id < ni_id n) ns, m)"
  by (induction ns) auto

lemma higher_nodes_none: "(\<And>n. n \<in> set ns \<Longrightarrow> ni_id n \<le> my_id) \<Longrightarrow> higher_nodes my_id ns m = ([], m)"
  by (induction ns) force+

lemma higher_nodes_fst: "fst (higher_nodes my_id ns m) = filter (\<lambda>n. my_id < ni_id n \<and> map_of m (ni_id n) = Some True) ns"
proof (induction ns arbitrary: m)
  case (Cons n ns)
  have "map_of m (ni_id n) = None \<Longrightarrow> (map_of (AList.update (ni_id n) False m) i = Some True) = (map_of m i = Some True)" for i
    by (auto simp: update_conv')
  with Cons show ?case by (auto split: option.split prod.split simp: case_prod_beta)
qed simp

text \<open>The replies of the nodes in a list, asked one after the other.\<close>

fun ask_all :: "env \<Rightarrow> Message \<Rightarrow> NodeInfo list \<Rightarrow> ('z election_scheme, Message option list) io" where
  "ask_all en msg [] = io_return []"
| "ask_all en msg (n # ns) = io_bind (send_message en (ni_host n) (ni_port n) msg) (\<lambda>reply.
     io_bind (ask_all en msg ns) (\<lambda>replies. io_return (reply # replies)))"

definition acknowledged :: "Message option list \<Rightarrow> bool" where
  "acknowledged replies \<longleftrightarrow> (\<exists>m. Some m \<in> set replies \<and> m_type m = ACK)"

text \<open>The loop that asks raises the flag exactly when one of these replies is an acknowledgement.\<close>

lemma ask_loop_replies:
  fixes s t :: "'z election_scheme"
  assumes "texts_utf8 msg"
  shows "io_for ns (ask_node en msg) s = Some (r, s') \<Longrightarrow> sys_calls t = sys_calls s \<Longrightarrow>
    \<exists>replies t'. ask_all en msg ns t = Some (Inr replies, t') \<and>
      le_got_higher_ack s' = (le_got_higher_ack s \<or> acknowledged replies)"
proof (induction ns arbitrary: s t)
  case Nil
  then show ?case by (simp add: acknowledged_def)
next
  case (Cons n ns)
  obtain u s2 where s2: "ask_node en msg n s = Some (Inr u, s2)" "io_for ns (ask_node en msg) s2 = Some (r, s')"
    by (rule safe_thenE [OF ask_node_election(2) [OF assms] Cons.prems(1) [unfolded io_for.simps]])
  obtain reply s1 where s1: "send_message en (ni_host n) (ni_port n) msg s = Some (Inr reply, s1)"
    using s2(1) unfolding ask_node_def by (elim io_bind_InrE)
  obtain t1 where t1: "send_message en (ni_host n) (ni_port n) msg t = Some (Inr reply, t1)" "sys_calls t1 = sys_calls s1"
    by (rule io_blindE [OF blind_message s1 Cons.prems(2)])
  have flag: "le_got_higher_ack s1 = le_got_higher_ack s" using send_message_election [OF assms s1] by simp
  have "sys_calls s2 = sys_calls s1 \<and> le_got_higher_ack s2 = (le_got_higher_ack s \<or> acknowledged [reply])"
    using s2(1) s1 flag by (auto simp: ask_node_def acknowledged_def split: option.splits if_splits)
  with Cons.IH [OF s2(2), of t1] t1 show ?case by (auto simp: acknowledged_def)
qed

text \<open>The round ends in the new term, with the leader and the flag as before.\<close>

lemma election_round_result:
  fixes s t :: "'z election_scheme"
  assumes "election_round en s = Some (r, s')"
  shows "r = Inr (narrow 32 (le_term s + 1))" "le_term s' = narrow 32 (le_term s + 1)"
    "le_leader s' = le_leader s" "le_my_id s' = le_my_id s" "le_all_nodes s' = le_all_nodes s"
    "le_in_progress s' = le_in_progress s" "le_running s' = le_running s" "rm_storage s' = rm_storage s"
    "sys_tasks s' = sys_tasks s" "sys_open s' = sys_open s" "election.more s' = election.more s"
    "le_node_alive s' = snd (higher_nodes (le_my_id s) (le_all_nodes s) (le_node_alive s))" "rm_my_id s' = rm_my_id s"
    "sys_calls t = sys_calls s \<Longrightarrow> \<exists>replies t'. ask_all en (election_msg (le_my_id s) (narrow 32 (le_term s + 1)))
       (fst (higher_nodes (le_my_id s) (le_all_nodes s) (le_node_alive s))) t = Some (Inr replies, t') \<and>
       le_got_higher_ack s' = acknowledged replies"
proof -
  let ?t = "narrow 32 (le_term s + 1)"
  let ?h = "higher_nodes (le_my_id s) (le_all_nodes s) (le_node_alive s)"
  let ?loop = "io_for (fst ?h) (ask_node en (election_msg (le_my_id s) ?t)) :: ('z election_scheme, unit) io"
  define w where "w = (INFO, ''Election triggered (term='' @ to_string ?t @ '', my_id='' @ to_string (le_my_id s) @ '')'')"
  define s1 where "s1 = s\<lparr>le_term := ?t, le_got_higher_ack := False, sys_log := sys_log s @ [w], le_node_alive := snd ?h\<rparr>"
  have e: "election_round en s = io_then ?loop (io_return ?t) s1"
    by (simp add: election_round_def s1_def w_def)
  have k: "io_keeps same_election ?loop" "io_safe ?loop"
    by (intro elec.keeps_for safe_for ask_node_election; simp)+
  obtain q where l: "?loop s1 = Some (Inr q, s')" "r = Inr ?t"
    by (rule safe_thenE [OF k(2) assms [unfolded e]]) auto
  have "same_election s1 s'" using io_keepsD [OF k(1) l(1)] .
  with l(2) show "r = Inr (narrow 32 (le_term s + 1))" "le_term s' = narrow 32 (le_term s + 1)"
    "le_leader s' = le_leader s" "le_my_id s' = le_my_id s" "le_all_nodes s' = le_all_nodes s"
    "le_in_progress s' = le_in_progress s" "le_running s' = le_running s" "rm_storage s' = rm_storage s"
    "sys_tasks s' = sys_tasks s" "sys_open s' = sys_open s" "election.more s' = election.more s"
    "le_node_alive s' = snd ?h" "rm_my_id s' = rm_my_id s"
    by (simp_all add: same_election_def s1_def)
  show "\<exists>replies t'. ask_all en (election_msg (le_my_id s) ?t) (fst ?h) t = Some (Inr replies, t') \<and>
       le_got_higher_ack s' = acknowledged replies" if "sys_calls t = sys_calls s"
    using ask_loop_replies [OF texts_utf8_election(1) l(1), of t] that by (simp add: s1_def)
qed

text \<open>Without a higher node nobody is asked: the round returns at once.\<close>

lemma election_round_top:
  assumes "fst (higher_nodes (le_my_id s) (le_all_nodes s) (le_node_alive s)) = []"
  shows "\<exists>s'. election_round en s = Some (Inr (narrow 32 (le_term s + 1)), s') \<and> \<not> le_got_higher_ack s'"
  using assms by (simp add: election_round_def io_bind_def io_then_def)

section \<open>The outcome of an election\<close>

lemma broadcast_state:
  "broadcast_leader s = Some (Inr (), s\<lparr>sys_tasks := sys_tasks s
     @ replicate_tasks (le_my_id s) (leader_msg (le_my_id s) (le_term s)) (le_all_nodes s)\<rparr>)"
  by (simp add: broadcast_leader_def spawn_replicas)

text \<open>
  The flag is down between operations, the term is a 32-bit number, and every node the service
  knows of counts as alive: no operation ever marks one as dead.
\<close>

definition election_inv :: "'z election_scheme \<Rightarrow> bool" where
  "election_inv s \<longleftrightarrow> \<not> le_in_progress s \<and> int32 (le_term s) \<and>
     (\<forall>n \<in> set (le_all_nodes s). map_of (le_node_alive s) (ni_id n) = Some True) \<and>
     (\<forall>i. map_of (le_node_alive s) i \<noteq> Some False)"

lemma higher_nodes_inv: "election_inv s \<Longrightarrow>
    higher_nodes (le_my_id s) (le_all_nodes s) (le_node_alive s) =
      (filter (\<lambda>n. le_my_id s < ni_id n) (le_all_nodes s), le_node_alive s)"
  by (rule higher_nodes_alive) (simp add: election_inv_def)

text \<open>What the callback may do: it writes to the log.\<close>

locale leader_callback =
  fixes cb :: "int \<Rightarrow> ('z election_scheme, unit) io"
  assumes cb_log: "\<exists>l. cb i s = Some (Inr (), s\<lparr>sys_log := l\<rparr>)"
begin

lemma trigger_idle:
  "\<not> le_running s \<Longrightarrow> trigger_election en cb s = Some (Inr (), s)"
  "le_in_progress s \<Longrightarrow> trigger_election en cb s = Some (Inr (), s)"
  by (simp_all add: trigger_election_def)

text \<open>After the round: the node makes itself leader, or starts the timeout thread.\<close>

lemma trigger_after_round:
  assumes "le_running s" "\<not> le_in_progress s" "election_round en (s\<lparr>le_in_progress := True\<rparr>) = Some (Inr tm, t)"
  shows "\<exists>l. trigger_election en cb s = Some (Inr (),
    if le_got_higher_ack t then t\<lparr>sys_tasks := sys_tasks t @ [Task_election_timeout tm], le_in_progress := False\<rparr>
    else t\<lparr>le_leader := le_my_id t, le_in_progress := False, sys_tasks := sys_tasks t
      @ replicate_tasks (le_my_id t) (leader_msg (le_my_id t) (le_term t)) (le_all_nodes t), sys_log := l\<rparr>)"
proof (cases "le_got_higher_ack t")
  case True
  with assms show ?thesis by (simp add: trigger_election_def)
next
  case False
  have my: "le_my_id t = le_my_id s"
    using election_round_result(4) [OF assms(3)] by simp
  define u where "u = t\<lparr>le_leader := le_my_id s, le_in_progress := False,
    sys_log := sys_log t @ [(INFO, ''I am the new LEADER (id='' @ to_string (le_my_id s) @ '')'')],
    sys_tasks := sys_tasks t @ replicate_tasks (le_my_id s) (leader_msg (le_my_id s) (le_term t)) (le_all_nodes t)\<rparr>"
  obtain l where l: "cb (le_my_id s) u = Some (Inr (), u\<lparr>sys_log := l\<rparr>)" using cb_log by blast
  have "trigger_election en cb s = cb (le_my_id s) u"
    using False assms my by (simp add: trigger_election_def broadcast_state u_def)
  with l False my show ?thesis by (auto simp: u_def)
qed

lemma trigger_result:
  assumes "le_running s" "\<not> le_in_progress s" "trigger_election en cb s = Some (r, s')"
  shows "r = Inr ()" "\<not> le_in_progress s'" "le_term s' = narrow 32 (le_term s + 1)" "le_my_id s' = le_my_id s"
    "le_all_nodes s' = le_all_nodes s" "rm_storage s' = rm_storage s" "sys_open s' = sys_open s"
    "le_running s' = le_running s" "election.more s' = election.more s"
    "le_node_alive s' = snd (higher_nodes (le_my_id s) (le_all_nodes s) (le_node_alive s))"
    "le_got_higher_ack s' \<and> le_leader s' = le_leader s \<and>
       sys_tasks s' = sys_tasks s @ [Task_election_timeout (le_term s')] \<or>
     \<not> le_got_higher_ack s' \<and> le_leader s' = le_my_id s \<and>
       sys_tasks s' = sys_tasks s @ replicate_tasks (le_my_id s) (leader_msg (le_my_id s) (le_term s')) (le_all_nodes s)" "rm_my_id s' = rm_my_id s"
    "\<exists>replies t. ask_all en (election_msg (le_my_id s) (narrow 32 (le_term s + 1)))
       (fst (higher_nodes (le_my_id s) (le_all_nodes s) (le_node_alive s))) s = Some (Inr replies, t) \<and>
       le_got_higher_ack s' = acknowledged replies"
proof -
  let ?s = "s\<lparr>le_in_progress := True\<rparr>"
  obtain q t where rd: "election_round en ?s = Some (q, t)"
    using assms by (auto simp: trigger_election_def io_bind_def split: option.splits)
  note R = election_round_result [OF rd]
  then have rd': "election_round en ?s = Some (Inr (narrow 32 (le_term s + 1)), t)" using rd by simp
  obtain l where e: "trigger_election en cb s = Some (Inr (),
    if le_got_higher_ack t then t\<lparr>sys_tasks := sys_tasks t @ [Task_election_timeout (narrow 32 (le_term s + 1))], le_in_progress := False\<rparr>
    else t\<lparr>le_leader := le_my_id t, le_in_progress := False, sys_tasks := sys_tasks t
      @ replicate_tasks (le_my_id t) (leader_msg (le_my_id t) (le_term t)) (le_all_nodes t), sys_log := l\<rparr>)"
    using trigger_after_round [OF assms(1,2) rd'] by blast
  show "r = Inr ()" "\<not> le_in_progress s'" "le_term s' = narrow 32 (le_term s + 1)" "le_my_id s' = le_my_id s"
    "le_all_nodes s' = le_all_nodes s" "rm_storage s' = rm_storage s" "sys_open s' = sys_open s"
    "le_running s' = le_running s" "election.more s' = election.more s"
    "le_node_alive s' = snd (higher_nodes (le_my_id s) (le_all_nodes s) (le_node_alive s))"
    "le_got_higher_ack s' \<and> le_leader s' = le_leader s \<and>
       sys_tasks s' = sys_tasks s @ [Task_election_timeout (le_term s')] \<or>
     \<not> le_got_higher_ack s' \<and> le_leader s' = le_my_id s \<and>
       sys_tasks s' = sys_tasks s @ replicate_tasks (le_my_id s) (leader_msg (le_my_id s) (le_term s')) (le_all_nodes s)" "rm_my_id s' = rm_my_id s"
    using e assms(3) R by (auto split: if_splits)
  have "le_got_higher_ack s' = le_got_higher_ack t" using e assms(3) by auto
  with R(14) [of s] show "\<exists>replies t. ask_all en (election_msg (le_my_id s) (narrow 32 (le_term s + 1)))
       (fst (higher_nodes (le_my_id s) (le_all_nodes s) (le_node_alive s))) s = Some (Inr replies, t) \<and>
       le_got_higher_ack s' = acknowledged replies" by simp
qed

text \<open>On every path the election leaves the rest of the node alone.\<close>

lemma trigger_frame:
  assumes "trigger_election en cb s = Some (r, s')"
  shows "r = Inr ()" "election.more s' = election.more s" "rm_storage s' = rm_storage s" "rm_my_id s' = rm_my_id s"
    "sys_open s' = sys_open s" "le_my_id s' = le_my_id s"
proof -
  consider "\<not> le_running s \<or> le_in_progress s" | "le_running s" "\<not> le_in_progress s" by blast
  then have "r = Inr () \<and> election.more s' = election.more s \<and> rm_storage s' = rm_storage s \<and> rm_my_id s' = rm_my_id s \<and>
    sys_open s' = sys_open s \<and> le_my_id s' = le_my_id s"
  proof cases
    case 1
    with assms trigger_idle [of s en] show ?thesis by auto
  next
    case 2
    from trigger_result [OF 2 assms] show ?thesis by simp
  qed
  then show "r = Inr ()" "election.more s' = election.more s" "rm_storage s' = rm_storage s" "rm_my_id s' = rm_my_id s"
    "sys_open s' = sys_open s" "le_my_id s' = le_my_id s" by simp_all
qed

lemma trigger_top:
  assumes "le_running s" "\<not> le_in_progress s" "\<And>n. n \<in> set (le_all_nodes s) \<Longrightarrow> ni_id n \<le> le_my_id s"
  shows "\<exists>s'. trigger_election en cb s = Some (Inr (), s') \<and> le_leader s' = le_my_id s \<and>
    le_term s' = narrow 32 (le_term s + 1) \<and> sys_tasks s' = sys_tasks s
      @ replicate_tasks (le_my_id s) (leader_msg (le_my_id s) (le_term s')) (le_all_nodes s)"
proof -
  let ?s = "s\<lparr>le_in_progress := True\<rparr>"
  have "fst (higher_nodes (le_my_id ?s) (le_all_nodes ?s) (le_node_alive ?s)) = []"
    using higher_nodes_none [OF assms(3)] by simp
  then obtain t where t: "election_round en ?s = Some (Inr (narrow 32 (le_term ?s + 1)), t)" "\<not> le_got_higher_ack t"
    using election_round_top by blast
  from trigger_after_round [OF assms(1,2) t(1)] t(2) election_round_result [OF t(1)] show ?thesis by auto
qed

lemma trigger_inv:
  assumes "election_inv s" "trigger_election en cb s = Some (r, s')"
  shows "r = Inr () \<and> election_inv s'"
proof (cases "le_running s")
  case True
  have p: "\<not> le_in_progress s" using assms(1) by (simp add: election_inv_def)
  note R = trigger_result [OF True p assms(2)]
  show ?thesis
    using R(1,2,3,5,10) higher_nodes_inv [OF assms(1)] assms(1)
    by (simp add: election_inv_def narrow_range)
next
  case False
  with assms trigger_idle(1) [OF False, of en] show ?thesis by simp
qed

lemma timeout_idle: "election_inv s \<Longrightarrow> election_timeout en cb tm s = Some (Inr (), s)"
  by (simp add: election_timeout_def election_inv_def)

text \<open>The announcement of a leader: accepted, or acknowledged only.\<close>

lemma handle_leader_state:
  "\<exists>l. handle_leader cb msg s = Some (Inr (Some (plain_ack (le_my_id s))),
     if le_leader s < m_node_id msg \<or> le_term s < m_term msg
     then s\<lparr>le_leader := m_node_id msg, le_term := m_term msg, le_in_progress := False, sys_log := l,
       le_node_alive := AList.update (m_node_id msg) True (le_node_alive s)\<rparr>
     else s)"
proof (cases "le_leader s < m_node_id msg \<or> le_term s < m_term msg")
  case True
  define u where "u = s\<lparr>le_leader := m_node_id msg, le_term := m_term msg, le_in_progress := False,
    sys_log := sys_log s @ [(INFO, ''Accepted LEADER: node '' @ to_string (m_node_id msg))],
    le_node_alive := AList.update (m_node_id msg) True (le_node_alive s)\<rparr>"
  obtain l where "cb (m_node_id msg) u = Some (Inr (), u\<lparr>sys_log := l\<rparr>)" using cb_log by blast
  then show ?thesis
    using True by (intro exI [of _ l]) (simp add: handle_leader_def mark_node_alive_def u_def)
next
  case False
  then show ?thesis by (simp add: handle_leader_def)
qed

lemma leader_message:
  "\<exists>s'. handle_leader cb msg s = Some (Inr (Some (plain_ack (le_my_id s))), s') \<and>
    (if le_leader s < m_node_id msg \<or> le_term s < m_term msg
     then le_leader s' = m_node_id msg \<and> le_term s' = m_term msg \<and> \<not> le_in_progress s' \<and>
       le_all_nodes s' = le_all_nodes s \<and> le_node_alive s' = AList.update (m_node_id msg) True (le_node_alive s)
     else s' = s)"
  using handle_leader_state [of msg s] by (elim exE) simp

text \<open>The messages of the election leave the rest of the node alone.\<close>

lemma message_frame:
  assumes "handle_message cb msg s = Some (r, s')"
  shows "election.more s' = election.more s \<and> rm_storage s' = rm_storage s \<and> rm_my_id s' = rm_my_id s \<and>
    le_my_id s' = le_my_id s \<and> sys_open s' = sys_open s \<and>
    (sys_tasks s' = sys_tasks s \<or> sys_tasks s' = sys_tasks s @ [Task_trigger_election])"
proof (cases "m_type msg = LEADER")
  case True
  then have "handle_message cb msg s = handle_leader cb msg s" by (simp add: handle_message_def)
  with assms handle_leader_state [of msg s] show ?thesis by (auto split: if_splits)
next
  case False
  with assms show ?thesis
    unfolding handle_message_other [OF False] handle_election_state Let_def by (auto split: if_splits)
qed

lemma election_inv_alive:
  "election_inv s \<Longrightarrow> \<not> le_in_progress s' \<Longrightarrow> int32 (le_term s') \<Longrightarrow> le_all_nodes s' = le_all_nodes s \<Longrightarrow>
   le_node_alive s' = AList.update i True (le_node_alive s) \<Longrightarrow> election_inv s'"
  by (simp add: election_inv_def update_conv')

lemma message_inv:
  assumes "election_inv s" "int32 (m_term msg)" "handle_message cb msg s = Some (r, s')"
  shows "(\<exists>m. r = Inr m) \<and> election_inv s'"
proof (cases "m_type msg = LEADER")
  case True
  then have eq: "handle_message cb msg s = handle_leader cb msg s" by (simp add: handle_message_def)
  obtain u where u: "handle_leader cb msg s = Some (Inr (Some (plain_ack (le_my_id s))), u)"
    "if le_leader s < m_node_id msg \<or> le_term s < m_term msg
     then le_leader u = m_node_id msg \<and> le_term u = m_term msg \<and> \<not> le_in_progress u \<and>
       le_all_nodes u = le_all_nodes s \<and> le_node_alive u = AList.update (m_node_id msg) True (le_node_alive s)
     else u = s"
    using leader_message [of msg s] by blast
  have "election_inv u"
  proof (cases "le_leader s < m_node_id msg \<or> le_term s < m_term msg")
    case True
    with u(2) assms(2) show ?thesis by (intro election_inv_alive [OF assms(1)]) auto
  next
    case False
    with u(2) assms(1) show ?thesis by simp
  qed
  with eq u(1) assms(3) show ?thesis by simp
next
  case False
  have inv: "election_inv (s\<lparr>le_node_alive := AList.update i True (le_node_alive s)\<rparr>)" for i
    by (rule election_inv_alive [OF assms(1)]) (use assms(1) in \<open>simp_all add: election_inv_def\<close>)
  have inv_tasks: "election_inv (s\<lparr>le_node_alive := AList.update i True (le_node_alive s), sys_tasks := ts\<rparr>)" for i ts
    using inv [of i] by (simp add: election_inv_def)
  let ?s = "s\<lparr>le_node_alive := AList.update (m_node_id msg) True (le_node_alive s)\<rparr>"
  show ?thesis
    using assms(1,3) inv inv_tasks unfolding handle_message_other [OF False] handle_election_state Let_def
    by (auto split: if_splits)
qed

end

interpretation announce: leader_callback announce_leader
  by unfold_locales (auto simp: announce_leader_def)

section \<open>Properties\<close>

text \<open>Node \<open>i\<close> of a cluster of three, running.\<close>

definition demo_node :: "int \<Rightarrow> NodeInfo" where
  "demo_node i = \<lparr>ni_id = i, ni_host = ''h'', ni_port = i, ni_alive = True\<rparr>"

definition demo_election :: "int \<Rightarrow> election" where
  "demo_election i = (election_init i [demo_node 1, demo_node 2, demo_node 3] (demo_replica i []))\<lparr>le_running := True\<rparr>"

lemma demo_election_simps [simp]:
  "le_my_id (demo_election i) = i" "le_all_nodes (demo_election i) = [demo_node 1, demo_node 2, demo_node 3]"
  "le_running (demo_election i)" "\<not> le_in_progress (demo_election i)" "le_term (demo_election i) = 0"
  "le_leader (demo_election i) = -1" "sys_tasks (demo_election i) = []" "ni_id (demo_node i) = i"
  "ni_host (demo_node i) = ''h''" "ni_port (demo_node i) = i"
  "le_node_alive (demo_election i) = [(1, True), (2, True), (3, True)]"
  by (simp_all add: demo_election_def election_init_def replica.defs demo_node_def demo_replica_def tcp.defs
      tcp_init_def sys.defs sys0_def)

lemma demo_election_inv: "election_inv (demo_election i)"
  by (simp add: election_inv_def int_range_def)

lemma demo_election_top: "n \<in> set (le_all_nodes (demo_election 3)) \<Longrightarrow> ni_id n \<le> le_my_id (demo_election 3)"
  by auto

lemma demo_trigger: "\<exists>s'. trigger_election en announce_leader (demo_election 3) = Some (Inr (), s')"
  using announce.trigger_top [OF _ _ demo_election_top, of en] by auto

text \<open>C35: an election that returns has advanced the term by one (modulo the 32 bits), has lowered its
  flag, has thrown nothing, changed no stored data and leaked no socket. It has sent the election
  message to every node with a higher identifier that counts as alive, and what follows depends
  on the replies. When none of them is an acknowledgement, the node is its own leader and hands
  one announcement for every other node to a thread; when one is, the leader is unchanged and
  only the timeout thread is started.\<close>

theorem election_outcome:
  assumes "le_running s" "\<not> le_in_progress s" "trigger_election en announce_leader s = Some (r, s')"
  shows "r = Inr () \<and> \<not> le_in_progress s' \<and> le_term s' = narrow 32 (le_term s + 1) \<and> sys_open s' = sys_open s \<and>
    rm_storage s' = rm_storage s \<and>
    (\<exists>replies t. ask_all en (election_msg (le_my_id s) (le_term s'))
        (filter (\<lambda>n. le_my_id s < ni_id n \<and> map_of (le_node_alive s) (ni_id n) = Some True) (le_all_nodes s)) s = Some (Inr replies, t) \<and>
      (if \<exists>m. Some m \<in> set replies \<and> m_type m = ACK
       then le_leader s' = le_leader s \<and> sys_tasks s' = sys_tasks s @ [Task_election_timeout (le_term s')]
       else le_leader s' = le_my_id s \<and> sys_tasks s' = sys_tasks s @ map (\<lambda>n. Task_send_and_forget (ni_host n) (ni_port n)
         (leader_msg (le_my_id s) (le_term s'))) (filter (\<lambda>n. ni_id n \<noteq> le_my_id s) (le_all_nodes s))))"
proof -
  note R = announce.trigger_result [OF assms]
  obtain replies t where "ask_all en (election_msg (le_my_id s) (le_term s'))
      (filter (\<lambda>n. le_my_id s < ni_id n \<and> map_of (le_node_alive s) (ni_id n) = Some True) (le_all_nodes s)) s = Some (Inr replies, t)"
    "le_got_higher_ack s' = (\<exists>m. Some m \<in> set replies \<and> m_type m = ACK)"
    using R(3,13) by (auto simp: higher_nodes_fst acknowledged_def)
  with R(1-3,6,7,11) show ?thesis by (auto simp: replicate_tasks_def)
qed

text \<open>Node 2 of three, when node 3 acknowledges and when it is silent.\<close>

lemma demo_calls: "sys_calls (demo_election i) = 0"
  by (simp add: demo_election_def election_init_def replica.defs demo_replica_def tcp.defs tcp_init_def sys.defs sys0_def)

lemma demo_trigger_2:
  assumes "\<And>s :: election. sys_calls s = 0 \<Longrightarrow> \<exists>s'. send_message en ''h'' 3 (election_msg 2 1) s = Some (Inr reply, s')"
  shows "\<exists>s'. trigger_election en announce_leader (demo_election 2) = Some (Inr (), s')"
proof -
  let ?s = "(demo_election 2)\<lparr>le_in_progress := True\<rparr>"
  have ask: "\<exists>t. ask_node en (election_msg 2 1) (demo_node 3) s1 = Some (Inr (), t)" if "sys_calls s1 = 0" for s1 :: election
    using assms [OF that] by (cases reply) (auto simp: ask_node_def)
  define w where "w = (INFO, ''Election triggered (term='' @ to_string 1 @ '', my_id='' @ to_string 2 @ '')'')"
  define s1 where "s1 = ?s\<lparr>le_term := 1, le_got_higher_ack := False, sys_log := sys_log ?s @ [w],
      le_node_alive := [(1, True), (2, True), (3, True)]\<rparr>"
  have "sys_calls s1 = 0" by (simp add: s1_def demo_calls)
  moreover have "election_round en ?s = io_then (io_then (ask_node en (election_msg 2 1) (demo_node 3)) (io_return ())) (io_return 1) s1"
    by (simp add: election_round_def narrow_def w_def s1_def)
  ultimately have "\<exists>t. election_round en ?s = Some (Inr 1, t)" using ask [of s1] by auto
  then show ?thesis using announce.trigger_after_round [of "demo_election 2" en 1] by auto
qed

theorem election_outcome_witness:
  "\<exists>u s' s''. serialize_message (\<lambda>_. []) (plain_ack 3) = Inr u \<and>
     trigger_election (demo_env u) announce_leader (demo_election 2) = Some (Inr (), s') \<and>
     le_leader s' = -1 \<and> sys_tasks s' = [Task_election_timeout 1] \<and>
     trigger_election (demo_env []) announce_leader (demo_election 2) = Some (Inr (), s'') \<and>
     le_leader s'' = 2 \<and> sys_tasks s'' = [Task_send_and_forget ''h'' 1 (leader_msg 2 1), Task_send_and_forget ''h'' 3 (leader_msg 2 1)]"
proof -
  have ok: "message_ok (plain_ack 3)" by (simp add: message_ok_def plain_ack_def Message0_def texts_utf8_def int_range_def)
  then obtain u where u: "serialize_message (\<lambda>_. []) (plain_ack 3) = Inr u"
    using wire.line_of_ok by blast
  note E = demo_exchange [OF _ texts_utf8_election(1) [of 2 1], where host = "''h''" and port = 3]
  have tm: "narrow 32 1 = 1" by (simp add: narrow_def)
  obtain s' where s': "trigger_election (demo_env u) announce_leader (demo_election 2) = Some (Inr (), s')"
    using demo_trigger_2 E(1) [OF _ ok u] by blast
  obtain s'' where s'': "trigger_election (demo_env []) announce_leader (demo_election 2) = Some (Inr (), s'')"
    using demo_trigger_2 E(2) by blast
  obtain t' t'' where "send_message (demo_env u) ''h'' 3 (election_msg 2 1) (demo_election 2) = Some (Inr (Some (plain_ack 3)), t')"
    "send_message (demo_env []) ''h'' 3 (election_msg 2 1) (demo_election 2) = Some (Inr None, t'')"
    using E(1) [OF demo_calls ok u, of 2] E(2) [OF demo_calls, of 2] by blast
  then have a: "ask_all (demo_env u) (election_msg 2 1) [demo_node 3] (demo_election 2) = Some (Inr [Some (plain_ack 3)], t')"
    "ask_all (demo_env []) (election_msg 2 1) [demo_node 3] (demo_election 2) = Some (Inr [None], t'')"
    by simp_all
  have "le_leader s' = -1" "sys_tasks s' = [Task_election_timeout 1]"
    using election_outcome [OF _ _ s'] a(1) by (auto simp: tm plain_ack_def simp del: ask_all.simps)
  moreover have "le_leader s'' = 2" "sys_tasks s'' = [Task_send_and_forget ''h'' 1 (leader_msg 2 1), Task_send_and_forget ''h'' 3 (leader_msg 2 1)]"
    using election_outcome [OF _ _ s''] a(2) by (auto simp: tm simp del: ask_all.simps)
  ultimately show ?thesis using u s' s'' by blast
qed

text \<open>C36: the node with the highest identifier wins. Its election always returns, asks nobody, and makes
  it leader; and every node that handles the announcement it sends, unless that node already
  follows a leader with at least that identifier in at least that term, takes it as leader.\<close>

theorem highest_node_wins:
  assumes "le_running s" "\<not> le_in_progress s" "\<And>n. n \<in> set (le_all_nodes s) \<Longrightarrow> ni_id n \<le> le_my_id s"
    and "le_leader p < le_my_id s \<or> le_term p < narrow 32 (le_term s + 1)"
  shows "\<exists>s' p' m. trigger_election en announce_leader s = Some (Inr (), s') \<and> le_leader s' = le_my_id s \<and>
    sys_tasks s' = sys_tasks s @ map (\<lambda>n. Task_send_and_forget (ni_host n) (ni_port n) m)
      (filter (\<lambda>n. ni_id n \<noteq> le_my_id s) (le_all_nodes s)) \<and>
    handle_message announce_leader m p = Some (Inr (Some (plain_ack (le_my_id p))), p') \<and>
    le_leader p' = le_my_id s \<and> le_term p' = le_term s'"
proof -
  obtain s' where s': "trigger_election en announce_leader s = Some (Inr (), s')" "le_leader s' = le_my_id s"
    "le_term s' = narrow 32 (le_term s + 1)" "sys_tasks s' = sys_tasks s
      @ replicate_tasks (le_my_id s) (leader_msg (le_my_id s) (le_term s')) (le_all_nodes s)"
    using announce.trigger_top [OF assms(1,2,3)] by blast
  let ?m = "leader_msg (le_my_id s) (le_term s')"
  have "handle_message announce_leader ?m p = handle_leader announce_leader ?m p"
    by (simp add: handle_message_def leader_msg_def)
  moreover have "le_leader p < m_node_id ?m \<or> le_term p < m_term ?m" "m_node_id ?m = le_my_id s" "m_term ?m = le_term s'"
    using assms(4) s'(3) by (simp_all add: leader_msg_def)
  ultimately have "\<exists>p'. handle_message announce_leader ?m p = Some (Inr (Some (plain_ack (le_my_id p))), p') \<and>
      le_leader p' = le_my_id s \<and> le_term p' = le_term s'"
    using announce.leader_message [of ?m p] by auto
  with s' show ?thesis unfolding replicate_tasks_def by blast
qed

theorem highest_node_wins_witness:
  "\<exists>s' p' m. trigger_election (demo_env []) announce_leader (demo_election 3) = Some (Inr (), s') \<and> le_leader s' = 3 \<and>
     sys_tasks s' = [Task_send_and_forget ''h'' 1 m, Task_send_and_forget ''h'' 2 m] \<and>
     handle_message announce_leader m (demo_election 1) = Some (Inr (Some (plain_ack 1)), p') \<and> le_leader p' = 3"
proof -
  have "\<exists>s' p' m. trigger_election (demo_env []) announce_leader (demo_election 3) = Some (Inr (), s') \<and>
      le_leader s' = le_my_id (demo_election 3) \<and>
      sys_tasks s' = sys_tasks (demo_election 3) @ map (\<lambda>n. Task_send_and_forget (ni_host n) (ni_port n) m)
        (filter (\<lambda>n. ni_id n \<noteq> le_my_id (demo_election 3)) (le_all_nodes (demo_election 3))) \<and>
      handle_message announce_leader m (demo_election 1) = Some (Inr (Some (plain_ack (le_my_id (demo_election 1)))), p') \<and>
      le_leader p' = le_my_id (demo_election 3) \<and> le_term p' = le_term s'"
    by (rule highest_node_wins) auto
  then show ?thesis by auto
qed

text \<open>C37: a node that knows a leader with a higher identifier ignores the announcement of a lower one
  unless its term is newer than the node's own, which the node's own election may have advanced
  as well: it acknowledges the message and keeps following the old leader, also when that one
  has failed.\<close>

theorem stale_leader_kept:
  assumes "m_type msg = LEADER" "m_node_id msg \<le> le_leader s" "m_term msg \<le> le_term s"
  shows "handle_message announce_leader msg s = Some (Inr (Some (plain_ack (le_my_id s))), s)"
proof -
  have "handle_message announce_leader msg s = handle_leader announce_leader msg s"
    using assms(1) by (simp add: handle_message_def)
  with announce.leader_message [of msg s] assms(2,3) show ?thesis by simp
qed

theorem stale_leader_kept_witness:
  "handle_message announce_leader (leader_msg 2 5) ((demo_election 1)\<lparr>le_leader := 3, le_term := 5\<rparr>) =
     Some (Inr (Some (plain_ack 1)), (demo_election 1)\<lparr>le_leader := 3, le_term := 5\<rparr>)"
  using stale_leader_kept [of "leader_msg 2 5" "(demo_election 1)\<lparr>le_leader := 3, le_term := 5\<rparr>"]
  by (simp add: leader_msg_def)

text \<open>C38: the election service keeps its invariant: between operations the election flag is down, the
  term is a 32-bit number and every known node counts as alive. Elections and messages keep it
  and throw nothing. So the timeout thread, which starts a new election only when the flag is
  up, does nothing when it wakes up between operations.\<close>

theorem election_inv_kept:
  assumes "election_inv s" "int32 (m_term msg)"
    and "trigger_election en announce_leader s = Some (r, s1)" "handle_message announce_leader msg s = Some (q, s2)"
  shows "r = Inr () \<and> election_inv s1 \<and> (\<exists>m. q = Inr m) \<and> election_inv s2 \<and>
    election_timeout en announce_leader tm s = Some (Inr (), s)"
  using announce.trigger_inv [OF assms(1,3)] announce.message_inv [OF assms(1,2,4)]
    announce.timeout_idle [OF assms(1)]
  by blast

theorem election_inv_kept_witness:
  "\<exists>s1 s2 q. trigger_election (demo_env []) announce_leader (demo_election 3) = Some (Inr (), s1) \<and> election_inv s1 \<and>
     handle_message announce_leader (leader_msg 2 5) (demo_election 3) = Some (q, s2) \<and> election_inv s2 \<and>
     election_timeout (demo_env []) announce_leader 0 (demo_election 3) = Some (Inr (), demo_election 3)"
proof -
  obtain s1 where s1: "trigger_election (demo_env []) announce_leader (demo_election 3) = Some (Inr (), s1)"
    using demo_trigger by blast
  obtain q s2 where s2: "handle_message announce_leader (leader_msg 2 5) (demo_election 3) = Some (q, s2)"
    using announce.leader_message [of "leader_msg 2 5" "demo_election 3"]
    by (auto simp: handle_message_def leader_msg_def)
  have "int32 (m_term (leader_msg 2 5))" by (simp add: leader_msg_def int_range_def)
  from election_inv_kept [OF demo_election_inv this s1 s2] s1 s2 show ?thesis by blast
qed

end
