(* ===== verification/Heartbeat.thy ===== *)
theory Heartbeat
  imports Leader_Election
begin

text \<open>
  \<^verbatim>\<open>include/heartbeat.h\<close> and \<^verbatim>\<open>node/heartbeat.cpp\<close>: when each node was last heard of, and which
  nodes count as alive. The sender and the monitor are loops that sleep between their turns; a
  turn of each is one definition. The callbacks are arguments. The lemmas show that a turn of
  the monitor reports exactly the nodes that were alive and have been silent for six seconds,
  each once, until the node is heard of again.
\<close>

record heartbeat = election +
  hb_my_id :: int
  hb_my_port :: int
  hb_peers :: "NodeInfo list"
  hb_last_seen :: "(int, int) unordered_map"
  hb_known_alive :: "(int, bool) unordered_map"
  hb_running :: bool

definition TIMEOUT_MS :: int where
  "TIMEOUT_MS = 6000"

text \<open>The constructor; \<open>now\<close> is its reading of the clock.\<close>

definition heartbeat_init :: "int \<Rightarrow> int \<Rightarrow> int \<Rightarrow> NodeInfo list \<Rightarrow> election \<Rightarrow> heartbeat" where
  "heartbeat_init now my_id my_port peers s = election.extend s
    \<lparr>hb_my_id = my_id, hb_my_port = my_port, hb_peers = peers,
     hb_last_seen = foldl (\<lambda>m p. AList.update (ni_id p) now m) [] peers,
     hb_known_alive = foldl (\<lambda>m p. AList.update (ni_id p) True m) [] peers, hb_running = False\<rparr>"

section \<open>Operations\<close>

definition heartbeat_start :: "('z heartbeat_scheme, unit) io" where
  "heartbeat_start = io_modify (\<lambda>s. s\<lparr>hb_running := True\<rparr>)"

definition heartbeat_stop :: "('z heartbeat_scheme, unit) io" where
  "heartbeat_stop = io_modify (\<lambda>s. s\<lparr>hb_running := False\<rparr>)"

type_synonym 's node_callback = "(int \<Rightarrow> ('s, unit) io) option"

definition run_callback :: "'s node_callback \<Rightarrow> int \<Rightarrow> ('s, unit) io" where
  "run_callback cb i = (case cb of Some f \<Rightarrow> f i | None \<Rightarrow> io_return ())"

definition set_known :: "int \<Rightarrow> bool \<Rightarrow> ('z heartbeat_scheme, unit) io" where
  "set_known i b = io_modify (\<lambda>s. s\<lparr>hb_known_alive := AList.update i b (hb_known_alive s)\<rparr>)"

definition mark_alive :: "env \<Rightarrow> 'z heartbeat_scheme node_callback \<Rightarrow> int \<Rightarrow> ('z heartbeat_scheme, unit) io" where
  "mark_alive en on_recovery node_id =
    io_bind (now_ms en) (\<lambda>now.
    io_then (io_modify (\<lambda>s. s\<lparr>hb_last_seen := AList.update node_id now (hb_last_seen s)\<rparr>))
    (io_bind (io_gets (\<lambda>s. map_of (hb_known_alive s) node_id)) (\<lambda>known.
      if known = Some False then io_then (set_known node_id True) (run_callback on_recovery node_id)
      else set_known node_id True)))"

definition is_alive :: "env \<Rightarrow> int \<Rightarrow> ('z heartbeat_scheme, bool) io" where
  "is_alive en node_id = io_bind (io_gets (\<lambda>s. map_of (hb_last_seen s) node_id)) (\<lambda>seen.
     case seen of None \<Rightarrow> io_return False
     | Some ts \<Rightarrow> io_bind (now_ms en) (\<lambda>now. io_return (now - ts < TIMEOUT_MS)))"

definition get_dead_nodes :: "env \<Rightarrow> ('z heartbeat_scheme, int list) io" where
  "get_dead_nodes en = io_bind (now_ms en) (\<lambda>now.
     io_gets (\<lambda>s. map fst (filter (\<lambda>(i, ts). TIMEOUT_MS \<le> now - ts) (env_walk_seen en (hb_last_seen s)))))"

definition heartbeat_msg :: "int \<Rightarrow> int \<Rightarrow> Message" where
  "heartbeat_msg my_id now = Message0\<lparr>m_type := HEARTBEAT, m_node_id := my_id, m_timestamp := now\<rparr>"

text \<open>A turn of each loop, after its sleep.\<close>

definition sender_turn :: "env \<Rightarrow> ('z heartbeat_scheme, unit) io" where
  "sender_turn en = io_bind (io_gets (\<lambda>s. s)) (\<lambda>s.
     if \<not> hb_running s then io_return ()
     else io_bind (now_ms en) (\<lambda>now. io_for (hb_peers s) (\<lambda>p.
       spawn (Task_send_and_forget (ni_host p) (ni_port p) (heartbeat_msg (hb_my_id s) now)))))"

text \<open>The reference \<^verbatim>\<open>known_alive_[id]\<close> adds a missing identifier with the value false.\<close>

definition monitor_node ::
    "'z heartbeat_scheme node_callback \<Rightarrow> int \<Rightarrow> int \<times> int \<Rightarrow> ('z heartbeat_scheme, unit) io" where
  "monitor_node on_failure now = (\<lambda>(i, ts).
    io_bind (io_gets (\<lambda>s. map_of (hb_known_alive s) i)) (\<lambda>ka.
    io_then (if ka = None then set_known i False else io_return ())
     (if ka = Some True \<and> \<not> now - ts < TIMEOUT_MS then
        io_then (set_known i False)
       (io_then (io_log WRN (''Node '' @ to_string i @ '' detected as FAILED (last seen ''
           @ to_string ((now - ts) div 1000) @ ''s ago)''))
         (run_callback on_failure i))
      else io_return ())))"

definition monitor_turn :: "env \<Rightarrow> 'z heartbeat_scheme node_callback \<Rightarrow> ('z heartbeat_scheme, unit) io" where
  "monitor_turn en on_failure = io_bind (io_gets (\<lambda>s. s)) (\<lambda>s.
     if \<not> hb_running s then io_return ()
     else io_bind (now_ms en) (\<lambda>now.
       io_for (env_walk_seen en (hb_last_seen s)) (monitor_node on_failure now)))"

section \<open>The invariant\<close>

text \<open>The two tables are about the same nodes.\<close>

definition heartbeat_inv :: "'z heartbeat_scheme \<Rightarrow> bool" where
  "heartbeat_inv s \<longleftrightarrow> umap_wf (hb_last_seen s) \<and> umap_wf (hb_known_alive s) \<and>
     dom (map_of (hb_last_seen s)) = dom (map_of (hb_known_alive s))"

text \<open>What a callback may not touch.\<close>

definition same_heartbeat :: "'z heartbeat_scheme \<Rightarrow> 'z heartbeat_scheme \<Rightarrow> bool" where
  "same_heartbeat s s' \<longleftrightarrow> hb_my_id s' = hb_my_id s \<and> hb_peers s' = hb_peers s \<and> hb_last_seen s' = hb_last_seen s \<and>
     hb_known_alive s' = hb_known_alive s \<and> hb_running s' = hb_running s"

interpretation hb: io_frame same_heartbeat
  by unfold_locales (simp_all add: same_heartbeat_def)

lemma heartbeat_inv_same: "same_heartbeat s s' \<Longrightarrow> heartbeat_inv s' = heartbeat_inv s"
  by (simp add: heartbeat_inv_def same_heartbeat_def)

text \<open>Whether a node is due to be reported at time \<open>now\<close>.\<close>

definition fails :: "int \<Rightarrow> (int, bool) unordered_map \<Rightarrow> int \<times> int \<Rightarrow> bool" where
  "fails now known e \<longleftrightarrow> map_of known (fst e) = Some True \<and> TIMEOUT_MS \<le> now - snd e"

text \<open>The report of one node.\<close>

definition report :: "'z heartbeat_scheme node_callback \<Rightarrow> int \<Rightarrow> int \<times> int \<Rightarrow> ('z heartbeat_scheme, unit) io" where
  "report on_failure now e = io_then (set_known (fst e) False)
     (io_then (io_log WRN (''Node '' @ to_string (fst e) @ '' detected as FAILED (last seen ''
         @ to_string ((now - snd e) div 1000) @ ''s ago)''))
       (run_callback on_failure (fst e)))"

text \<open>A node callback leaves the tables of the service alone.\<close>

locale heartbeat_callback =
  fixes cb :: "int \<Rightarrow> ('z heartbeat_scheme, unit) io"
  assumes cb_keeps: "io_keeps same_heartbeat (cb i)" and cb_safe: "io_safe (cb i)"
begin

lemma report_known:
  assumes "report (Some cb) now e s = Some (r, s')"
  shows "r = Inr () \<and> hb_known_alive s' = AList.update (fst e) False (hb_known_alive s) \<and>
    hb_last_seen s' = hb_last_seen s \<and> hb_running s' = hb_running s"
proof -
  obtain t where t: "cb (fst e) t = Some (r, s')" "hb_known_alive t = AList.update (fst e) False (hb_known_alive s)"
    "hb_last_seen t = hb_last_seen s" "hb_running t = hb_running s"
    using assms by (simp add: report_def set_known_def run_callback_def)
  with io_keepsD [OF cb_keeps t(1)] io_safeD [OF cb_safe t(1)] show ?thesis
    by (auto simp: same_heartbeat_def)
qed

text \<open>On a known node the turn does nothing or reports.\<close>

lemma monitor_node_known:
  assumes "map_of (hb_known_alive s) (fst e) \<noteq> None"
  shows "monitor_node (Some cb) now e s = (if fails now (hb_known_alive s) e then report (Some cb) now e s else Some (Inr (), s))"
  using assms by (cases e) (auto simp: monitor_node_def fails_def report_def)

text \<open>The whole walk reports the nodes that fail at its start, in order.\<close>

lemma monitor_walk:
  "distinct (map fst es) \<Longrightarrow> (\<And>e. e \<in> set es \<Longrightarrow> map_of (hb_known_alive s) (fst e) \<noteq> None) \<Longrightarrow>
   io_for es (monitor_node (Some cb) now) s = io_for (filter (fails now (hb_known_alive s)) es) (report (Some cb) now) s"
proof (induction es arbitrary: s)
  case (Cons e es)
  show ?case
  proof (cases "fails now (hb_known_alive s) e")
    case False
    then show ?thesis using Cons by (simp add: monitor_node_known)
  next
    case True
    have n: "monitor_node (Some cb) now e s = report (Some cb) now e s"
      using Cons.prems(2) True by (simp add: monitor_node_known)
    have "io_for es (monitor_node (Some cb) now) s' =
        io_for (filter (fails now (hb_known_alive s)) es) (report (Some cb) now) s'"
      if "report (Some cb) now e s = Some (r, s')" for r s'
    proof -
      have k: "hb_known_alive s' = AList.update (fst e) False (hb_known_alive s)" using report_known [OF that] by simp
      have "filter (fails now (hb_known_alive s')) es = filter (fails now (hb_known_alive s)) es"
        using Cons.prems(1) by (intro filter_cong) (auto simp: fails_def k update_conv' image_iff)
      moreover have "map_of (hb_known_alive s') (fst x) \<noteq> None" if "x \<in> set es" for x
        using Cons.prems(2) that by (auto simp: k update_conv')
      ultimately show ?thesis using Cons.IH [of s'] Cons.prems(1) by simp
    qed
    then show ?thesis
      using True n by (auto simp: io_then_def io_bind_def split: option.split sum.split)
  qed
qed simp

text \<open>The tables after the reports.\<close>

lemma reports_known:
  "io_for es (report (Some cb) now) s = Some (r, s') \<Longrightarrow> r = Inr () \<and> hb_last_seen s' = hb_last_seen s \<and>
    hb_running s' = hb_running s \<and>
    map_of (hb_known_alive s') = (\<lambda>i. if i \<in> fst ` set es then Some False else map_of (hb_known_alive s) i) \<and>
    (umap_wf (hb_known_alive s) \<longrightarrow> umap_wf (hb_known_alive s'))"
proof (induction es arbitrary: s)
  case (Cons e es)
  obtain q t where e: "report (Some cb) now e s = Some (q, t)"
    using Cons.prems by (auto simp: io_then_def io_bind_def split: option.splits)
  note k = report_known [OF e]
  with Cons.prems e have "io_for es (report (Some cb) now) t = Some (r, s')" by simp
  note IH = Cons.IH [OF this]
  have "map_of (hb_known_alive t) = (map_of (hb_known_alive s))(fst e \<mapsto> False)"
    using k by (simp add: update_conv')
  then show ?case using IH k by auto
qed auto

lemma monitor_result:
  assumes inv: "heartbeat_inv s" and walk: "walk_ok (env_walk_seen en)" and "hb_running s"
    and ret: "monitor_turn en (Some cb) s = Some (r, s')"
  defines "now \<equiv> env_clock en (sys_calls s)"
  defines "failed \<equiv> filter (fails now (hb_known_alive s)) (env_walk_seen en (hb_last_seen s))"
  shows "monitor_turn en (Some cb) s = io_for failed (report (Some cb) now) (s\<lparr>sys_calls := Suc (sys_calls s)\<rparr>)"
    "r = Inr ()" "hb_last_seen s' = hb_last_seen s" "hb_running s' = hb_running s" "heartbeat_inv s'"
    "map_of (hb_known_alive s') i = (case map_of (hb_last_seen s) i of None \<Rightarrow> None
       | Some ts \<Rightarrow> Some (map_of (hb_known_alive s) i = Some True \<and> now - ts < TIMEOUT_MS))"
proof -
  let ?s = "s\<lparr>sys_calls := Suc (sys_calls s)\<rparr>"
  have wf: "umap_wf (hb_last_seen s)" "umap_wf (hb_known_alive s)" "dom (map_of (hb_last_seen s)) = dom (map_of (hb_known_alive s))"
    using inv by (simp_all add: heartbeat_inv_def)
  have d: "distinct (map fst (env_walk_seen en (hb_last_seen s)))"
    using walk_distinct [OF walk wf(1)] by (simp add: umap_wf_def)
  have kn: "map_of (hb_known_alive ?s) (fst e) \<noteq> None" if "e \<in> set (env_walk_seen en (hb_last_seen s))" for e
  proof -
    have "fst e \<in> dom (map_of (hb_last_seen s))"
      using that walk_set [OF walk, of "hb_last_seen s"] by (metis dom_map_of_conv_image_fst imageI)
    with wf(3) show ?thesis by auto
  qed
  show eq: "monitor_turn en (Some cb) s = io_for failed (report (Some cb) now) ?s"
    using monitor_walk [OF d kn, of now] \<open>hb_running s\<close>
    by (simp add: monitor_turn_def now_ms_def failed_def now_def)
  note R = reports_known [OF ret [unfolded eq]]
  show "r = Inr ()" "hb_last_seen s' = hb_last_seen s" "hb_running s' = hb_running s" using R by simp_all
  have f: "i \<in> fst ` set failed \<longleftrightarrow> (\<exists>ts. map_of (hb_last_seen s) i = Some ts \<and> map_of (hb_known_alive s) i = Some True \<and> TIMEOUT_MS \<le> now - ts)" for i
    using wf(1) walk_set [OF walk, of "hb_last_seen s"]
    by (auto simp: failed_def fails_def umap_wf_def image_iff)
  show k: "map_of (hb_known_alive s') i = (case map_of (hb_last_seen s) i of None \<Rightarrow> None
       | Some ts \<Rightarrow> Some (map_of (hb_known_alive s) i = Some True \<and> now - ts < TIMEOUT_MS))" for i
  proof (cases "map_of (hb_last_seen s) i")
    case None
    with wf(3) have "map_of (hb_known_alive s) i = None" by (metis domIff)
    with None R f show ?thesis by simp
  next
    case (Some ts)
    with wf(3) obtain b where "map_of (hb_known_alive s) i = Some b" by (metis domD domI)
    with Some R f show ?thesis by auto
  qed
  show "heartbeat_inv s'"
    unfolding heartbeat_inv_def
  proof (intro conjI)
    show "dom (map_of (hb_last_seen s')) = dom (map_of (hb_known_alive s'))"
      using R k by (auto simp: dom_def split: option.splits)
  qed (use R wf in auto)
qed

lemma mark_alive_result:
  assumes "mark_alive en (Some cb) i s = Some (r, s')"
  shows "r = Inr ()" "hb_last_seen s' = AList.update i (env_clock en (sys_calls s)) (hb_last_seen s)"
    "hb_known_alive s' = AList.update i True (hb_known_alive s)" "hb_running s' = hb_running s"
proof -
  let ?t = "s\<lparr>sys_calls := Suc (sys_calls s), hb_last_seen := AList.update i (env_clock en (sys_calls s)) (hb_last_seen s),
    hb_known_alive := AList.update i True (hb_known_alive s)\<rparr>"
  have e: "mark_alive en (Some cb) i s = (if map_of (hb_known_alive s) i = Some False then cb i ?t else Some (Inr (), ?t))"
    by (simp add: mark_alive_def now_ms_def set_known_def run_callback_def)
  have c: "same_heartbeat ?t s' \<and> r = Inr ()" if "cb i ?t = Some (r, s')"
    using io_keepsD [OF cb_keeps that] io_safeD [OF cb_safe that] by auto
  have "same_heartbeat ?t s' \<and> r = Inr ()"
    using assms c unfolding e by (auto simp: hb.frame_refl split: if_splits)
  then show "r = Inr ()" "hb_last_seen s' = AList.update i (env_clock en (sys_calls s)) (hb_last_seen s)"
    "hb_known_alive s' = AList.update i True (hb_known_alive s)" "hb_running s' = hb_running s"
    by (simp_all add: same_heartbeat_def)
qed

lemma mark_alive_inv:
  assumes "heartbeat_inv s" "mark_alive en (Some cb) i s = Some (r, s')"
  shows "heartbeat_inv s'"
  using assms(1) mark_alive_result [OF assms(2)] by (simp add: heartbeat_inv_def update_conv')

end

lemma heartbeat_init_inv: "heartbeat_inv (heartbeat_init now my_id port peers s)"
proof -
  have wf: "umap_wf (foldl (\<lambda>m p. AList.update (ni_id p) (f p) m) m ps)" if "umap_wf m" for f :: "NodeInfo \<Rightarrow> 'b" and m ps
    using that by (induction ps arbitrary: m) auto
  have dm: "dom (map_of (foldl (\<lambda>m p. AList.update (ni_id p) (f p) m) m ps)) = dom (map_of m) \<union> ni_id ` set ps"
    for f :: "NodeInfo \<Rightarrow> 'b" and m ps
    by (induction ps arbitrary: m) (auto simp: update_conv')
  show ?thesis
    by (simp add: heartbeat_inv_def heartbeat_init_def election.defs wf dm)
qed

end
