(* ===== verification/Murmur.thy ===== *)
theory Murmur
  imports Prelude
begin

text \<open>
  \<^verbatim>\<open>HashRing::murmur3\<close> and \<^verbatim>\<open>HashRing::vnode_hash\<close> of \<^verbatim>\<open>node/hash_ring.cpp\<close> on 32-bit words.
  The blocks are read on a little-endian machine; lengths are below \<^verbatim>\<open>2^31\<close>, the range of
  \<^verbatim>\<open>int\<close>. The lemmas relate the loop over block indices to a recursion over the bytes, show
  that the final mixing loses nothing, and that the labels of virtual nodes are distinct.
\<close>

unbundle bit_operations_syntax

type_synonym u32 = "32 word"

section \<open>The hash function\<close>

definition byte_at :: "string \<Rightarrow> nat \<Rightarrow> u32" where
  "byte_at data i = of_nat (of_char (data ! i))"

text \<open>\<open>blocks[i]\<close>: four bytes of the key as one word.\<close>

definition block_at :: "string \<Rightarrow> nat \<Rightarrow> u32" where
  "block_at data i = byte_at data (4 * i) OR push_bit 8 (byte_at data (4 * i + 1))
     OR push_bit 16 (byte_at data (4 * i + 2)) OR push_bit 24 (byte_at data (4 * i + 3))"

definition mix_k :: "u32 \<Rightarrow> u32" where
  "mix_k k0 = (let k = k0 * 0xcc9e2d51; k = push_bit 15 k OR drop_bit 17 k in k * 0x1b873593)"

definition mix_block :: "u32 \<Rightarrow> u32 \<Rightarrow> u32" where
  "mix_block h k = (let h = h XOR mix_k k; h = push_bit 13 h OR drop_bit 19 h in h * 5 + 0xe6546b64)"

definition fmix :: "u32 \<Rightarrow> u32" where
  "fmix h0 = (let h = h0 XOR drop_bit 16 h0; h = h * 0x85ebca6b; h = h XOR drop_bit 13 h;
      h = h * 0xc2b2ae35 in h XOR drop_bit 16 h)"

text \<open>The \<^verbatim>\<open>switch (len & 3)\<close> with its fall-through cases; \<open>t\<close> is the offset of the tail.\<close>

definition mix_tail :: "string \<Rightarrow> nat \<Rightarrow> u32 \<Rightarrow> u32" where
  "mix_tail data t h =
    (let r = length data mod 4;
         k = (if r = 3 then push_bit 16 (byte_at data (t + 2)) else 0);
         k = (if r \<ge> 2 then k XOR push_bit 8 (byte_at data (t + 1)) else k)
     in if r \<ge> 1 then h XOR mix_k (k XOR byte_at data t) else h)"

definition murmur3 :: "string \<Rightarrow> u32" where
  "murmur3 data =
    (let len = length data; nblocks = len div 4;
         h = foldl (\<lambda>h i. mix_block h (block_at data i)) 42 [0..<nblocks];
         h = mix_tail data (nblocks * 4) h
     in fmix (h XOR of_nat len))"

definition vnode_label :: "int \<Rightarrow> int \<Rightarrow> string" where
  "vnode_label node_id vnode_idx = ''node'' @ to_string node_id @ ''-vn'' @ to_string vnode_idx"

definition vnode_hash :: "int \<Rightarrow> int \<Rightarrow> u32" where
  "vnode_hash node_id vnode_idx = murmur3 (vnode_label node_id vnode_idx)"

section \<open>A recursion over the bytes\<close>

definition word_of :: "char \<Rightarrow> u32" where
  "word_of c = of_nat (of_char c)"

fun murmur_body :: "u32 \<Rightarrow> string \<Rightarrow> u32" where
  "murmur_body h (a # b # c # d # r) =
     murmur_body (mix_block h (word_of a OR push_bit 8 (word_of b) OR push_bit 16 (word_of c)
        OR push_bit 24 (word_of d))) r"
| "murmur_body h [a, b, c] =
     h XOR mix_k (push_bit 16 (word_of c) XOR push_bit 8 (word_of b) XOR word_of a)"
| "murmur_body h [a, b] = h XOR mix_k (push_bit 8 (word_of b) XOR word_of a)"
| "murmur_body h [a] = h XOR mix_k (word_of a)"
| "murmur_body h [] = h"

lemma byte_at_drop: "byte_at data (4 + i) = byte_at (drop 4 data) i"
  if "4 + i < length data"
  using that by (simp add: byte_at_def)

lemma block_at_Suc:
  assumes "4 * Suc i + 3 < length data"
  shows "block_at data (Suc i) = block_at (drop 4 data) i"
proof -
  have "byte_at data (4 * Suc i + j) = byte_at (drop 4 data) (4 * i + j)" if "j \<le> 3" for j
    using assms that byte_at_drop [of "4 * i + j" data] by (simp add: add.assoc)
  from this [of 0] this [of 1] this [of 2] this [of 3] show ?thesis
    by (simp add: block_at_def)
qed

lemma foldl_upt_Suc: "foldl f h [0..<Suc n] = foldl (\<lambda>h i. f h (Suc i)) (f h 0) [0..<n]"
proof -
  have "[0..<Suc n] = 0 # map Suc [0..<n]"
    by (simp add: upt_conv_Cons map_Suc_upt del: upt_Suc)
  then show ?thesis by (simp add: foldl_map del: upt_Suc)
qed

lemma mix_tail_drop:
  assumes "length data mod 4 + t \<le> length data - 4" "4 \<le> length data"
  shows "mix_tail data (4 + t) h = mix_tail (drop 4 data) t h"
proof -
  have m: "(length data - 4) mod 4 = length data mod 4"
    using assms(2) by (metis le_add_diff_inverse mod_add_self1)
  have b: "byte_at data (4 + t + j) = byte_at (drop 4 data) (t + j)"
    if "j < length data mod 4" for j
    using that assms byte_at_drop [of "t + j" data] by (simp add: add.assoc)
  show ?thesis
    using b [of 0] b [of 1] b [of 2] m
    by (auto simp: mix_tail_def Let_def)
qed

lemma murmur3_body_eq:
  "mix_tail data (length data div 4 * 4)
     (foldl (\<lambda>h i. mix_block h (block_at data i)) h [0..<length data div 4]) = murmur_body h data"
proof (induction h data rule: murmur_body.induct)
  case (1 h a b c d r)
  let ?data = "a # b # c # d # r" and ?n = "length r div 4"
  have n: "length ?data div 4 = Suc ?n" by simp
  have f: "foldl (\<lambda>h i. mix_block h (block_at ?data (Suc i))) h' [0..<?n] =
      foldl (\<lambda>h i. mix_block h (block_at r i)) h' [0..<?n]" for h'
  proof (rule foldl_cong)
    fix x and i assume "i \<in> set [0..<?n]"
    then have "4 * Suc i + 3 < length ?data" by auto
    from block_at_Suc [OF this]
    show "mix_block x (block_at ?data (Suc i)) = mix_block x (block_at r i)" by simp
  qed simp_all
  have t: "mix_tail ?data (Suc ?n * 4) h' = mix_tail r (?n * 4) h'" for h'
  proof -
    have "length ?data mod 4 + ?n * 4 \<le> length ?data - 4"
      by simp
    from mix_tail_drop [OF this, of h'] show ?thesis by (simp add: add.commute mult.commute)
  qed
  have b0: "block_at ?data 0 = word_of a OR push_bit 8 (word_of b) OR push_bit 16 (word_of c)
        OR push_bit 24 (word_of d)"
    by (simp add: block_at_def byte_at_def word_of_def eval_nat_numeral)
  show ?case
    unfolding n foldl_upt_Suc f t b0 using "1.IH" by simp
qed (simp_all add: mix_tail_def Let_def byte_at_def word_of_def xor.assoc)

text \<open>C25: the block loop, the fall-through tail and the final mixing of \<^verbatim>\<open>murmur3\<close> compute the
  hash that the recursion over the bytes of the key gives.\<close>

theorem murmur3_reference: "murmur3 data = fmix (murmur_body 42 data XOR of_nat (length data))"
  using murmur3_body_eq [of data 42] by (simp add: murmur3_def Let_def)

section \<open>The final mixing is a bijection\<close>

lemma drop_bit_beyond: "32 \<le> n \<Longrightarrow> drop_bit n (x :: u32) = 0"
  by (rule bit_word_eqI) (simp add: bit_drop_bit_eq)

lemma xor_chain: "(a XOR b) XOR (b XOR c) XOR c = (a :: u32)"
  by (rule bit_word_eqI) (auto simp: bit_xor_iff)

lemma xorshift_16: "(x XOR drop_bit 16 x) XOR drop_bit 16 (x XOR drop_bit 16 x) = (x :: u32)"
  using xor_chain [of x "drop_bit 16 x" 0] by (simp add: drop_bit_xor drop_bit_beyond)

lemma xorshift_13:
  "(x XOR drop_bit 13 x) XOR drop_bit 13 (x XOR drop_bit 13 x) XOR drop_bit 26 (x XOR drop_bit 13 x)
    = (x :: u32)"
proof -
  have "drop_bit 13 (x XOR drop_bit 13 x) = drop_bit 13 x XOR drop_bit 26 x"
    "drop_bit 26 (x XOR drop_bit 13 x) = drop_bit 26 x"
    by (simp_all add: drop_bit_xor drop_bit_beyond)
  then show ?thesis by (simp only: xor_chain)
qed

lemma mult_cancel_inverse: "a * b = (1 :: u32) \<Longrightarrow> x * a = y * a \<Longrightarrow> x = y"
proof -
  assume one: "a * b = 1" and eq: "x * a = y * a"
  have "x = x * a * b" "y * a * b = y"
    using one by (simp_all add: mult.assoc)
  with eq show "x = y" by simp
qed

lemma fmix_inject: "fmix x = fmix y \<longleftrightarrow> x = y"
proof
  assume eq: "fmix x = fmix y"
  have s16: "a XOR drop_bit 16 a = b XOR drop_bit 16 b \<Longrightarrow> a = b" for a b :: u32
    using xorshift_16 [of a] xorshift_16 [of b] by simp
  have s13: "a XOR drop_bit 13 a = b XOR drop_bit 13 b \<Longrightarrow> a = b" for a b :: u32
    using xorshift_13 [of a] xorshift_13 [of b] by simp
  have m1: "a * 0x85ebca6b = b * 0x85ebca6b \<Longrightarrow> a = b" for a b :: u32
    by (rule mult_cancel_inverse [of "0x85ebca6b" "0xa5cb9243"]) simp_all
  have m2: "a * 0xc2b2ae35 = b * 0xc2b2ae35 \<Longrightarrow> a = b" for a b :: u32
    by (rule mult_cancel_inverse [of "0xc2b2ae35" "0x7ed1b41d"]) simp_all
  from s16 [OF m1 [OF s13 [OF m2 [OF s16 [OF eq [unfolded fmix_def Let_def]]]]]] show "x = y" .
qed simp

section \<open>Labels\<close>

lemma split_at_unique:
  assumes "x @ (c :: char) # r = y @ c # s" "c \<notin> set x" "c \<notin> set y"
  shows "x = y \<and> r = s"
  using std_getline_delim [of c x r] std_getline_delim [of c y s] assms
  by (metis option.inject prod.inject)

text \<open>Two virtual nodes never share their label, whatever the node identifiers and
  indices: the comment of \<^verbatim>\<open>vnode_hash\<close> promises a unique text per virtual node.\<close>

theorem vnode_label_unique: "vnode_label a i = vnode_label b j \<longleftrightarrow> a = b \<and> i = j"
proof
  assume "vnode_label a i = vnode_label b j"
  then have eq: "(to_string a @ ''-'') @ CHR ''v'' # CHR ''n'' # to_string i =
      (to_string b @ ''-'') @ CHR ''v'' # CHR ''n'' # to_string j"
    by (simp add: vnode_label_def)
  have "CHR ''v'' \<notin> set (to_string k @ ''-'')" for k
    using to_string_chars [of "CHR ''v''" k] by (auto simp: is_digit_def)
  from split_at_unique [OF eq this this] show "a = b \<and> i = j" by simp
qed simp

end
