(* ===== verification/Hash_Ring.thy ===== *)
theory Hash_Ring
  imports Utils Murmur
begin

text \<open>
  \<^verbatim>\<open>include/hash_ring.h\<close> and \<^verbatim>\<open>node/hash_ring.cpp\<close>: the ring of virtual nodes and the table of
  physical nodes, both \<^verbatim>\<open>std::map\<close>s. An iterator into the ring is an index into the list of
  entries; the loops of \<open>get_primary\<close> and \<open>get_replicas\<close> step it clockwise, wrap at the end
  and stop when they are back at the start. The lemmas replace the loops by a search in the
  list of entries in clockwise order, from which the routing properties follow.
\<close>

definition VIRTUAL_NODES :: nat where
  "VIRTUAL_NODES = 150"

record HashRing =
  hr_ring :: "(u32, NodeInfo) std_map"
  hr_nodes :: "(int, NodeInfo) std_map"

definition HashRing_init :: HashRing where
  "HashRing_init = \<lparr>hr_ring = [], hr_nodes = []\<rparr>"

section \<open>Changing the ring\<close>

definition add_vnode :: "NodeInfo \<Rightarrow> (u32, NodeInfo) std_map \<Rightarrow> nat \<Rightarrow> (u32, NodeInfo) std_map" where
  "add_vnode node m i = map_assign (vnode_hash (ni_id node) (int i)) node m"

definition add_node :: "NodeInfo \<Rightarrow> HashRing \<Rightarrow> HashRing" where
  "add_node node r = r\<lparr>hr_nodes := map_assign (ni_id node) node (hr_nodes r),
     hr_ring := foldl (add_vnode node) (hr_ring r) [0..<VIRTUAL_NODES]\<rparr>"

definition remove_node :: "int \<Rightarrow> HashRing \<Rightarrow> HashRing" where
  "remove_node node_id r = r\<lparr>hr_nodes := map_erase node_id (hr_nodes r),
     hr_ring := filter (\<lambda>e. ni_id (snd e) \<noteq> node_id) (hr_ring r)\<rparr>"

definition update_node_status :: "int \<Rightarrow> bool \<Rightarrow> HashRing \<Rightarrow> HashRing" where
  "update_node_status node_id alive r =
    (case map_of (hr_nodes r) node_id of None \<Rightarrow> r
     | Some n \<Rightarrow> r\<lparr>hr_nodes := map_assign node_id (n\<lparr>ni_alive := alive\<rparr>) (hr_nodes r),
         hr_ring := map (\<lambda>(h, ni). (h, if ni_id ni = node_id then ni\<lparr>ni_alive := alive\<rparr> else ni))
           (hr_ring r)\<rparr>)"

section \<open>Lookup\<close>

text \<open>The iterator that a lookup starts from: the lower bound of the hash, or the beginning.\<close>

definition ring_start :: "u32 \<Rightarrow> (u32, NodeInfo) std_map \<Rightarrow> nat" where
  "ring_start h m = (let it = length (takeWhile (\<lambda>e. fst e < h) m)
     in if it = length m then 0 else it)"

definition ring_next :: "(u32, NodeInfo) std_map \<Rightarrow> nat \<Rightarrow> nat" where
  "ring_next m it = (if Suc it = length m then 0 else Suc it)"

text \<open>The first test of the loops holds of every iterator the code uses (\<open>ring_start_less\<close>).\<close>

function primary_loop :: "(u32, NodeInfo) std_map \<Rightarrow> nat \<Rightarrow> nat \<Rightarrow> NodeInfo option" where
  "primary_loop m start it =
    (if \<not> (start < length m \<and> it < length m) then None
     else if ni_alive (snd (m ! it)) then Some (snd (m ! it))
     else if ring_next m it = start then None
     else primary_loop m start (ring_next m it))"
  by pat_completeness auto
termination
  by (relation "measure (\<lambda>(m, start, it). if it < start then start - it else length m + start - it)")
    (auto simp: ring_next_def split: if_splits)

definition get_primary :: "string \<Rightarrow> HashRing \<Rightarrow> NodeInfo option" where
  "get_primary key r = (if hr_ring r = [] then None
     else let start = ring_start (murmur3 key) (hr_ring r)
          in primary_loop (hr_ring r) start start)"

function replicas_loop ::
    "(u32, NodeInfo) std_map \<Rightarrow> int \<Rightarrow> nat \<Rightarrow> nat \<Rightarrow> NodeInfo list \<Rightarrow> int set \<Rightarrow> NodeInfo list" where
  "replicas_loop m rf start it result seen =
    (if \<not> (start < length m \<and> it < length m) then result
     else let ni = snd (m ! it); hit = (ni_alive ni \<and> ni_id ni \<notin> seen);
              result' = (if hit then result @ [ni] else result);
              seen' = (if hit then insert (ni_id ni) seen else seen)
          in if hit \<and> int (length result') = rf then result'
             else if ring_next m it = start then result'
             else replicas_loop m rf start (ring_next m it) result' seen')"
  by pat_completeness auto
termination
  by (relation "measure (\<lambda>(m, rf, start, it, result, seen).
        if it < start then start - it else length m + start - it)")
    (auto simp: ring_next_def split: if_splits)

declare primary_loop.simps [simp del] replicas_loop.simps [simp del]

definition get_replicas :: "string \<Rightarrow> int \<Rightarrow> HashRing \<Rightarrow> NodeInfo list" where
  "get_replicas key rf r = (if hr_ring r = [] then []
     else let start = ring_start (murmur3 key) (hr_ring r)
          in replicas_loop (hr_ring r) rf start start [] {})"

definition get_all_nodes :: "HashRing \<Rightarrow> NodeInfo list" where
  "get_all_nodes r = map snd (hr_nodes r)"

definition node_count :: "HashRing \<Rightarrow> nat" where
  "node_count r = length (hr_nodes r)"

section \<open>The loops walk the ring once, clockwise\<close>

text \<open>The entries from \<open>it\<close> on, up to the start, and the whole ring in clockwise order.\<close>

definition path_from :: "'a list \<Rightarrow> nat \<Rightarrow> nat \<Rightarrow> 'a list" where
  "path_from m start it = (if it < start then take (start - it) (drop it m)
     else drop it m @ take start m)"

definition clockwise :: "u32 \<Rightarrow> (u32, NodeInfo) std_map \<Rightarrow> NodeInfo list" where
  "clockwise h m = map snd (filter (\<lambda>e. h \<le> fst e) m @ filter (\<lambda>e. fst e < h) m)"

text \<open>One entry per node, the first one; the entries whose node was seen are skipped.\<close>

fun first_by_id :: "int set \<Rightarrow> NodeInfo list \<Rightarrow> NodeInfo list" where
  "first_by_id seen [] = []"
| "first_by_id seen (n # ns) = (if ni_id n \<in> seen then first_by_id seen ns
     else n # first_by_id (insert (ni_id n) seen) ns)"

lemma path_from_step:
  assumes "start < length m" "it < length m"
  shows "path_from m start it = m ! it #
    (if ring_next m it = start then [] else path_from m start (ring_next m it))"
proof -
  have d: "drop it m = m ! it # drop (Suc it) m"
    using assms(2) by (simp add: Cons_nth_drop_Suc)
  show ?thesis
  proof (cases "it < start")
    case True
    then have k: "start - it = Suc (start - Suc it)" by simp
    with True assms d show ?thesis
      by (auto simp: path_from_def ring_next_def)
  next
    case False
    with assms d show ?thesis
      by (auto simp: path_from_def ring_next_def)
  qed
qed

lemma primary_loop_path:
  assumes "start < length m" "it < length m"
  shows "primary_loop m start it = find ni_alive (map snd (path_from m start it))"
  using assms
proof (induction m start it rule: primary_loop.induct)
  case (1 m start it)
  have n: "ring_next m it < length m"
    using "1.prems" by (auto simp: ring_next_def)
  show ?case
    using "1.prems" "1.IH" [OF _ _ _ "1.prems"(1) n]
    by (subst primary_loop.simps) (simp add: path_from_step)
qed

lemma replicas_loop_path:
  assumes "start < length m" "it < length m" "1 \<le> rf" "int (length result) < rf"
  shows "replicas_loop m rf start it result seen =
    result @ take (nat rf - length result)
      (first_by_id seen (filter ni_alive (map snd (path_from m start it))))"
  using assms
proof (induction m rf start it result seen rule: replicas_loop.induct)
  case (1 m rf start it result seen)
  have n: "ring_next m it < length m"
    using "1.prems" by (auto simp: ring_next_def)
  define ni where "ni = snd (m ! it)"
  define rest where "rest = (if ring_next m it = start then [] else path_from m start (ring_next m it))"
  have p: "path_from m start it = m ! it # rest"
    using path_from_step [OF "1.prems"(1,2)] by (simp add: rest_def)
  show ?case
  proof (cases "ni_alive ni \<and> ni_id ni \<notin> seen")
    case True
    have t: "nat rf - length result = Suc (nat rf - length (result @ [ni]))"
      using "1.prems" by auto
    show ?thesis
    proof (cases "int (length (result @ [ni])) = rf")
      case True': True
      with True "1.prems" t p show ?thesis
        by (subst replicas_loop.simps) (auto simp: Let_def ni_def [symmetric])
    next
      case False
      with "1.prems" have lt: "int (length (result @ [ni])) < rf" by auto
      show ?thesis
        using True False "1.prems" t p n lt "1.IH" [OF _ ni_def refl refl refl _ _ "1.prems"(1) n "1.prems"(3)]
        by (subst replicas_loop.simps) (auto simp: Let_def ni_def [symmetric] rest_def)
    qed
  next
    case False
    then show ?thesis
      using "1.prems" p n "1.IH" [OF _ ni_def refl refl refl _ _ "1.prems"(1) n "1.prems"(3)]
      by (subst replicas_loop.simps) (auto simp: Let_def ni_def [symmetric] rest_def)
  qed
qed

lemma ring_start_less: "m \<noteq> [] \<Longrightarrow> ring_start h m < length m"
  using length_takeWhile_le [of "\<lambda>e. fst e < h" m]
  by (auto simp: ring_start_def Let_def le_less)

lemma path_from_start: "path_from m s s = drop s m @ take s m"
  by (simp add: path_from_def)

lemma filter_lower: "map_wf m \<Longrightarrow> filter (\<lambda>e. h \<le> fst e) m = dropWhile (\<lambda>e. fst e < h) m"
proof (induction m)
  case (Cons e es)
  show ?case
  proof (cases "h \<le> fst e")
    case True
    with Cons.prems have "\<forall>x \<in> set es. h \<le> fst x" by (auto dest: order.strict_trans1)
    with True show ?thesis by (simp add: filter_id_conv leD)
  next
    case False
    with Cons show ?thesis by simp
  qed
qed simp

lemma filter_upper: "map_wf m \<Longrightarrow> filter (\<lambda>e. fst e < h) m = takeWhile (\<lambda>e. fst e < h) m"
proof (induction m)
  case (Cons e es)
  show ?case
  proof (cases "fst e < h")
    case False
    with Cons.prems have "\<forall>x \<in> set es. \<not> fst x < h" by (auto dest: order.strict_trans)
    with False show ?thesis by (simp add: filter_empty_conv)
  next
    case True
    with Cons show ?thesis by simp
  qed
qed simp

lemma path_clockwise:
  assumes "map_wf m"
  shows "map snd (path_from m (ring_start h m) (ring_start h m)) = clockwise h m"
proof -
  let ?n = "length (takeWhile (\<lambda>e. fst e < h) m)"
  have tw: "take ?n m = takeWhile (\<lambda>e. fst e < h) m" "drop ?n m = dropWhile (\<lambda>e. fst e < h) m"
    by (metis takeWhile_eq_take) (metis dropWhile_eq_drop)
  have c: "clockwise h m = map snd (drop ?n m @ take ?n m)"
    unfolding clockwise_def filter_lower [OF assms] filter_upper [OF assms] tw ..
  show ?thesis
  proof (cases "?n = length m")
    case True
    then have "ring_start h m = 0" by (simp add: ring_start_def)
    then show ?thesis unfolding c True by (simp add: path_from_start)
  next
    case False
    then have "ring_start h m = ?n" by (simp add: ring_start_def Let_def)
    then show ?thesis unfolding c by (simp add: path_from_start)
  qed
qed

lemma get_primary_clockwise:
  "map_wf (hr_ring r) \<Longrightarrow> get_primary key r = find ni_alive (clockwise (murmur3 key) (hr_ring r))"
  using ring_start_less [of "hr_ring r" "murmur3 key"]
  by (auto simp: get_primary_def Let_def primary_loop_path path_clockwise) (simp add: clockwise_def)

lemma get_replicas_clockwise:
  "map_wf (hr_ring r) \<Longrightarrow> 1 \<le> rf \<Longrightarrow> get_replicas key rf r =
     take (nat rf) (first_by_id {} (filter ni_alive (clockwise (murmur3 key) (hr_ring r))))"
  using ring_start_less [of "hr_ring r" "murmur3 key"]
  by (auto simp: get_replicas_def Let_def replicas_loop_path path_clockwise) (simp add: clockwise_def)

end
