(* ===== verification/Ring_Routing.thy ===== *)
theory Ring_Routing
  imports Hash_Ring
begin

text \<open>
  The invariant of the hash ring and the routing properties: who owns a key, which nodes hold
  its replicas, and which keys move when nodes join, leave, fail and come back. The locale
  \<open>router\<close> is what the coordinator relies on; the hash ring interprets it.
\<close>

section \<open>The invariant\<close>

text \<open>
  The entries of the ring agree with the table of nodes and stand at the hashes of their
  node's virtual nodes, and the table is indexed by the identifiers of its nodes.
\<close>

definition ring_inv :: "HashRing \<Rightarrow> bool" where
  "ring_inv r \<longleftrightarrow> map_wf (hr_ring r) \<and> map_wf (hr_nodes r) \<and>
     (\<forall>(h, n) \<in> set (hr_ring r). map_of (hr_nodes r) (ni_id n) = Some n \<and>
        h \<in> (\<lambda>i. vnode_hash (ni_id n) (int i)) ` {0..<VIRTUAL_NODES}) \<and>
     (\<forall>(i, n) \<in> set (hr_nodes r). ni_id n = i)"

lemma ring_invD:
  assumes "ring_inv r"
  shows "map_wf (hr_ring r)" "map_wf (hr_nodes r)"
    "(h, n) \<in> set (hr_ring r) \<Longrightarrow> map_of (hr_nodes r) (ni_id n) = Some n"
    "(h, n) \<in> set (hr_ring r) \<Longrightarrow> h \<in> (\<lambda>i. vnode_hash (ni_id n) (int i)) ` {0..<VIRTUAL_NODES}"
    "map_of (hr_nodes r) i = Some n \<Longrightarrow> ni_id n = i"
  using assms unfolding ring_inv_def by (blast, blast, blast, blast, auto dest: map_of_SomeD)

lemma ring_inv_init [simp]: "ring_inv HashRing_init"
  by (simp add: ring_inv_def HashRing_init_def)

lemma add_vnodes_wf: "map_wf m \<Longrightarrow> map_wf (foldl (add_vnode node) m is)"
  by (induction "is" arbitrary: m) (auto simp: add_vnode_def map_wf_assign)

lemma add_vnodes_lookup:
  "map_of (foldl (add_vnode node) m is) h =
    (if h \<in> (\<lambda>i. vnode_hash (ni_id node) (int i)) ` set is then Some node else map_of m h)"
  by (induction "is" arbitrary: m) (auto simp: add_vnode_def)

lemma add_vnodes_entries:
  assumes "map_wf m" "(h, n) \<in> set (foldl (add_vnode node) m is)"
  shows "n = node \<and> h \<in> (\<lambda>i. vnode_hash (ni_id node) (int i)) ` set is \<or>
    (h, n) \<in> set m \<and> h \<notin> (\<lambda>i. vnode_hash (ni_id node) (int i)) ` set is"
proof -
  have "map_of (foldl (add_vnode node) m is) h = Some n"
    using assms smap.entry_iff [OF add_vnodes_wf [OF assms(1)]] by blast
  then show ?thesis
    using assms(1) smap.entry_iff [OF assms(1)] by (auto simp: add_vnodes_lookup split: if_splits)
qed

lemma ring_inv_add: "ring_inv r \<Longrightarrow> ring_inv (add_node node r)"
proof -
  assume inv: "ring_inv r"
  let ?ring = "foldl (add_vnode node) (hr_ring r) [0..<VIRTUAL_NODES]"
  let ?H = "(\<lambda>i. vnode_hash (ni_id node) (int i)) ` {0..<VIRTUAL_NODES}"
  have ring: "((map_of (hr_nodes r))(ni_id node \<mapsto> node)) (ni_id n) = Some n \<and>
      h \<in> (\<lambda>i. vnode_hash (ni_id n) (int i)) ` {0..<VIRTUAL_NODES}"
    if "(h, n) \<in> set ?ring" for h n
    using add_vnodes_entries [OF ring_invD(1) [OF inv] that] ring_invD(3,4) [OF inv, of h n]
    by auto
  have nodes: "ni_id n = i" if "(i, n) \<in> set (map_assign (ni_id node) node (hr_nodes r))" for i n
    using that inv ring_invD(2) [OF inv] by (auto simp: set_map_assign ring_inv_def)
  have "map_wf ?ring" "map_wf (map_assign (ni_id node) node (hr_nodes r))"
    using ring_invD(1,2) [OF inv] by (simp_all add: add_vnodes_wf map_wf_assign)
  then show ?thesis
    unfolding ring_inv_def add_node_def using ring nodes by (force simp del: fun_upd_apply)
qed

lemma ring_inv_remove: "ring_inv r \<Longrightarrow> ring_inv (remove_node i r)"
  unfolding ring_inv_def remove_node_def
  by (auto simp: map_wf_filter smap.wf_erase map_of_erase) (auto simp: map_erase_def)

definition set_alive :: "int \<Rightarrow> bool \<Rightarrow> NodeInfo \<Rightarrow> NodeInfo" where
  "set_alive i a n = (if ni_id n = i then n\<lparr>ni_alive := a\<rparr> else n)"

lemma set_alive_id [simp]: "ni_id (set_alive i a n) = ni_id n"
  by (simp add: set_alive_def)

lemma update_ring:
  "map_of (hr_nodes r) i \<noteq> None \<Longrightarrow>
   hr_ring (update_node_status i a r) = map (apsnd (set_alive i a)) (hr_ring r)"
  by (auto simp: update_node_status_def set_alive_def split: option.splits)

lemma update_unknown: "map_of (hr_nodes r) i = None \<Longrightarrow> update_node_status i a r = r"
  by (simp add: update_node_status_def)

lemma update_nodes:
  "map_of (hr_nodes (update_node_status i a r)) j =
    (if j = i then map_option (\<lambda>n. n\<lparr>ni_alive := a\<rparr>) (map_of (hr_nodes r) i)
     else map_of (hr_nodes r) j)"
  by (auto simp: update_node_status_def split: option.splits)

lemma ring_inv_update: "ring_inv r \<Longrightarrow> ring_inv (update_node_status i a r)"
proof (cases "map_of (hr_nodes r) i")
  case None
  then show "ring_inv r \<Longrightarrow> ?thesis" by (simp add: update_unknown)
next
  case (Some x)
  assume inv: "ring_inv r"
  have x: "ni_id x = i" using ring_invD(5) [OF inv Some] .
  have ring: "hr_ring (update_node_status i a r) = map (apsnd (set_alive i a)) (hr_ring r)"
    using Some by (simp add: update_ring)
  have "map_of (hr_nodes (update_node_status i a r)) (ni_id m) = Some (set_alive i a m)"
    if "(h, m) \<in> set (hr_ring r)" for h m
    using ring_invD(3) [OF inv that] Some by (auto simp: update_nodes set_alive_def)
  moreover have "map_wf (hr_nodes (update_node_status i a r))"
    "\<forall>(j, n) \<in> set (hr_nodes (update_node_status i a r)). ni_id n = j"
    using ring_invD(2) [OF inv] inv Some x
    by (auto simp: update_node_status_def map_wf_assign set_map_assign ring_inv_def)
  moreover have "map_wf (map (apsnd (set_alive i a)) (hr_ring r))"
    using ring_invD(1) [OF inv] by (simp add: map_wf_map)
  ultimately show ?thesis
    using ring_invD(4) [OF inv] unfolding ring_inv_def ring by auto
qed

section \<open>Searches\<close>

lemma find_filter: "find P l = Some x \<Longrightarrow> Q x \<Longrightarrow> find P (filter Q l) = Some x"
  by (induction l) (auto split: if_splits)

lemma find_append: "find P (a @ b) = (case find P a of None \<Rightarrow> find P b | Some x \<Rightarrow> Some x)"
  by (induction a) auto

lemma find_Some_set: "find P l = Some x \<Longrightarrow> x \<in> set l \<and> P x"
  by (induction l) (auto split: if_splits)

lemma find_filter_hd: "find P l = (case filter P l of [] \<Rightarrow> None | x # _ \<Rightarrow> Some x)"
  by (induction l) auto

lemma set_clockwise: "set (clockwise h m) = snd ` set m"
  by (force simp: clockwise_def)

lemma clockwise_filter: "clockwise h (filter (\<lambda>e. P (snd e)) m) = filter P (clockwise h m)"
  by (simp add: clockwise_def filter_map comp_def conj_commute)

lemma clockwise_map: "clockwise h (map (apsnd f) m) = map f (clockwise h m)"
  by (simp add: clockwise_def filter_map comp_def)

lemma filter_assign:
  "map_wf m \<Longrightarrow> filter (\<lambda>e. P (fst e)) (map_assign k v m) =
     (if P k then map_assign k v (filter (\<lambda>e. P (fst e)) m) else filter (\<lambda>e. P (fst e)) m)"
proof (induction m)
  case (Cons e es)
  have lt: "k < fst x" if "fst e = k \<or> k < fst e" "x \<in> set es" for x
    using that Cons.prems by (auto dest: order.strict_trans)
  have "map_assign k v (filter (\<lambda>e. P (fst e)) es) = (k, v) # filter (\<lambda>e. P (fst e)) es"
    if "fst e = k \<or> k < fst e"
    using lt [OF that] by (cases "filter (\<lambda>e. P (fst e)) es") (fastforce dest: filter_eq_ConsD)+
  with Cons show ?case by auto
qed simp

lemma find_assign:
  "ni_alive v \<Longrightarrow> find ni_alive (map snd (map_assign k v m)) = Some v \<or>
     find ni_alive (map snd (map_assign k v m)) = find ni_alive (map snd m)"
  by (induction m) auto

lemma find_clockwise_assign:
  assumes "map_wf m" "ni_alive v"
  shows "find ni_alive (clockwise h (map_assign k v m)) = Some v \<or>
    find ni_alive (clockwise h (map_assign k v m)) = find ni_alive (clockwise h m)"
proof -
  let ?A = "filter (\<lambda>e. h \<le> fst e)" and ?B = "filter (\<lambda>e. fst e < h)"
  have "?A (map_assign k v m) = (if h \<le> k then map_assign k v (?A m) else ?A m)"
    "?B (map_assign k v m) = (if k < h then map_assign k v (?B m) else ?B m)"
    using filter_assign [OF assms(1), of "\<lambda>x. h \<le> x"] filter_assign [OF assms(1), of "\<lambda>x. x < h"]
    by simp_all
  then show ?thesis
    using find_assign [OF assms(2), of k "?A m"] find_assign [OF assms(2), of k "?B m"]
    by (auto simp: clockwise_def find_append split: option.splits)
qed

lemma find_add_vnodes:
  assumes "map_wf m" "ni_alive node"
  shows "find ni_alive (clockwise h (foldl (add_vnode node) m is)) = Some node \<or>
    find ni_alive (clockwise h (foldl (add_vnode node) m is)) = find ni_alive (clockwise h m)"
  using assms(1)
proof (induction "is" arbitrary: m)
  case (Cons i "is")
  have "map_wf (add_vnode node m i)"
    using Cons.prems by (simp add: add_vnode_def map_wf_assign)
  from Cons.IH [OF this] find_clockwise_assign [OF Cons.prems assms(2)]
  show ?case unfolding foldl.simps add_vnode_def by metis
qed simp

lemma find_set_alive_False:
  "find ni_alive (map (set_alive i False) l) = find ni_alive (filter (\<lambda>n. ni_id n \<noteq> i) l)"
  by (induction l) (auto simp: set_alive_def)

lemma filter_set_alive_False:
  "filter ni_alive (map (set_alive i False) l) = filter ni_alive (filter (\<lambda>n. ni_id n \<noteq> i) l)"
  by (induction l) (auto simp: set_alive_def)

section \<open>Replica lists\<close>

lemma first_by_id_set: "n \<in> set (first_by_id seen l) \<Longrightarrow> n \<in> set l \<and> ni_id n \<notin> seen"
  by (induction seen l rule: first_by_id.induct) (auto split: if_splits)

lemma first_by_id_ids: "ni_id ` set (first_by_id seen l) = ni_id ` set l - seen"
  by (induction seen l rule: first_by_id.induct) auto

lemma first_by_id_distinct: "distinct (map ni_id (first_by_id seen l))"
proof (induction seen l rule: first_by_id.induct)
  case (2 seen n ns)
  then show ?case using first_by_id_set [of _ "insert (ni_id n) seen" ns] by (force simp: image_iff)
qed simp

lemma first_by_id_length: "length (first_by_id {} l) = card (ni_id ` set l)"
proof -
  have "card (set (map ni_id (first_by_id {} l))) = length (map ni_id (first_by_id {} l))"
    by (rule distinct_card [OF first_by_id_distinct])
  then show ?thesis using first_by_id_ids [of "{}" l] by simp
qed

lemma first_by_id_hd: "l \<noteq> [] \<Longrightarrow> \<exists>ns. first_by_id {} l = hd l # ns"
  by (cases l) auto

section \<open>The interface of the ring\<close>

locale router =
  fixes primary :: "string \<Rightarrow> 'r \<Rightarrow> NodeInfo option"
    and replicas :: "string \<Rightarrow> int \<Rightarrow> 'r \<Rightarrow> NodeInfo list"
    and valid :: "'r \<Rightarrow> bool"
  assumes primary_alive: "valid r \<Longrightarrow> primary k r = Some n \<Longrightarrow> ni_alive n"
    and replicas_alive: "valid r \<Longrightarrow> 1 \<le> rf \<Longrightarrow> n \<in> set (replicas k rf r) \<Longrightarrow> ni_alive n"
    and replicas_distinct: "valid r \<Longrightarrow> 1 \<le> rf \<Longrightarrow> distinct (map ni_id (replicas k rf r))"
    and replicas_length: "valid r \<Longrightarrow> 1 \<le> rf \<Longrightarrow> length (replicas k rf r) \<le> nat rf"
    and replicas_primary: "valid r \<Longrightarrow> 1 \<le> rf \<Longrightarrow> primary k r = Some n \<Longrightarrow>
      \<exists>ns. replicas k rf r = n # ns"
begin

text \<open>The nodes that the owner of a key sends a change to.\<close>

lemma primary_targets:
  assumes "valid r" "1 \<le> rf" "primary k r = Some n"
  shows "filter (\<lambda>m. ni_id m \<noteq> ni_id n) (replicas k rf r) = tl (replicas k rf r)"
proof -
  obtain ns where ns: "replicas k rf r = n # ns"
    using replicas_primary [OF assms] by blast
  then have "\<forall>m \<in> set ns. ni_id m \<noteq> ni_id n"
    using replicas_distinct [OF assms(1,2), of k] by (force simp: image_iff)
  then show ?thesis by (simp add: ns filter_id_conv)
qed

lemma primary_targets_length:
  assumes "valid r" "1 \<le> rf" "primary k r = Some n"
  shows "length (filter (\<lambda>m. ni_id m \<noteq> ni_id n) (replicas k rf r)) \<le> nat rf - 1"
  using primary_targets [OF assms] replicas_length [OF assms(1,2), of k] by simp

end

lemma get_replicas_hd:
  assumes "ring_inv r" "1 \<le> rf" "get_primary k r = Some n"
  shows "\<exists>ns. get_replicas k rf r = n # ns"
proof -
  let ?l = "filter ni_alive (clockwise (murmur3 k) (hr_ring r))"
  have "find ni_alive (clockwise (murmur3 k) (hr_ring r)) = Some n"
    using assms by (simp add: get_primary_clockwise ring_invD)
  then have l: "?l \<noteq> []" "hd ?l = n"
    by (auto simp: find_filter_hd split: list.splits)
  then obtain ns where "first_by_id {} ?l = n # ns"
    using first_by_id_hd by metis
  with assms show ?thesis
    by (cases "nat rf") (simp_all add: get_replicas_clockwise ring_invD)
qed

lemma get_replicas_elem:
  assumes "ring_inv r" "1 \<le> rf" "n \<in> set (get_replicas k rf r)"
  shows "ni_alive n \<and> n \<in> snd ` set (hr_ring r)"
proof -
  let ?l = "filter ni_alive (clockwise (murmur3 k) (hr_ring r))"
  have "n \<in> set (first_by_id {} ?l)"
    using assms by (auto simp: get_replicas_clockwise ring_invD dest: in_set_takeD)
  then have "n \<in> set ?l" by (blast dest: first_by_id_set)
  then show ?thesis by (simp add: set_clockwise)
qed

interpretation hring: router get_primary get_replicas ring_inv
proof unfold_locales
  fix r k n assume "ring_inv r" "get_primary k r = Some n"
  then show "ni_alive n"
    by (auto simp: get_primary_clockwise ring_invD dest: find_Some_set)
next
  fix r k n and rf :: int assume "ring_inv r" "1 \<le> rf" "n \<in> set (get_replicas k rf r)"
  then show "ni_alive n" by (simp add: get_replicas_elem)
next
  fix r k and rf :: int assume "ring_inv r" "1 \<le> rf"
  then show "distinct (map ni_id (get_replicas k rf r))" "length (get_replicas k rf r) \<le> nat rf"
    by (simp_all add: get_replicas_clockwise ring_invD take_map [symmetric] first_by_id_distinct)
next
  fix r k n and rf :: int assume "ring_inv r" "1 \<le> rf" "get_primary k r = Some n"
  then show "\<exists>ns. get_replicas k rf r = n # ns" by (rule get_replicas_hd)
qed

section \<open>Properties\<close>

lemmas primary_clockwise = get_primary_clockwise [OF ring_invD(1)]
lemmas replicas_clockwise = get_replicas_clockwise [OF ring_invD(1)]

lemma remove_clockwise:
  "clockwise h (hr_ring (remove_node i r)) = filter (\<lambda>n. ni_id n \<noteq> i) (clockwise h (hr_ring r))"
  using clockwise_filter [of h "\<lambda>n. ni_id n \<noteq> i" "hr_ring r"] by (simp add: remove_node_def)

text \<open>A ring with three entries of three nodes, for the witnesses.\<close>

definition ring_node :: "int \<Rightarrow> NodeInfo" where
  "ring_node i = \<lparr>ni_id = i, ni_host = ''h'', ni_port = 8000 + i, ni_alive = True\<rparr>"

definition ring3 :: HashRing where
  "ring3 = add_node (ring_node 3) (add_node (ring_node 2) (add_node (ring_node 1) HashRing_init))"

lemma ring3_inv [simp]: "ring_inv ring3"
  by (simp add: ring3_def ring_inv_add)

lemma ring3_nodes [simp]: "map_of (hr_nodes ring3) i = (if i \<in> {1, 2, 3} then Some (ring_node i) else None)"
  by (auto simp: ring3_def add_node_def HashRing_init_def ring_node_def)

lemma ring3_alive: "n \<in> snd ` set (hr_ring ring3) \<Longrightarrow> ni_alive n \<and> n = ring_node (ni_id n) \<and> ni_id n \<in> {1, 2, 3}"
  using ring_invD(3) [OF ring3_inv] by (fastforce simp: ring_node_def split: if_splits)

text \<open>C12: the wrapping loops of the hash ring terminate and compute what consistent hashing
  prescribes: the owner of a key is the first live entry in clockwise order from the hash of
  the key, and the replicas are the first \<open>rf\<close> different live nodes in that order.\<close>

theorem ring_lookup_spec:
  assumes "ring_inv r" "1 \<le> rf"
  shows "get_primary key r = find ni_alive (clockwise (murmur3 key) (hr_ring r)) \<and>
    get_replicas key rf r =
      take (nat rf) (first_by_id {} (filter ni_alive (clockwise (murmur3 key) (hr_ring r))))"
  using assms by (simp add: primary_clockwise replicas_clockwise)

theorem ring_lookup_spec_witness:
  "get_primary ''k'' ring3 = find ni_alive (clockwise (murmur3 ''k'') (hr_ring ring3)) \<and>
   get_replicas ''k'' 3 ring3 =
     take (nat 3) (first_by_id {} (filter ni_alive (clockwise (murmur3 ''k'') (hr_ring ring3))))"
  using ring_lookup_spec [OF ring3_inv, of 3 "''k''"] by simp

text \<open>C11: replica sets. The replicas of a key are live, pairwise different nodes of the ring,
  the owner first; there are exactly \<open>rf\<close> of them, or as many as the ring has live nodes if
  these are fewer; and there is none only when no node is live, in which case there is no
  owner either.\<close>

theorem replicas_correct:
  assumes "ring_inv r" "1 \<le> rf"
  shows "distinct (map ni_id (get_replicas key rf r)) \<and>
    (\<forall>n \<in> set (get_replicas key rf r). ni_alive n \<and> n \<in> snd ` set (hr_ring r)) \<and>
    length (get_replicas key rf r) =
      min (nat rf) (card {ni_id n | n. n \<in> snd ` set (hr_ring r) \<and> ni_alive n}) \<and>
    get_primary key r = (case get_replicas key rf r of [] \<Rightarrow> None | n # _ \<Rightarrow> Some n)"
proof -
  let ?l = "filter ni_alive (clockwise (murmur3 key) (hr_ring r))"
  have "ni_id ` set ?l = {ni_id n | n. n \<in> snd ` set (hr_ring r) \<and> ni_alive n}"
    by (auto simp: set_clockwise)
  then have len: "length (get_replicas key rf r) =
      min (nat rf) (card {ni_id n | n. n \<in> snd ` set (hr_ring r) \<and> ni_alive n})"
    using first_by_id_length [of ?l] assms by (simp add: replicas_clockwise min.commute)
  have "get_primary key r = (case get_replicas key rf r of [] \<Rightarrow> None | n # _ \<Rightarrow> Some n)"
  proof (cases "get_primary key r")
    case None
    then have "?l = []"
      using assms by (auto simp: primary_clockwise find_filter_hd split: list.splits)
    with assms None show ?thesis by (simp add: replicas_clockwise)
  next
    case (Some n)
    with get_replicas_hd [OF assms Some] show ?thesis by auto
  qed
  with len assms show ?thesis
    by (auto simp: hring.replicas_distinct dest: get_replicas_elem)
qed

theorem replicas_correct_witness:
  "distinct (map ni_id (get_replicas ''k'' 3 ring3)) \<and>
   ni_id ` set (get_replicas ''k'' 3 ring3) \<subseteq> {1, 2, 3} \<and>
   length (get_replicas ''k'' 3 ring3) \<le> 3"
proof -
  note c = replicas_correct [OF ring3_inv, of 3 "''k''", simplified]
  then have "ni_id n \<in> {1, 2, 3}" if "n \<in> set (get_replicas ''k'' 3 ring3)" for n
    using ring3_alive that by blast
  with c show ?thesis by (simp add: subset_eq)
qed

text \<open>Availability of routing. A key has an owner exactly when some entry of the ring
  belongs to a live node.\<close>

theorem routed_iff_alive:
  assumes "ring_inv r"
  shows "get_primary key r \<noteq> None \<longleftrightarrow> (\<exists>e \<in> set (hr_ring r). ni_alive (snd e))"
  using assms set_clockwise [of "murmur3 key" "hr_ring r"]
  by (auto simp: primary_clockwise find_None_iff)

lemma ring3_not_empty: "\<exists>e \<in> set (hr_ring ring3). ni_alive (snd e)"
proof -
  have "vnode_hash 3 0 \<in> (\<lambda>i. vnode_hash (ni_id (ring_node 3)) (int i)) ` set [0..<VIRTUAL_NODES]"
    by (rule image_eqI [of _ _ 0]) (simp_all add: ring_node_def VIRTUAL_NODES_def)
  then have "map_of (hr_ring ring3) (vnode_hash 3 0) = Some (ring_node 3)"
    by (simp add: ring3_def add_node_def [of "ring_node 3"] add_vnodes_lookup)
  then have "(vnode_hash 3 0, ring_node 3) \<in> set (hr_ring ring3)"
    by (rule map_of_SomeD)
  then show ?thesis by (force simp: ring_node_def)
qed

lemma ring3_routed: "\<exists>p. get_primary key ring3 = Some p"
proof -
  have "find ni_alive (clockwise (murmur3 key) (hr_ring ring3)) \<noteq> None"
    using ring3_not_empty set_clockwise [of "murmur3 key" "hr_ring ring3"]
    unfolding find_None_iff by blast
  then show ?thesis by (simp add: primary_clockwise)
qed

text \<open>C18: minimal migration when a node leaves. Removing a node moves only the keys that it
  owned: every other key keeps its owner.\<close>

theorem removal_moves_only_own_keys:
  assumes "ring_inv r" "get_primary key r = Some p" "ni_id p \<noteq> i"
  shows "get_primary key (remove_node i r) = Some p"
  using assms by (simp add: primary_clockwise ring_inv_remove remove_clockwise find_filter)

theorem removal_moves_only_own_keys_witness:
  "\<exists>p. get_primary ''user1'' ring3 = Some p \<and>
     (ni_id p = 2 \<or> get_primary ''user1'' (remove_node 2 ring3) = Some p)"
  using ring3_routed [of "''user1''"]
    removal_moves_only_own_keys [OF ring3_inv, of "''user1''" _ 2] by fastforce

text \<open>C19: minimal migration when a node joins. Adding a live node moves keys to that node only:
  the owner of every key is afterwards the new node or the owner it had.\<close>

theorem join_moves_keys_to_new_node:
  assumes "ring_inv r" "ni_alive node"
  shows "get_primary key (add_node node r) = Some node \<or>
    get_primary key (add_node node r) = get_primary key r"
  using find_add_vnodes [OF ring_invD(1) [OF assms(1)] assms(2), of "murmur3 key" "[0..<VIRTUAL_NODES]"]
    assms(1) by (simp add: primary_clockwise ring_inv_add) (simp add: add_node_def)

theorem join_moves_keys_to_new_node_witness:
  "get_primary ''user1'' (add_node (ring_node 4) ring3) = Some (ring_node 4) \<or>
   get_primary ''user1'' (add_node (ring_node 4) ring3) = get_primary ''user1'' ring3"
  using join_moves_keys_to_new_node [OF ring3_inv, of "ring_node 4"] by (simp add: ring_node_def)

text \<open>C20: a node that is marked down is routed around exactly as if it had been removed, for
  owners and for replicas, and marking it up again restores the ring.\<close>

theorem failure_and_recovery_routing:
  assumes "ring_inv r" "1 \<le> rf" "map_of (hr_nodes r) i = Some n" "ni_alive n"
  shows "get_primary key (update_node_status i False r) = get_primary key (remove_node i r) \<and>
    get_replicas key rf (update_node_status i False r) = get_replicas key rf (remove_node i r) \<and>
    update_node_status i True (update_node_status i False r) = r"
proof -
  have c: "clockwise h (hr_ring (update_node_status i False r)) =
      map (set_alive i False) (clockwise h (hr_ring r))"
    "clockwise h (hr_ring (remove_node i r)) = filter (\<lambda>n. ni_id n \<noteq> i) (clockwise h (hr_ring r))" for h
    using assms(3) by (simp_all add: update_ring clockwise_map remove_clockwise)
  have inv: "ring_inv (update_node_status i False r)" "ring_inv (remove_node i r)"
    using assms(1) by (simp_all add: ring_inv_update ring_inv_remove)
  have "map_of (hr_nodes (update_node_status i False r)) i \<noteq> None"
    using assms(3) by (simp add: update_nodes)
  moreover have "set_alive i True (set_alive i False m) = m" if "(h, m) \<in> set (hr_ring r)" for h m
    using ring_invD(3) [OF assms(1) that] assms(3,4) by (auto simp: set_alive_def)
  ultimately have ring: "hr_ring (update_node_status i True (update_node_status i False r)) = hr_ring r"
    using assms(3) by (auto simp: update_ring intro!: map_idI)
  have "n\<lparr>ni_alive := True\<rparr> = n" using assms(4) by simp
  then have nodes: "hr_nodes (update_node_status i True (update_node_status i False r)) = hr_nodes r"
    using assms(3) ring_invD(2) [OF assms(1)]
    by (simp add: update_node_status_def map_assign_restore)
  show ?thesis
    using assms(2) ring nodes
    by (simp add: primary_clockwise [OF inv(1)] primary_clockwise [OF inv(2)]
        replicas_clockwise [OF inv(1)] replicas_clockwise [OF inv(2)]
        c find_set_alive_False filter_set_alive_False)
qed

theorem failure_and_recovery_routing_witness:
  "get_primary ''user1'' (update_node_status 2 False ring3) = get_primary ''user1'' (remove_node 2 ring3) \<and>
   update_node_status 2 True (update_node_status 2 False ring3) = ring3"
  using failure_and_recovery_routing [OF ring3_inv, of 3 2 "ring_node 2" "''user1''"]
  by (simp add: ring_node_def)

end
