(* ===== verification/Coordinator.thy ===== *)
theory Coordinator
  imports Heartbeat Ring_Routing
begin

text \<open>
  \<^verbatim>\<open>include/coordinator.h\<close> and \<^verbatim>\<open>node/coordinator.cpp\<close>: the handler of every message, which routes
  reads and writes by the hash ring, and the callbacks of the failure detector. The storage, the
  replication manager and the election that the class refers to are the fields of the records
  below it; the ring is a field of its own. The lemmas show what the owner of a key answers,
  that a node that forwards a request changes nothing of its own, and that the ring and the
  failure detector agree on which nodes are down.
\<close>

record coord = heartbeat +
  co_my_id :: int
  co_self :: NodeInfo
  co_ring :: HashRing

definition REPLICATION_FACTOR :: int where
  "REPLICATION_FACTOR = 3"

definition coordinator_init :: "int \<Rightarrow> NodeInfo \<Rightarrow> HashRing \<Rightarrow> heartbeat \<Rightarrow> coord" where
  "coordinator_init my_id self_info ring s = heartbeat.extend s \<lparr>co_my_id = my_id, co_self = self_info, co_ring = ring\<rparr>"

section \<open>Operations\<close>

definition make_error :: "int \<Rightarrow> string \<Rightarrow> Message" where
  "make_error my_id err = Message0\<lparr>m_type := ACK, m_node_id := my_id, m_success := False, m_error := err\<rparr>"

definition make_ack :: "int \<Rightarrow> bool \<Rightarrow> string \<Rightarrow> Message" where
  "make_ack my_id ok val = Message0\<lparr>m_type := ACK, m_node_id := my_id, m_success := ok, m_value := val\<rparr>"

text \<open>The last resort of a request that no node answered.\<close>

definition forward_local :: "Message \<Rightarrow> ('z coord_scheme, Message) io" where
  "forward_local msg = io_bind (io_gets co_my_id) (\<lambda>my_id.
     if m_type msg = GET then io_bind (io_get (m_key msg)) (\<lambda>val. io_return (case val of
         Some v \<Rightarrow> make_ack my_id True v | None \<Rightarrow> make_error my_id ''All nodes for key unavailable''))
     else io_return (make_error my_id ''All nodes for key unavailable''))"

fun forward_loop :: "env \<Rightarrow> int \<Rightarrow> Message \<Rightarrow> NodeInfo list \<Rightarrow> ('z coord_scheme, Message) io" where
  "forward_loop en target_id msg [] = forward_local msg"
| "forward_loop en target_id msg (r # rs) =
    (if ni_id r = target_id then forward_loop en target_id msg rs
     else io_bind (io_gets co_my_id) (\<lambda>my_id.
       if ni_id r = my_id then
         (if m_type msg = GET then io_bind (io_get (m_key msg)) (\<lambda>val. case val of
              Some v \<Rightarrow> io_return (make_ack my_id True v) | None \<Rightarrow> forward_loop en target_id msg rs)
          else forward_loop en target_id msg rs)
       else io_bind (send_message en (ni_host r) (ni_port r) msg) (\<lambda>resp. case resp of
              Some m \<Rightarrow> if m_success m then io_return m else forward_loop en target_id msg rs
            | None \<Rightarrow> forward_loop en target_id msg rs)))"

definition forward_to :: "env \<Rightarrow> NodeInfo \<Rightarrow> Message \<Rightarrow> ('z coord_scheme, Message) io" where
  "forward_to en target msg = io_bind (send_message en (ni_host target) (ni_port target) msg) (\<lambda>resp. case resp of
       Some m \<Rightarrow> io_return m
     | None \<Rightarrow> io_then (io_log WRN (''Primary node '' @ to_string (ni_id target) @ '' unreachable, trying replicas''))
         (io_bind (io_gets (\<lambda>s. get_replicas (m_key msg) REPLICATION_FACTOR (co_ring s)))
           (forward_loop en (ni_id target) msg)))"

text \<open>The common head of the three requests: an error without a live node, else the owner decides.\<close>

definition route :: "env \<Rightarrow> Message \<Rightarrow> (int \<Rightarrow> ('z coord_scheme, Message) io) \<Rightarrow> ('z coord_scheme, Message) io" where
  "route en msg serve = io_bind (io_gets (\<lambda>s. s)) (\<lambda>s. case get_primary (m_key msg) (co_ring s) of
       None \<Rightarrow> io_return (make_error (co_my_id s) (''No available node for key: '' @ m_key msg))
     | Some primary \<Rightarrow> if ni_id primary = co_my_id s then serve (co_my_id s) else forward_to en primary msg)"

definition replicate_key :: "env \<Rightarrow> string \<Rightarrow> string \<Rightarrow> MsgType \<Rightarrow> ('z coord_scheme, unit) io" where
  "replicate_key en key val oper = io_bind (io_gets (\<lambda>s. get_replicas key REPLICATION_FACTOR (co_ring s)))
     (replicate_to en key val oper)"

definition handle_put :: "env \<Rightarrow> Message \<Rightarrow> ('z coord_scheme, Message) io" where
  "handle_put en msg = route en msg (\<lambda>my_id.
     io_then (io_put en (m_key msg) (m_value msg))
    (io_then (replicate_key en (m_key msg) (m_value msg) PUT)
    (io_then (io_log INFO (''PUT key='' @ m_key msg @ '' stored locally + replicated''))
      (io_return (make_ack my_id True [])))))"

definition handle_get :: "env \<Rightarrow> Message \<Rightarrow> ('z coord_scheme, Message) io" where
  "handle_get en msg = route en msg (\<lambda>my_id.
     io_bind (io_get (m_key msg)) (\<lambda>val. io_return (case val of
         None \<Rightarrow> make_error my_id (''Key not found: '' @ m_key msg)
       | Some v \<Rightarrow> make_ack my_id True v)))"

definition handle_delete :: "env \<Rightarrow> Message \<Rightarrow> ('z coord_scheme, Message) io" where
  "handle_delete en msg = route en msg (\<lambda>my_id.
     io_bind (io_del en (m_key msg)) (\<lambda>removed.
       if \<not> removed then io_return (make_error my_id (''Key not found: '' @ m_key msg))
       else io_then (replicate_key en (m_key msg) [] DEL)
        (io_then (io_log INFO (''DELETE key='' @ m_key msg))
          (io_return (make_ack my_id True [])))))"

definition handle :: "env \<Rightarrow> Message \<Rightarrow> ('z coord_scheme, Message) io" where
  "handle en msg = (case m_type msg of
       PUT \<Rightarrow> handle_put en msg
     | GET \<Rightarrow> handle_get en msg
     | DEL \<Rightarrow> handle_delete en msg
     | REPLICATE \<Rightarrow> handle_replicate en msg
     | SYNC_REQUEST \<Rightarrow> handle_sync_request en msg
     | SYNC_DATA \<Rightarrow> io_then (handle_sync_data en msg) (io_gets (\<lambda>s. make_ack (co_my_id s) True []))
     | HEARTBEAT \<Rightarrow> io_gets (\<lambda>s. plain_ack (co_my_id s))
     | ELECTION \<Rightarrow> io_bind (handle_message announce_leader msg) (\<lambda>resp. case resp of
         Some m \<Rightarrow> io_return m | None \<Rightarrow> io_gets (\<lambda>s. make_ack (co_my_id s) True []))
     | LEADER \<Rightarrow> io_bind (handle_message announce_leader msg) (\<lambda>resp. case resp of
         Some m \<Rightarrow> io_return m | None \<Rightarrow> io_gets (\<lambda>s. make_ack (co_my_id s) True []))
     | _ \<Rightarrow> io_gets (\<lambda>s. make_error (co_my_id s) ''Unknown message type''))"

definition set_status :: "int \<Rightarrow> bool \<Rightarrow> ('z coord_scheme, unit) io" where
  "set_status node_id alive = io_modify (\<lambda>s. s\<lparr>co_ring := update_node_status node_id alive (co_ring s)\<rparr>)"

definition on_node_failure :: "env \<Rightarrow> int \<Rightarrow> ('z coord_scheme, unit) io" where
  "on_node_failure en node_id =
    io_then (set_status node_id False)
   (io_then (io_log WRN (''Node '' @ to_string node_id @ '' marked DOWN in hash ring''))
   (io_bind (io_gets get_leader) (\<lambda>leader.
      if leader = node_id then
        io_then (io_log INFO (''Leader failed '' @ [CHR 0xE2, CHR 0x80, CHR 0x94] @ '' triggering re-election''))
          (trigger_election en announce_leader)
      else io_return ())))"

definition on_node_recovery :: "int \<Rightarrow> ('z coord_scheme, unit) io" where
  "on_node_recovery node_id =
    io_then (set_status node_id True)
      (io_log INFO (''Node '' @ to_string node_id @ '' is BACK ONLINE''))"

definition get_cluster_status :: "'z coord_scheme \<Rightarrow> NodeInfo list" where
  "get_cluster_status s = get_all_nodes (co_ring s)"

definition get_leader_id :: "'z coord_scheme \<Rightarrow> int" where
  "get_leader_id s = get_leader s"

section \<open>Forwarding\<close>

text \<open>What an exchange with other nodes leaves alone: everything but the traffic and the log.\<close>

definition only_talks :: "'z sys_scheme \<Rightarrow> 'z sys_scheme \<Rightarrow> bool" where
  "only_talks s s' \<longleftrightarrow> same_more s s' \<and> sys_open s' = sys_open s \<and> sys_tasks s' = sys_tasks s"

interpretation talk: io_frame only_talks
  by unfold_locales (simp_all add: only_talks_def same_more_def)

lemma talk_sys [simp, intro]: "io_keeps only_talks (io_log lvl txt)" "io_keeps only_talks (io_get key)"
  by (simp_all add: io_keeps_def only_talks_def same_more_def io_get_def)

lemma talk_send: "texts_utf8 msg \<Longrightarrow> io_keeps only_talks (send_message en host port msg)"
  unfolding io_keeps_def only_talks_def
  by (auto dest!: send_message_exit simp: client_exit_def split: sum.splits)

lemma talk_fields:
  fixes s s' :: "'z coord_scheme"
  assumes "only_talks s s'"
  shows "rm_storage s' = rm_storage s" "co_ring s' = co_ring s" "co_my_id s' = co_my_id s"
    "sys_tasks s' = sys_tasks s" "sys_open s' = sys_open s" "coord.more s' = coord.more s"
  using assms by (cases s; cases s'; simp add: only_talks_def same_more_def)+

lemma safe_get [simp, intro]: "io_safe (io_get key)"
  by (simp add: io_get_def)

lemma forward_loop_talks:
  assumes "texts_utf8 msg"
  shows "io_keeps only_talks (forward_loop en i msg rs)" "io_safe (forward_loop en i msg rs)"
proof (induction rs)
  case Nil
  show "io_keeps only_talks (forward_loop en i msg [])" "io_safe (forward_loop en i msg [])"
    unfolding forward_loop.simps forward_local_def by (intro talk.keeps_rules safe_rules; blast)+
next
  case (Cons r rs)
  case 1
  show ?case
    unfolding forward_loop.simps
    by (intro talk.keeps_rules talk_send [OF assms] Cons.IH(1); blast)
next
  case (Cons r rs)
  case 2
  show ?case
    unfolding forward_loop.simps
    by (intro safe_rules send_message_safe [OF assms] Cons.IH(2); blast)
qed

lemma forward_talks:
  assumes "texts_utf8 msg"
  shows "io_keeps only_talks (forward_to en target msg)" "io_safe (forward_to en target msg)"
  unfolding forward_to_def
  by (intro talk.keeps_rules talk_send [OF assms] forward_loop_talks [OF assms]; blast)
    (intro safe_rules send_message_safe [OF assms] forward_loop_talks [OF assms]; blast)

lemma forward_to_talks:
  "texts_utf8 msg \<Longrightarrow> forward_to en target msg s = Some (r, s') \<Longrightarrow> only_talks s s'"
  by (rule io_keepsD [OF forward_talks(1)])

text \<open>The answer that a node gives on its own.\<close>

definition own_answer :: "'z coord_scheme \<Rightarrow> Message \<Rightarrow> Message" where
  "own_answer s msg = (if m_type msg = GET then case store_abs (rm_storage s) (m_key msg) of
       Some v \<Rightarrow> make_ack (co_my_id s) True v | None \<Rightarrow> make_error (co_my_id s) ''All nodes for key unavailable''
     else make_error (co_my_id s) ''All nodes for key unavailable'')"

lemma own_answer_same:
  "rm_storage s' = rm_storage s \<Longrightarrow> co_my_id s' = co_my_id s \<Longrightarrow> own_answer s' msg = own_answer s msg"
  by (simp add: own_answer_def split: option.split)

lemma own_answer_talk: "only_talks s s' \<Longrightarrow> own_answer s' msg = own_answer s msg"
  by (rule own_answer_same) (simp_all add: talk_fields)

lemma forward_local_own: "forward_local msg s = Some (Inr (own_answer s msg), s)"
  by (simp add: forward_local_def own_answer_def io_store_state get_abs split: option.split)

text \<open>What forwarding is meant to do when the owner is silent: the nodes in question are asked in their
  order until one reports success. A node does not ask itself, and it asks nobody after itself
  when it can answer a read from its own copy.\<close>

fun first_success :: "env \<Rightarrow> Message \<Rightarrow> NodeInfo list \<Rightarrow> ('z coord_scheme, Message option) io" where
  "first_success en msg [] = io_return None"
| "first_success en msg (r # rs) = io_bind (send_message en (ni_host r) (ni_port r) msg) (\<lambda>resp. case resp of
       Some m \<Rightarrow> if m_success m then io_return (Some m) else first_success en msg rs
     | None \<Rightarrow> first_success en msg rs)"

definition asked :: "int \<Rightarrow> bool \<Rightarrow> NodeInfo list \<Rightarrow> NodeInfo list" where
  "asked my_id has_copy rs = (if has_copy then takeWhile (\<lambda>r. ni_id r \<noteq> my_id) rs else filter (\<lambda>r. ni_id r \<noteq> my_id) rs)"

definition can_read :: "Message \<Rightarrow> 'z coord_scheme \<Rightarrow> bool" where
  "can_read msg s \<longleftrightarrow> m_type msg = GET \<and> store_abs (rm_storage s) (m_key msg) \<noteq> None"

lemma forward_loop_first:
  fixes s :: "'z coord_scheme"
  assumes "texts_utf8 msg"
  shows "forward_loop en i msg rs s = io_bind (first_success en msg (asked (co_my_id s) (can_read msg s) (filter (\<lambda>r. ni_id r \<noteq> i) rs)))
    (\<lambda>best. io_return (case best of Some m \<Rightarrow> m | None \<Rightarrow> own_answer s msg)) s"
proof (induction rs arbitrary: s)
  case Nil
  then show ?case by (simp add: forward_local_own asked_def)
next
  case (Cons r rs)
  consider "ni_id r = i" | "ni_id r \<noteq> i" "ni_id r = co_my_id s" | "ni_id r \<noteq> i" "ni_id r \<noteq> co_my_id s" by blast
  then show ?case
  proof cases
    case 1
    with Cons show ?thesis by simp
  next
    case 2
    with Cons [of s] show ?thesis
      by (auto simp: io_store_state asked_def can_read_def own_answer_def get_abs split: option.split)
  next
    case 3
    show ?thesis
    proof (cases "send_message en (ni_host r) (ni_port r) msg s")
      case None
      with 3 show ?thesis by (simp add: asked_def)
    next
      case (Some res)
      then obtain resp t where t: "send_message en (ni_host r) (ni_port r) msg s = Some (Inr resp, t)"
        using io_safeD [OF send_message_safe [OF assms]] by (cases res) blast
      note talk = io_keepsD [OF talk_send [OF assms] t]
      have eqs: "can_read msg t = can_read msg s" "co_my_id t = co_my_id s" "own_answer t msg = own_answer s msg"
        using talk_fields [OF talk] own_answer_talk [OF talk] by (simp_all add: can_read_def)
      have first: "asked (co_my_id s) c (r # qs) = r # asked (co_my_id s) c qs" for c qs using 3 by (simp add: asked_def)
      show ?thesis
      proof (cases "\<exists>m. resp = Some m \<and> m_success m")
        case True
        with 3 t show ?thesis by (auto simp: first io_bind_def)
      next
        case False
        with t 3 have "forward_loop en i msg (r # rs) s = forward_loop en i msg rs t"
          "first_success en msg (r # qs) s = first_success en msg qs t" for qs
          by (auto split: option.split)
        with Cons [of t, unfolded eqs] 3 show ?thesis by (simp add: first io_bind_def)
      qed
    qed
  qed
qed

lemma forward_to_result:
  fixes s :: "'z coord_scheme"
  assumes "texts_utf8 msg" "forward_to en p msg s = Some (r, s')"
  shows "\<exists>reply resp t. r = Inr reply \<and> send_message en (ni_host p) (ni_port p) msg s = Some (Inr resp, t) \<and> (case resp of
      Some m \<Rightarrow> reply = m \<and> s' = t
    | None \<Rightarrow> \<exists>l best. first_success en msg (asked (co_my_id s) (can_read msg s)
          (filter (\<lambda>r. ni_id r \<noteq> ni_id p) (get_replicas (m_key msg) 3 (co_ring s)))) (t\<lparr>sys_log := l\<rparr>) = Some (Inr best, s') \<and>
        reply = (case best of Some m \<Rightarrow> m | None \<Rightarrow> own_answer s msg))"
proof -
  obtain reply where r: "r = Inr reply" using io_safeD [OF forward_talks(2) [OF assms(1)] assms(2)] by blast
  obtain resp t where t: "send_message en (ni_host p) (ni_port p) msg s = Some (Inr resp, t)"
    using assms(2) unfolding r forward_to_def by (elim io_bind_InrE)
  show ?thesis
  proof (cases resp)
    case (Some m)
    with t assms(2) r show ?thesis by (simp add: forward_to_def)
  next
    case None
    note talk = talk_fields [OF io_keepsD [OF talk_send [OF assms(1)] t]]
    from None t assms(2) r obtain l where loop: "forward_loop en (ni_id p) msg (get_replicas (m_key msg) 3 (co_ring s)) (t\<lparr>sys_log := l\<rparr>) =
        Some (Inr reply, s')"
      using talk by (auto simp: forward_to_def REPLICATION_FACTOR_def)
    have eqs: "own_answer (t\<lparr>sys_log := l\<rparr>) msg = own_answer s msg" "co_my_id (t\<lparr>sys_log := l\<rparr>) = co_my_id s"
      "can_read msg (t\<lparr>sys_log := l\<rparr>) = can_read msg s"
      by (rule own_answer_same) (simp_all add: can_read_def talk)
    obtain best where "first_success en msg (asked (co_my_id s) (can_read msg s)
          (filter (\<lambda>r. ni_id r \<noteq> ni_id p) (get_replicas (m_key msg) 3 (co_ring s)))) (t\<lparr>sys_log := l\<rparr>) = Some (Inr best, s')"
      "reply = (case best of Some m \<Rightarrow> m | None \<Rightarrow> own_answer s msg)"
      using loop [unfolded forward_loop_first [OF assms(1)] eqs] by (elim io_bind_InrE) simp
    with None t r show ?thesis
      by (intro exI [of _ reply] exI [of _ "None :: Message option"] exI [of _ t]) (simp, blast)
  qed
qed

section \<open>The owner of a key\<close>

lemma route_cases:
  "get_primary (m_key msg) (co_ring s) = None \<Longrightarrow>
    route en msg f s = Some (Inr (make_error (co_my_id s) (''No available node for key: '' @ m_key msg)), s)"
  "get_primary (m_key msg) (co_ring s) = Some p \<Longrightarrow> ni_id p = co_my_id s \<Longrightarrow> route en msg f s = f (co_my_id s) s"
  "get_primary (m_key msg) (co_ring s) = Some p \<Longrightarrow> ni_id p \<noteq> co_my_id s \<Longrightarrow> route en msg f s = forward_to en p msg s"
  by (simp_all add: route_def)

text \<open>What a write leaves behind at the owner, and the messages it hands to the threads.\<close>

definition written_by :: "Message \<Rightarrow> 'z coord_scheme \<Rightarrow> 'z coord_scheme \<Rightarrow> bool" where
  "written_by msg s s' \<longleftrightarrow> co_ring s' = co_ring s \<and> co_my_id s' = co_my_id s \<and> rm_my_id s' = rm_my_id s \<and>
     sys_sent s' = sys_sent s \<and> sys_open s' = sys_open s \<and>
     store_abs (rm_storage s') = (store_abs (rm_storage s))(m_key msg := if m_type msg = PUT then Some (m_value msg) else None) \<and>
     (\<exists>now. sys_tasks s' = sys_tasks s @ (if m_type msg = PUT \<or> get (m_key msg) (rm_storage s) \<noteq> None then
        replicate_tasks (rm_my_id s)
          (replicate_msg (rm_my_id s) now (m_key msg) (if m_type msg = PUT then m_value msg else []) (m_type msg))
          (get_replicas (m_key msg) REPLICATION_FACTOR (co_ring s)) else []))"

lemma owner_put:
  assumes "get_primary (m_key msg) (co_ring s) = Some p" "ni_id p = co_my_id s" "m_type msg = PUT"
  shows "\<exists>s'. handle_put en msg s = Some (Inr (make_ack (co_my_id s) True []), s') \<and> written_by msg s s'"
  using assms(3)
  by (simp add: handle_put_def route_cases(2) [OF assms(1,2)] io_store_state replicate_key_def replicate_to_state written_by_def)
    (auto simp: store_abs_def update_conv')

lemma owner_get:
  assumes "get_primary (m_key msg) (co_ring s) = Some p" "ni_id p = co_my_id s"
  shows "handle_get en msg s = Some (Inr (case store_abs (rm_storage s) (m_key msg) of
     None \<Rightarrow> make_error (co_my_id s) (''Key not found: '' @ m_key msg) | Some v \<Rightarrow> make_ack (co_my_id s) True v), s)"
  by (simp add: handle_get_def route_cases(2) [OF assms] io_store_state get_abs)

lemma owner_delete:
  assumes "get_primary (m_key msg) (co_ring s) = Some p" "ni_id p = co_my_id s" "m_type msg = DEL"
  shows "\<exists>s'. handle_delete en msg s = Some (Inr (if store_abs (rm_storage s) (m_key msg) = None
       then make_error (co_my_id s) (''Key not found: '' @ m_key msg) else make_ack (co_my_id s) True []), s') \<and> written_by msg s s'"
proof -
  let ?k = "m_key msg"
  define t where "t = s\<lparr>sys_calls := Suc (sys_calls s), rm_storage := fst (del (env_clock en (sys_calls s)) ?k (rm_storage s))\<rparr>"
  have d: "io_del en ?k s = Some (Inr (get ?k (rm_storage s) \<noteq> None), t)" by (simp add: io_store_state t_def)
  have abs: "store_abs (rm_storage t) = (store_abs (rm_storage s))(?k := None)" by (simp add: t_def del_store)
  show ?thesis
  proof (cases "store_abs (rm_storage s) ?k")
    case None
    with assms(3) abs show ?thesis
      unfolding handle_delete_def route_cases(2) [OF assms(1,2)] io_bind_simps(3) [where m = "io_del en ?k", OF d]
      by (simp add: written_by_def get_abs) (simp add: t_def)
  next
    case (Some v)
    with assms(3) abs show ?thesis
      unfolding handle_delete_def route_cases(2) [OF assms(1,2)] io_bind_simps(3) [where m = "io_del en ?k", OF d]
      by (simp add: written_by_def get_abs replicate_key_def replicate_to_state) (auto simp: t_def)
  qed
qed

section \<open>Properties\<close>

text \<open>Member \<open>i\<close> of a cluster of three, and an environment in which no socket can be opened.\<close>

definition demo_member :: "int \<Rightarrow> coord" where
  "demo_member i = coordinator_init i (ring_node i) ring3 (heartbeat_init 0 i 1 [] (demo_election i))"

lemma demo_member_simps [simp]:
  "co_ring (demo_member i) = ring3" "co_my_id (demo_member i) = i" "rm_my_id (demo_member i) = i"
  "store_abs (rm_storage (demo_member i)) = Map.empty" "sys_tasks (demo_member i) = []"
  by (simp_all add: demo_member_def coordinator_init_def heartbeat.defs heartbeat_init_def election.defs demo_election_def
      election_init_def replica.defs demo_replica_def tcp.defs tcp_init_def sys.defs sys0_def store_abs_def)

definition cut_env :: env where
  "cut_env = (demo_env [])\<lparr>env_socket := (\<lambda>_. -1)\<rparr>"

lemma cut_send: "\<exists>t. send_message cut_env host port msg s = Some (Inr None, t)"
  by (simp add: send_message_def make_connection_def open_socket_def cut_env_def)

lemma cut_forward_loop: "\<exists>m t. forward_loop cut_env i msg rs s = Some (Inr m, t)"
proof (induction rs arbitrary: s)
  case Nil
  then show ?case by (simp add: forward_local_def io_store_state)
next
  case (Cons r rs)
  obtain t where "send_message cut_env (ni_host r) (ni_port r) msg s = Some (Inr None, t)" using cut_send by blast
  with Cons [of s] Cons [of t] show ?case by (auto simp: io_store_state split: option.split)
qed

lemma cut_forward: "\<exists>m t. forward_to cut_env target msg s = Some (Inr m, t)"
proof -
  obtain t where "send_message cut_env (ni_host target) (ni_port target) msg s = Some (Inr None, t)" using cut_send by blast
  with cut_forward_loop show ?thesis by (simp add: forward_to_def)
qed

lemma handle_requests:
  "m_type msg = PUT \<Longrightarrow> handle en msg = handle_put en msg" "m_type msg = GET \<Longrightarrow> handle en msg = handle_get en msg"
  "m_type msg = DEL \<Longrightarrow> handle en msg = handle_delete en msg"
  by (simp_all add: handle_def)

text \<open>C4: the owner of a key serves it. A PUT or DELETE at the owner always returns; it succeeds unless it
  deletes a key that is not there; the table changes at that key only; every other replica of
  the key, at most two, is sent the change, and nobody is when the request failed. The GET that
  follows returns the value that was written, or the error for a key that is not there.\<close>

theorem owner_serves:
  assumes "ring_inv (co_ring s)" "rm_my_id s = co_my_id s"
    and "get_primary (m_key msg) (co_ring s) = Some p" "ni_id p = co_my_id s"
    and "m_type msg = PUT \<or> m_type msg = DEL" "m_type rd = GET" "m_key rd = m_key msg"
  shows "\<exists>s' reply now. handle en msg s = Some (Inr reply, s') \<and>
    (m_success reply \<longleftrightarrow> m_type msg = PUT \<or> store_abs (rm_storage s) (m_key msg) \<noteq> None) \<and>
    store_abs (rm_storage s') = (store_abs (rm_storage s))(m_key msg := if m_type msg = PUT then Some (m_value msg) else None) \<and>
    length (get_replicas (m_key msg) 3 (co_ring s)) \<le> 3 \<and>
    sys_tasks s' = sys_tasks s @ (if m_success reply then map (\<lambda>n. Task_send_and_forget (ni_host n) (ni_port n)
      (replicate_msg (co_my_id s) now (m_key msg) (if m_type msg = PUT then m_value msg else []) (m_type msg)))
      (tl (get_replicas (m_key msg) 3 (co_ring s))) else []) \<and>
    handle en' rd s' = Some (Inr (if m_type msg = PUT then make_ack (co_my_id s) True (m_value msg)
      else make_error (co_my_id s) (''Key not found: '' @ m_key msg)), s')"
proof -
  let ?ok = "m_type msg = PUT \<or> store_abs (rm_storage s) (m_key msg) \<noteq> None"
  obtain s' reply where w: "handle en msg s = Some (Inr reply, s')" "written_by msg s s'" "m_success reply \<longleftrightarrow> ?ok"
    using assms(5) owner_put [OF assms(3,4), of en] owner_delete [OF assms(3,4), of en]
    by (auto simp: handle_requests make_ack_def make_error_def)
  have tgt: "replicate_tasks (rm_my_id s) m (get_replicas (m_key msg) 3 (co_ring s)) =
      map (\<lambda>n. Task_send_and_forget (ni_host n) (ni_port n) m) (tl (get_replicas (m_key msg) 3 (co_ring s)))" for m
    using hring.primary_targets [OF assms(1) _ assms(3), of 3] assms(2,4) by (simp add: replicate_tasks_def)
  have len: "length (get_replicas (m_key msg) 3 (co_ring s)) \<le> 3"
    using hring.replicas_length [OF assms(1), of 3] by simp
  have "get_primary (m_key rd) (co_ring s') = Some p" "ni_id p = co_my_id s'"
    using w(2) assms by (simp_all add: written_by_def)
  from owner_get [OF this, of en'] w assms(2,6,7) tgt len show ?thesis
    by (auto simp: written_by_def handle_requests get_abs REPLICATION_FACTOR_def split: if_splits)
qed

theorem owner_serves_witness:
  "\<exists>i s' m. handle (demo_env []) (Message0\<lparr>m_type := PUT, m_key := ''k'', m_value := ''v''\<rparr>) (demo_member i) = Some (Inr m, s') \<and>
     m_success m \<and> length (sys_tasks s') \<le> 2 \<and>
     handle (demo_env []) (Message0\<lparr>m_type := GET, m_key := ''k''\<rparr>) s' = Some (Inr (make_ack i True ''v''), s')"
proof -
  let ?w = "Message0\<lparr>m_type := PUT, m_key := ''k'', m_value := ''v''\<rparr>" and ?r = "Message0\<lparr>m_type := GET, m_key := ''k''\<rparr>"
  obtain p where p: "get_primary ''k'' ring3 = Some p" using ring3_routed by blast
  then have p': "get_primary (m_key ?w) (co_ring (demo_member (ni_id p))) = Some p" by simp
  have inv: "ring_inv (co_ring (demo_member (ni_id p)))" "rm_my_id (demo_member (ni_id p)) = co_my_id (demo_member (ni_id p))"
    by simp_all
  from owner_serves [OF inv p', of ?r "demo_env []" "demo_env []"] show ?thesis
    by (intro exI [of _ "ni_id p"]) (auto simp del: ring3_nodes)
qed

text \<open>C15: a request that returns at a node that does not own the key. Without a live node it is refused and nothing
  happens. Otherwise the node throws nothing and changes neither its table, its ring nor its
  threads: a write is never stored where it was only received. The owner is asked first and what
  it answers is the answer. When it does not answer, the other replicas of the key are asked in
  the order of the ring, except the node itself, until one reports success, and that report is
  the answer; a node with a copy of the key asks nobody after its own place in the list about a
  read. When none reports success, a read is answered from the node's own copy and everything
  else gets the error that all nodes are unavailable.\<close>

theorem forwarded_request:
  fixes s :: "'z coord_scheme"
  assumes "m_type msg \<in> {PUT, GET, DEL}" "texts_utf8 msg"
    and "\<And>p. get_primary (m_key msg) (co_ring s) = Some p \<Longrightarrow> ni_id p \<noteq> co_my_id s"
    and "handle en msg s = Some (r, s')"
  shows "\<exists>reply. r = Inr reply \<and> rm_storage s' = rm_storage s \<and> co_ring s' = co_ring s \<and> sys_tasks s' = sys_tasks s \<and> sys_open s' = sys_open s \<and>
    (case get_primary (m_key msg) (co_ring s) of
       None \<Rightarrow> s' = s \<and> reply = make_error (co_my_id s) (''No available node for key: '' @ m_key msg)
     | Some p \<Rightarrow> \<exists>resp t. send_message en (ni_host p) (ni_port p) msg s = Some (Inr resp, t) \<and> (case resp of
           Some m \<Rightarrow> reply = m \<and> s' = t
         | None \<Rightarrow> \<exists>l best. first_success en msg (asked (co_my_id s) (m_type msg = GET \<and> store_abs (rm_storage s) (m_key msg) \<noteq> None)
               (filter (\<lambda>r. ni_id r \<noteq> ni_id p) (get_replicas (m_key msg) 3 (co_ring s)))) (t\<lparr>sys_log := l\<rparr>) = Some (Inr best, s') \<and>
             reply = (case (best, m_type msg, store_abs (rm_storage s) (m_key msg)) of
                 (Some m, _, _) \<Rightarrow> m
               | (None, GET, Some v) \<Rightarrow> make_ack (co_my_id s) True v
               | _ \<Rightarrow> make_error (co_my_id s) ''All nodes for key unavailable'')))"
proof -
  obtain f :: "int \<Rightarrow> ('z coord_scheme, Message) io" where f: "handle en msg = route en msg f"
    using assms(1) by (auto simp: handle_requests handle_put_def handle_get_def handle_delete_def)
  show ?thesis
  proof (cases "get_primary (m_key msg) (co_ring s)")
    case None
    with assms(4) route_cases(1) [OF None, of en f] show ?thesis unfolding f by auto
  next
    case (Some p)
    with assms(3,4) route_cases(3) [OF Some, of en f] have F: "forward_to en p msg s = Some (r, s')" unfolding f by simp
    have own: "(case best of Some m \<Rightarrow> m | None \<Rightarrow> own_answer s msg) = (case (best, m_type msg, store_abs (rm_storage s) (m_key msg)) of
        (Some m, _, _) \<Rightarrow> m | (None, GET, Some v) \<Rightarrow> make_ack (co_my_id s) True v
      | _ \<Rightarrow> make_error (co_my_id s) ''All nodes for key unavailable'')" for best
      by (simp add: own_answer_def split: option.split MsgType.split)
    from forward_to_result [OF assms(2) F] talk_fields [OF forward_to_talks [OF assms(2) F]] Some show ?thesis
      unfolding own can_read_def by simp
  qed
qed

lemma cut_first: "\<exists>t. first_success cut_env msg rs s = Some (Inr None, t)"
proof (induction rs arbitrary: s)
  case (Cons r rs)
  obtain t where "send_message cut_env (ni_host r) (ni_port r) msg s = Some (Inr None, t)" using cut_send by blast
  with Cons [of t] show ?case by simp
qed simp

theorem forwarded_request_witness:
  "\<exists>i s'. handle cut_env (Message0\<lparr>m_type := PUT, m_key := ''k'', m_value := ''v''\<rparr>) (demo_member i) =
       Some (Inr (make_error i ''All nodes for key unavailable''), s') \<and>
     store_abs (rm_storage s') = Map.empty \<and> sys_tasks s' = []"
proof -
  let ?w = "Message0\<lparr>m_type := PUT, m_key := ''k'', m_value := ''v''\<rparr>"
  obtain p where p: "get_primary ''k'' ring3 = Some p" using ring3_routed by blast
  let ?s = "demo_member (ni_id p + 1)"
  have np: "\<And>q. get_primary (m_key ?w) (co_ring ?s) = Some q \<Longrightarrow> ni_id q \<noteq> co_my_id ?s" using p by simp
  have u: "m_type ?w \<in> {PUT, GET, DEL}" "texts_utf8 ?w" by (simp_all add: texts_utf8_def utf8_valid_def utf8_ranges_def)
  have "handle cut_env ?w ?s = forward_to cut_env p ?w ?s"
    using p by (simp add: handle_requests handle_put_def route_cases(3))
  then obtain m s' where h: "handle cut_env ?w ?s = Some (Inr m, s')" using cut_forward [of p ?w ?s] by auto
  obtain t where t: "send_message cut_env (ni_host p) (ni_port p) ?w ?s = Some (Inr None, t)" using cut_send by blast
  have first: "first_success cut_env ?w rs (t\<lparr>sys_log := l\<rparr>) = Some (Inr best, s') \<Longrightarrow> best = None" for rs l best
    using cut_first [of ?w rs "t\<lparr>sys_log := l\<rparr>"] by auto
  from forwarded_request [OF u np h] t p have "m = make_error (ni_id p + 1) ''All nodes for key unavailable''"
    "rm_storage s' = rm_storage ?s" "sys_tasks s' = []"
    by (auto dest!: first)
  with h show ?thesis by (intro exI [of _ "ni_id p + 1"] exI [of _ s']) simp
qed

end
