(* ===== verification/Failure_Detection.thy ===== *)
theory Failure_Detection
  imports Coordinator
begin

text \<open>
  The failure detector with the callbacks that \<^verbatim>\<open>main\<close> gives it. A report marks the node as down in
  the ring and starts an election if the node was the leader; a message from a node that counts
  as failed marks it as up. The lemmas show that the ring and the detector always agree, so
  that requests are routed to exactly the nodes that are not reported, and that the callbacks
  keep the contract \<open>heartbeat_callback\<close>.
\<close>

section \<open>The callbacks\<close>

lemma coord_more:
  fixes s s' :: "'z coord_scheme"
  assumes "election.more s' = election.more s"
  shows "same_heartbeat s s'" "co_ring s' = co_ring s" "co_my_id s' = co_my_id s" "coord.more s' = coord.more s"
  using assms by (cases s; cases s'; simp add: same_heartbeat_def)+

text \<open>What a change of the status of a node does to the rest of the node's state.\<close>

definition status_set :: "int \<Rightarrow> bool \<Rightarrow> 'z coord_scheme \<Rightarrow> 'z coord_scheme \<Rightarrow> bool" where
  "status_set i a s s' \<longleftrightarrow> same_heartbeat s s' \<and> co_ring s' = update_node_status i a (co_ring s) \<and>
     co_my_id s' = co_my_id s \<and> rm_storage s' = rm_storage s \<and> rm_my_id s' = rm_my_id s \<and> sys_open s' = sys_open s"

lemma failure_state:
  "\<exists>l. on_node_failure en i s = (if get_leader s = i
     then trigger_election en announce_leader (s\<lparr>co_ring := update_node_status i False (co_ring s), sys_log := l\<rparr>)
     else Some (Inr (), s\<lparr>co_ring := update_node_status i False (co_ring s), sys_log := l\<rparr>))"
  by (auto simp: on_node_failure_def set_status_def get_leader_def)

lemma failure_result:
  fixes s :: "'z coord_scheme"
  assumes "on_node_failure en i s = Some (r, s')"
  shows "r = Inr ()" "status_set i False s s'"
proof -
  obtain l where f: "on_node_failure en i s = (if get_leader s = i
     then trigger_election en announce_leader (s\<lparr>co_ring := update_node_status i False (co_ring s), sys_log := l\<rparr>)
     else Some (Inr (), s\<lparr>co_ring := update_node_status i False (co_ring s), sys_log := l\<rparr>))"
    using failure_state by blast
  let ?t = "s\<lparr>co_ring := update_node_status i False (co_ring s), sys_log := l\<rparr>"
  have "r = Inr () \<and> status_set i False s s'"
  proof (cases "get_leader s = i")
    case True
    with f assms have t: "trigger_election en announce_leader ?t = Some (r, s')" by simp
    note T = announce.trigger_frame [OF t]
    from coord_more [OF T(2)] T show ?thesis by (simp add: status_set_def same_heartbeat_def)
  next
    case False
    with f assms show ?thesis by (auto simp: status_set_def same_heartbeat_def)
  qed
  then show "r = Inr ()" "status_set i False s s'" by simp_all
qed

lemma recovery_state:
  "\<exists>l. on_node_recovery i s = Some (Inr (), s\<lparr>co_ring := update_node_status i True (co_ring s), sys_log := l\<rparr>)"
  by (auto simp: on_node_recovery_def set_status_def)

lemma recovery_result:
  assumes "on_node_recovery i s = Some (r, s')"
  shows "r = Inr ()" "status_set i True s s'"
  using recovery_state [of i s] assms by (auto simp: status_set_def same_heartbeat_def)

interpretation failure: heartbeat_callback "on_node_failure en"
  for en
  by unfold_locales (auto simp: io_keeps_def io_safe_def status_set_def dest: failure_result)

interpretation recovery: heartbeat_callback on_node_recovery
  by unfold_locales (auto simp: io_keeps_def io_safe_def status_set_def dest: recovery_result)

section \<open>Agreement of the ring and the detector\<close>

definition detector_agrees :: "'z coord_scheme \<Rightarrow> bool" where
  "detector_agrees s \<longleftrightarrow> (\<forall>n \<in> snd ` set (hr_ring (co_ring s)).
     ni_alive n \<longleftrightarrow> map_of (hb_known_alive s) (ni_id n) \<noteq> Some False)"

lemma agrees_update:
  assumes "\<And>n. n \<in> snd ` set (hr_ring r) \<Longrightarrow> ni_id n \<noteq> i \<Longrightarrow> ni_alive n \<longleftrightarrow> map_of known (ni_id n) \<noteq> Some False"
    and "ring_inv r" "n \<in> snd ` set (hr_ring (update_node_status i a r))"
  shows "ni_alive n \<longleftrightarrow> map_of (AList.update i a known) (ni_id n) \<noteq> Some False"
proof -
  obtain h where hn: "(h, n) \<in> set (hr_ring (update_node_status i a r))" using assms(3) by force
  show ?thesis
  proof (cases "map_of (hr_nodes r) i")
    case None
    with hn have "(h, n) \<in> set (hr_ring r)" by (simp add: update_unknown)
    with None ring_invD(3) [OF assms(2) this] assms(1) show ?thesis by (force simp: update_conv')
  next
    case (Some x)
    with hn obtain m where "(h, m) \<in> set (hr_ring r)" "n = set_alive i a m" by (auto simp: update_ring)
    with assms(1) show ?thesis by (force simp: update_conv' set_alive_def)
  qed
qed

text \<open>A report, and a sign of life, keep the agreement.\<close>

lemma report_agrees:
  fixes s :: "'z coord_scheme"
  assumes "detector_agrees s" "ring_inv (co_ring s)" "report (Some (on_node_failure en)) now e s = Some (r, s')"
  shows "detector_agrees s'" "ring_inv (co_ring s')" "rm_storage s' = rm_storage s"
proof -
  note k = failure.report_known [OF assms(3)]
  obtain t where t: "on_node_failure en (fst e) t = Some (r, s')" "co_ring t = co_ring s" "rm_storage t = rm_storage s"
    using assms(3) by (simp add: report_def set_known_def run_callback_def)
  have ring: "co_ring s' = update_node_status (fst e) False (co_ring s)" "rm_storage s' = rm_storage s"
    using failure_result [OF t(1)] t by (simp_all add: status_set_def)
  show "detector_agrees s'" "ring_inv (co_ring s')" "rm_storage s' = rm_storage s"
    using assms(1,2) k ring agrees_update [of "co_ring s" "fst e" "hb_known_alive s" _ False]
    by (auto simp: detector_agrees_def ring_inv_update)
qed

definition view_inv :: "'z coord_scheme \<Rightarrow> bool" where
  "view_inv s \<longleftrightarrow> heartbeat_inv s \<and> ring_inv (co_ring s) \<and> detector_agrees s"

lemma reports_agree:
  fixes s :: "'z coord_scheme"
  shows "detector_agrees s \<Longrightarrow> ring_inv (co_ring s) \<Longrightarrow> io_for es (report (Some (on_node_failure en)) now) s = Some (r, s') \<Longrightarrow>
    detector_agrees s' \<and> ring_inv (co_ring s') \<and> rm_storage s' = rm_storage s"
proof (induction es arbitrary: s)
  case (Cons e es)
  obtain q t where e: "report (Some (on_node_failure en)) now e s = Some (q, t)"
    using Cons.prems(3) by (auto simp: io_then_def io_bind_def split: option.splits)
  with Cons.prems(3) failure.report_known [OF e]
  have "io_for es (report (Some (on_node_failure en)) now) t = Some (r, s')" by simp
  with Cons.IH report_agrees [OF Cons.prems(1,2) e] show ?case by simp
qed simp

lemma monitor_agrees:
  fixes s :: "'z coord_scheme"
  assumes "view_inv s" "walk_ok (env_walk_seen en)" "monitor_turn en (Some (on_node_failure en)) s = Some (r, s')"
  shows "r = Inr ()" "view_inv s'" "rm_storage s' = rm_storage s"
proof -
  have "r = Inr () \<and> view_inv s' \<and> rm_storage s' = rm_storage s"
  proof (cases "hb_running s")
    case True
    have inv: "heartbeat_inv s" using assms(1) by (simp add: view_inv_def)
    note M = failure.monitor_result [OF inv assms(2) True assms(3)]
    have "detector_agrees (s\<lparr>sys_calls := Suc (sys_calls s)\<rparr>)" "ring_inv (co_ring (s\<lparr>sys_calls := Suc (sys_calls s)\<rparr>))"
      using assms(1) by (simp_all add: view_inv_def detector_agrees_def)
    from reports_agree [OF this assms(3) [unfolded M(1)]] M show ?thesis by (simp add: view_inv_def)
  next
    case False
    with assms show ?thesis by (auto simp: monitor_turn_def)
  qed
  then show "r = Inr ()" "view_inv s'" "rm_storage s' = rm_storage s" by simp_all
qed

lemma mark_alive_state:
  "\<exists>t. mark_alive en (Some cb) i s = (if map_of (hb_known_alive s) i = Some False then cb i t else Some (Inr (), t)) \<and>
     t = s\<lparr>sys_calls := Suc (sys_calls s), hb_last_seen := AList.update i (env_clock en (sys_calls s)) (hb_last_seen s),
       hb_known_alive := AList.update i True (hb_known_alive s)\<rparr>"
  by (simp add: mark_alive_def now_ms_def set_known_def run_callback_def)

lemma mark_alive_returns: "\<exists>s'. mark_alive en (Some on_node_recovery) i s = Some (Inr (), s')"
proof -
  obtain t where "mark_alive en (Some on_node_recovery) i s =
      (if map_of (hb_known_alive s) i = Some False then on_node_recovery i t else Some (Inr (), t))"
    using mark_alive_state [of en on_node_recovery i s] by blast
  with recovery_state [of i t] show ?thesis by auto
qed

lemma mark_alive_agrees:
  fixes s :: "'z coord_scheme"
  assumes "view_inv s" "mark_alive en (Some on_node_recovery) i s = Some (r, s')"
  shows "r = Inr ()" "view_inv s'" "rm_storage s' = rm_storage s" "map_of (hb_known_alive s') i = Some True"
proof -
  note M = recovery.mark_alive_result [OF assms(2)]
  have inv: "heartbeat_inv s'" "ring_inv (co_ring s)"
    using recovery.mark_alive_inv [OF _ assms(2)] assms(1) by (simp_all add: view_inv_def)
  obtain t where t: "mark_alive en (Some on_node_recovery) i s = (if map_of (hb_known_alive s) i = Some False
      then on_node_recovery i t else Some (Inr (), t))" "co_ring t = co_ring s" "rm_storage t = rm_storage s"
    using mark_alive_state [of en on_node_recovery i s] by auto
  have agr: "n \<in> snd ` set (hr_ring (co_ring s)) \<Longrightarrow> ni_alive n \<longleftrightarrow> map_of (hb_known_alive s) (ni_id n) \<noteq> Some False" for n
    using assms(1) by (auto simp: view_inv_def detector_agrees_def)
  have "detector_agrees s' \<and> ring_inv (co_ring s') \<and> rm_storage s' = rm_storage s"
  proof (cases "map_of (hb_known_alive s) i = Some False")
    case True
    with t assms(2) have "on_node_recovery i t = Some (r, s')" by simp
    from recovery_result [OF this] t have ring: "co_ring s' = update_node_status i True (co_ring s)" "rm_storage s' = rm_storage s"
      by (simp_all add: status_set_def)
    with agrees_update [OF agr inv(2), of i _ True] inv(2) M show ?thesis
      by (auto simp: detector_agrees_def ring_inv_update)
  next
    case False
    with t assms(2) have "co_ring s' = co_ring s" "rm_storage s' = rm_storage s" by auto
    with agr False inv(2) M show ?thesis by (auto simp: detector_agrees_def update_conv')
  qed
  with inv M show "r = Inr ()" "view_inv s'" "rm_storage s' = rm_storage s" "map_of (hb_known_alive s') i = Some True"
    by (simp_all add: view_inv_def update_conv')
qed

text \<open>A request is routed to a node that is not reported.\<close>

lemma routed_known:
  assumes "view_inv s" "get_primary key (co_ring s) = Some p"
  shows "map_of (hb_known_alive s) (ni_id p) \<noteq> Some False"
proof -
  have inv: "ring_inv (co_ring s)" and agr: "detector_agrees s" using assms(1) by (simp_all add: view_inv_def)
  obtain ns where "get_replicas key 1 (co_ring s) = p # ns" using get_replicas_hd [OF inv _ assms(2), of 1] by auto
  with get_replicas_elem [OF inv, of 1 p key] have "ni_alive p \<and> p \<in> snd ` set (hr_ring (co_ring s))" by simp
  with agr show ?thesis by (auto simp: detector_agrees_def)
qed

section \<open>Properties\<close>

text \<open>C8: the failure detector and the ring work together. A turn of the monitor marks as failed exactly
  the nodes it knows that were not heard of for six seconds, and leaves data alone; afterwards
  no key is routed to a tracked node that was silent that long. A message from a node makes it
  count as alive again. Throughout, an entry of the ring is live exactly when the detector has
  not reported its node.\<close>

theorem failure_detection:
  assumes "view_inv s" "hb_running s" "walk_ok (env_walk_seen en)"
    and "monitor_turn en (Some (on_node_failure en)) s = Some (r, s')"
    and "mark_alive en' (Some on_node_recovery) i s' = Some (q, s'')"
  shows "r = Inr () \<and> view_inv s' \<and> rm_storage s' = rm_storage s \<and>
    (\<forall>j. map_of (hb_known_alive s') j = (case map_of (hb_last_seen s) j of None \<Rightarrow> None
       | Some ts \<Rightarrow> Some (map_of (hb_known_alive s) j = Some True \<and> env_clock en (sys_calls s) - ts < 6000))) \<and>
    (\<forall>key p ts. get_primary key (co_ring s') = Some p \<and> map_of (hb_last_seen s) (ni_id p) = Some ts \<longrightarrow>
       env_clock en (sys_calls s) - ts < 6000) \<and>
    q = Inr () \<and> view_inv s'' \<and> rm_storage s'' = rm_storage s \<and> map_of (hb_known_alive s'') i = Some True"
proof -
  have inv: "heartbeat_inv s" using assms(1) by (simp add: view_inv_def)
  note M = failure.monitor_result [OF inv assms(3,2,4)]
  note A = monitor_agrees [OF assms(1,3,4)]
  note L = mark_alive_agrees [OF A(2) assms(5)]
  have known: "map_of (hb_known_alive s') j = (case map_of (hb_last_seen s) j of None \<Rightarrow> None
       | Some ts \<Rightarrow> Some (map_of (hb_known_alive s) j = Some True \<and> env_clock en (sys_calls s) - ts < 6000))" for j
    using M(6) [of j] unfolding TIMEOUT_MS_def by simp
  with routed_known [OF A(2)] have "\<forall>key p ts. get_primary key (co_ring s') = Some p \<and>
      map_of (hb_last_seen s) (ni_id p) = Some ts \<longrightarrow> env_clock en (sys_calls s) - ts < 6000"
    by fastforce
  with known A L show ?thesis by simp
qed

text \<open>Node 1 of three, which has not heard of node 2 for seven seconds.\<close>

definition demo_coord :: coord where
  "demo_coord = (coordinator_init 1 (ring_node 1) ring3
     (heartbeat_init 0 1 1 [ring_node 2, ring_node 3] ((demo_election 1)\<lparr>sys_calls := 7000\<rparr>)))
     \<lparr>hb_running := True, hb_last_seen := [(2, 0), (3, 6999)]\<rparr>"

lemma demo_coord_simps [simp]:
  "co_ring demo_coord = ring3" "co_my_id demo_coord = 1" "hb_running demo_coord" "hb_last_seen demo_coord = [(2, 0), (3, 6999)]"
  "hb_known_alive demo_coord = [(2, True), (3, True)]" "sys_calls demo_coord = 7000" "le_leader demo_coord = -1"
  by (simp_all add: demo_coord_def coordinator_init_def heartbeat.defs heartbeat_init_def election.defs demo_election_def
      election_init_def replica.defs ring_node_def)

lemma demo_view: "view_inv demo_coord"
  unfolding view_inv_def detector_agrees_def heartbeat_inv_def umap_wf_def
  using ring3_alive by auto

theorem failure_detection_witness:
  "\<exists>s' s''. monitor_turn (demo_env []) (Some (on_node_failure (demo_env []))) demo_coord = Some (Inr (), s') \<and>
     map_of (hb_known_alive s') 2 = Some False \<and> map_of (hb_known_alive s') 3 = Some True \<and> get_primary ''k'' (co_ring s') \<noteq> Some (ring_node 2) \<and>
     mark_alive (demo_env []) (Some on_node_recovery) 2 s' = Some (Inr (), s'') \<and> map_of (hb_known_alive s'') 2 = Some True"
proof -
  obtain s' where s': "monitor_turn (demo_env []) (Some (on_node_failure (demo_env []))) demo_coord = Some (Inr (), s')"
    by (simp add: monitor_turn_def now_ms_def monitor_node_def TIMEOUT_MS_def set_known_def run_callback_def
        on_node_failure_def set_status_def get_leader_def demo_env_def)
  obtain s'' where s'': "mark_alive (demo_env []) (Some on_node_recovery) 2 s' = Some (Inr (), s'')"
    using mark_alive_returns by blast
  have w: "walk_ok (env_walk_seen (demo_env []))" by (simp add: demo_env_def)
  note F = failure_detection [OF demo_view demo_coord_simps(3) w s' s'']
  have "ni_id (ring_node 2) = 2" by (simp add: ring_node_def)
  with F have "get_primary ''k'' (co_ring s') \<noteq> Some (ring_node 2)" by (force simp: demo_env_def)
  with F s' s'' show ?thesis by (simp add: demo_env_def)
qed

end
