(* ===== verification/Failover.thy ===== *)
theory Failover
  imports Failure_Detection
begin

text \<open>
  Reads after the failure of an owner: the ring, the coordinators of two nodes, replication and
  failure detection together. When the owner of a key and the replicas after it are marked as
  down, the key goes to the first replica that is left, a node that the owner sent its writes to.
\<close>

section \<open>The next owner\<close>

text \<open>The nodes that are left on the ring when the nodes in \<open>fs\<close> have been marked as down.\<close>

lemma alive_after_failures:
  "ring_inv ring \<Longrightarrow> ring_inv (fold (\<lambda>i. update_node_status i False) fs ring) \<and>
   filter ni_alive (clockwise h (hr_ring (fold (\<lambda>i. update_node_status i False) fs ring))) =
     filter (\<lambda>n. ni_id n \<notin> set fs) (filter ni_alive (clockwise h (hr_ring ring)))"
proof (induction fs arbitrary: ring)
  case (Cons i fs)
  let ?c = "clockwise h (hr_ring ring)"
  have "filter ni_alive (clockwise h (hr_ring (update_node_status i False ring))) = filter ni_alive (filter (\<lambda>n. ni_id n \<noteq> i) ?c)"
  proof (cases "map_of (hr_nodes ring) i = None")
    case True
    then have "\<forall>n \<in> set ?c. ni_id n \<noteq> i" using ring_invD(3) [OF Cons.prems] by (force simp: set_clockwise)
    with True show ?thesis by (simp add: update_unknown cong: filter_cong)
  next
    case False
    then show ?thesis by (simp add: update_ring clockwise_map filter_set_alive_False)
  qed
  then have "filter (\<lambda>n. ni_id n \<notin> set fs) (filter ni_alive (clockwise h (hr_ring (update_node_status i False ring)))) =
      filter (\<lambda>n. ni_id n \<notin> set (i # fs)) (filter ni_alive ?c)"
    by (simp only: filter_filter) (rule filter_cong; auto)
  with Cons.IH [OF ring_inv_update [OF Cons.prems]] show ?case by simp
qed simp

lemma first_by_id_after:
  assumes "first_by_id seen l = ps @ r # rs" "ni_id ` set ps \<subseteq> F" "seen \<subseteq> F" "ni_id r \<notin> F"
  shows "find (\<lambda>n. ni_id n \<notin> F) l = Some r"
  using assms
proof (induction seen l arbitrary: ps rule: first_by_id.induct)
  case (2 seen n ns)
  show ?case
  proof (cases "ni_id n \<in> seen")
    case True
    with 2 show ?thesis by auto
  next
    case False
    with 2 show ?thesis by (cases ps) auto
  qed
qed simp

lemma primary_after_failures:
  assumes "ring_inv ring" "get_replicas key 3 ring = ps @ r # rs" "ni_id ` set ps \<subseteq> set fs" "ni_id r \<notin> set fs"
  shows "get_primary key (fold (\<lambda>i. update_node_status i False) fs ring) = Some r"
proof -
  let ?l = "filter ni_alive (clockwise (murmur3 key) (hr_ring ring))"
  have "take 3 (first_by_id {} ?l) = ps @ r # rs" using assms(1,2) by (simp add: replicas_clockwise)
  then have "first_by_id {} ?l = ps @ r # rs @ drop 3 (first_by_id {} ?l)"
    by (metis append_take_drop_id append_Cons append_assoc)
  from first_by_id_after [OF this assms(3) _ assms(4)] have "find (\<lambda>n. ni_id n \<notin> set fs) ?l = Some r" by simp
  then show ?thesis
    using alive_after_failures [OF assms(1), of fs "murmur3 key"] by (simp add: primary_clockwise find_filter_hd)
qed

lemma primary_before:
  assumes "ring_inv ring" "get_replicas key 3 ring = p # rs"
  shows "get_primary key ring = Some p"
  using primary_after_failures [of ring key "[]" p rs "[]"] assms by simp

lemma failures_result:
  fixes s :: "'z coord_scheme"
  shows "io_for fs (on_node_failure en) s = Some (x, s') \<Longrightarrow>
    co_ring s' = fold (\<lambda>i. update_node_status i False) fs (co_ring s) \<and> co_my_id s' = co_my_id s \<and> rm_storage s' = rm_storage s"
proof (induction fs arbitrary: s)
  case (Cons i fs)
  then obtain y t where t: "on_node_failure en i s = Some (y, t)" by (cases "on_node_failure en i s") auto
  note r = failure_result [OF t]
  with Cons t show ?case by (simp add: status_set_def)
qed simp

section \<open>Properties\<close>

text \<open>C3: an acknowledged write is read back after failures. The owner of a key acknowledges a PUT and hands
  the change to a thread for each other replica of the key. Take any of these replicas, \<open>r\<close>. When
  it handles the message, and afterwards nodes are reported as failed, among them the owner and
  all replicas that come before \<open>r\<close> in the list but not \<open>r\<close>, then \<open>r\<close> answers a GET with the value
  that was written, and every other node that has seen these failures forwards a GET to \<open>r\<close>.\<close>

theorem failover_read:
  fixes s :: "'a coord_scheme" and q :: "'b coord_scheme" and z :: "'c coord_scheme"
  assumes "ring_inv (co_ring s)" "rm_my_id s = co_my_id s" "get_replicas (m_key wr) 3 (co_ring s) = p # ps @ r # rs"
    and "ni_id p = co_my_id s" "m_type wr = PUT" "m_type rd = GET" "m_key rd = m_key wr"
    and "co_ring q = co_ring s" "co_my_id q = ni_id r" "co_ring z = co_ring s" "co_my_id z \<noteq> ni_id r"
    and "ni_id ` set (p # ps) \<subseteq> set fs" "ni_id r \<notin> set fs" "set gs = set fs"
  shows "\<exists>s' now q'. handle en wr s = Some (Inr (make_ack (co_my_id s) True []), s') \<and>
    Task_send_and_forget (ni_host r) (ni_port r) (replicate_msg (co_my_id s) now (m_key wr) (m_value wr) PUT) \<in> set (sys_tasks s') \<and>
    handle en1 (replicate_msg (co_my_id s) now (m_key wr) (m_value wr) PUT) q = Some (Inr (plain_ack (rm_my_id q)), q') \<and>
    (\<forall>x q''. io_for fs (on_node_failure en2) q' = Some (x, q'') \<longrightarrow>
      handle en3 rd q'' = Some (Inr (make_ack (ni_id r) True (m_value wr)), q'')) \<and>
    (\<forall>x z'. io_for gs (on_node_failure en4) z = Some (x, z') \<longrightarrow> handle en5 rd z' = forward_to en5 r rd z')"
proof -
  have P: "get_primary (m_key wr) (co_ring s) = Some p"
    using primary_before [OF assms(1), of "m_key wr" p "ps @ r # rs"] assms(3) by simp
  have R: "get_primary (m_key rd) (fold (\<lambda>i. update_node_status i False) l (co_ring s)) = Some r" if "set l = set fs" for l
    using primary_after_failures [OF assms(1), of "m_key wr" "p # ps" r rs l] assms(3,7,12,13) that by simp
  obtain s' where s': "handle en wr s = Some (Inr (make_ack (co_my_id s) True []), s')" "written_by wr s s'"
    using owner_put [OF P assms(4,5), of en] assms(5) by (auto simp: handle_requests)
  have "ni_id r \<noteq> co_my_id s"
    using hring.replicas_distinct [OF assms(1), of 3 "m_key wr"] assms(3,4) by auto
  moreover obtain now where "sys_tasks s' = sys_tasks s @ replicate_tasks (rm_my_id s)
      (replicate_msg (rm_my_id s) now (m_key wr) (m_value wr) PUT) (p # ps @ r # rs)"
    using s'(2) assms(3,5) by (auto simp: written_by_def REPLICATION_FACTOR_def)
  ultimately have m: "Task_send_and_forget (ni_host r) (ni_port r)
      (replicate_msg (rm_my_id s) now (m_key wr) (m_value wr) PUT) \<in> set (sys_tasks s')"
    using assms(2) by (simp add: replicate_tasks_def)
  let ?m = "replicate_msg (rm_my_id s) now (m_key wr) (m_value wr) PUT"
  have hm: "handle en1 ?m q = handle_replicate en1 ?m q" by (simp add: handle_def replicate_msg_def)
  obtain q' where q': "handle_replicate en1 ?m q = Some (Inr (plain_ack (rm_my_id q)), q')"
    "store_abs (rm_storage q') (m_key wr) = Some (m_value wr)"
    using handle_replicate_state [of en1 ?m q] by (auto simp: replicate_msg_def)
  have ring: "co_ring q' = co_ring s" "co_my_id q' = ni_id r"
    using q'(1) assms(8,9) by (auto simp: handle_replicate_def io_store_state replicate_msg_def)
  have "handle en3 rd q'' = Some (Inr (make_ack (ni_id r) True (m_value wr)), q'')"
    if "io_for fs (on_node_failure en2) q' = Some (x, q'')" for x q''
  proof -
    have f: "get_primary (m_key rd) (co_ring q'') = Some r" "ni_id r = co_my_id q''" "rm_storage q'' = rm_storage q'"
      using failures_result [OF that] ring R [of fs] by simp_all
    from owner_get [OF f(1,2), of en3] assms(6,7) q'(2) f show ?thesis by (simp add: handle_requests)
  qed
  moreover have "handle en5 rd z' = forward_to en5 r rd z'"
    if "io_for gs (on_node_failure en4) z = Some (x, z')" for x z'
    using failures_result [OF that] R [of gs] assms(6,10,11,14) by (simp add: handle_requests handle_get_def route_cases)
  ultimately show ?thesis using s'(1) m hm q'(1) assms(2) by auto
qed

text \<open>Rings with one entry for each node, for the witnesses.\<close>

definition small_ring :: "int list \<Rightarrow> HashRing" where
  "small_ring is = \<lparr>hr_ring = fold (\<lambda>i. map_assign (vnode_hash i 0) (ring_node i)) is [],
     hr_nodes = map (\<lambda>i. (i, ring_node i)) is\<rparr>"

abbreviation pair_ring :: HashRing where
  "pair_ring \<equiv> small_ring [1, 2]"

abbreviation quad_ring :: HashRing where
  "quad_ring \<equiv> small_ring [1, 2, 3, 4]"

lemma small_ring_set:
  assumes "distinct (map (\<lambda>i. vnode_hash i 0) is)"
  shows "map_wf (hr_ring (small_ring is)) \<and> set (hr_ring (small_ring is)) = (\<lambda>i. (vnode_hash i 0, ring_node i)) ` set is"
proof -
  have "map_wf m \<Longrightarrow> distinct (map fst m @ map (\<lambda>i. vnode_hash i 0) is) \<Longrightarrow>
      map_wf (fold (\<lambda>i. map_assign (vnode_hash i 0) (ring_node i)) is m) \<and>
      set (fold (\<lambda>i. map_assign (vnode_hash i 0) (ring_node i)) is m) = set m \<union> (\<lambda>i. (vnode_hash i 0, ring_node i)) ` set is" for m
  proof (induction "is" arbitrary: m)
    case (Cons i "is")
    let ?m = "map_assign (vnode_hash i 0) (ring_node i) m"
    have S: "set ?m = set m \<union> {(vnode_hash i 0, ring_node i)}" using Cons.prems by (force simp: set_map_assign)
    moreover have "map_wf ?m" by (rule map_wf_assign [OF Cons.prems(1)])
    moreover from this have "distinct (map fst ?m)" by (simp add: map_wf_def strict_sorted_iff)
    moreover have "fst ` set ?m = insert (vnode_hash i 0) (fst ` set m)" using S by force
    ultimately show ?case using Cons.IH [of ?m] Cons.prems by auto
  qed simp
  from this [of "[]"] assms show ?thesis by (simp add: small_ring_def map_wf_def)
qed

lemma small_ring_inv:
  assumes "distinct (map (\<lambda>i. vnode_hash i 0) is)" "sorted_wrt (<) is"
  shows "ring_inv (small_ring is)"
proof -
  have "vnode_hash i 0 \<in> (\<lambda>j. vnode_hash i (int j)) ` {0..<VIRTUAL_NODES}" for i
    by (rule image_eqI [of _ _ 0]) (simp_all add: VIRTUAL_NODES_def)
  with small_ring_set [OF assms(1)] assms(2) show ?thesis
    by (auto simp: ring_inv_def small_ring_def map_wf_def ring_node_def comp_def strict_sorted_iff map_of_map_restrict)
qed

lemma small_ring_replicas:
  assumes "distinct (map (\<lambda>i. vnode_hash i 0) is)" "sorted_wrt (<) is"
  shows "length (get_replicas key 3 (small_ring is)) = min 3 (length is)"
    and "n \<in> set (get_replicas key 3 (small_ring is)) \<Longrightarrow> \<exists>i \<in> set is. n = ring_node i"
proof -
  let ?l = "filter ni_alive (clockwise (murmur3 key) (hr_ring (small_ring is)))"
  have "set ?l = ring_node ` set is"
    using small_ring_set [OF assms(1)] by (auto simp: set_clockwise ring_node_def image_iff)
  moreover have "card (ni_id ` ring_node ` set is) = length is"
    using assms(2) by (simp add: image_image ring_node_def strict_sorted_iff distinct_card)
  ultimately have "length (first_by_id {} ?l) = length is" by (simp add: first_by_id_length)
  then show "length (get_replicas key 3 (small_ring is)) = min 3 (length is)"
    using small_ring_inv [OF assms] by (simp add: replicas_clockwise min.commute)
  show "n \<in> set (get_replicas key 3 (small_ring is)) \<Longrightarrow> \<exists>i \<in> set is. n = ring_node i"
    using get_replicas_elem [OF small_ring_inv [OF assms], of 3 n key] small_ring_set [OF assms(1)] by auto
qed

lemma first_hashes: "vnode_hash 1 0 = 100707350" "vnode_hash 2 0 = 511146511" "vnode_hash 3 0 = 3317734389" "vnode_hash 4 0 = 568245160"
  by code_simp+

lemma quad_hashes: "distinct (map (\<lambda>i. vnode_hash i 0) [1, 2, 3, 4])"
  by (simp add: first_hashes)

lemma pair_hashes: "distinct (map (\<lambda>i. vnode_hash i 0) [1, 2])"
  using quad_hashes by simp

lemma pair_ring_set: "set (hr_ring pair_ring) = {(vnode_hash 1 0, ring_node 1), (vnode_hash 2 0, ring_node 2)}"
  using small_ring_set [OF pair_hashes] by simp

lemma pair_ring_inv: "ring_inv pair_ring"
  by (rule small_ring_inv [OF pair_hashes]) simp

lemma pair_replicas: "\<exists>p r. get_replicas ''k'' 3 pair_ring = [p, r]"
  using small_ring_replicas(1) [OF pair_hashes, where key = "''k''"] by (auto simp: length_Suc_conv numeral_2_eq_2)

lemma quad_replicas:
  obtains p t r z where "ring_inv quad_ring" "distinct [p, t, r, z]" "set [p, t, r, z] \<subseteq> {1, 2, 3, 4}"
    "get_replicas ''k'' 3 quad_ring = [ring_node p, ring_node t, ring_node r]"
proof -
  note R = small_ring_replicas [OF quad_hashes, where key = "''k''"]
  have inv: "ring_inv quad_ring" by (rule small_ring_inv [OF quad_hashes]) simp
  obtain a b c where abc: "get_replicas ''k'' 3 quad_ring = [a, b, c]"
    using R(1) by (auto simp: length_Suc_conv numeral_3_eq_3)
  obtain p t r where ptr: "a = ring_node p" "b = ring_node t" "c = ring_node r" "{p, t, r} \<subseteq> {1, 2, 3, 4}"
    using R(2) [of a] R(2) [of b] R(2) [of c] unfolding abc by auto
  have "distinct [p, t, r]"
    using hring.replicas_distinct [OF inv, of 3 "''k''"] abc ptr by (simp add: ring_node_def)
  moreover have "\<not> {1, 2, 3, 4} \<subseteq> {p, t, r}"
    using card_mono [of "{p, t, r}" "{1, 2, 3, 4 :: int}"] card_length [of "[p, t, r]"] by auto
  then obtain z where "z \<in> {1, 2, 3, 4}" "z \<notin> {p, t, r}" by blast
  ultimately show thesis using that [of p t r z] inv abc ptr by simp
qed

lemma demo_failures:
  assumes "get_leader q = -1" "list_all (\<lambda>i. 0 < i) fs"
  shows "\<exists>q'. io_for fs (on_node_failure en) q = Some (Inr (), q')"
  using assms
proof (induction fs arbitrary: q)
  case (Cons i fs)
  then obtain l where "on_node_failure en i q = Some (Inr (), q\<lparr>co_ring := update_node_status i False (co_ring q), sys_log := l\<rparr>)"
    using failure_state [of en i q] by auto
  with Cons show ?case by (simp add: get_leader_def)
qed simp

lemma demo_leader: "get_leader ((demo_member j)\<lparr>co_ring := r\<rparr>) = -1"
  by (simp add: get_leader_def demo_member_def coordinator_init_def heartbeat.defs heartbeat_init_def election.defs replica.defs demo_election_def election_init_def)

lemma demo_replicate:
  "handle en (replicate_msg i now k v PUT) q = Some (x, q') \<Longrightarrow> get_leader q' = get_leader q"
  by (auto simp: handle_def replicate_msg_def handle_replicate_def io_store_state get_leader_def)

theorem failover_read_witness:
  "\<exists>p t r z s' now q' q'' z' f f'. distinct [p, t, r, z] \<and>
     get_replicas ''k'' 3 quad_ring = [ring_node p, ring_node t, ring_node r] \<and>
     handle (demo_env []) (Message0\<lparr>m_type := PUT, m_key := ''k'', m_value := ''v''\<rparr>)
       ((demo_member p)\<lparr>co_ring := quad_ring\<rparr>) = Some (Inr (make_ack p True []), s') \<and>
     Task_send_and_forget ''h'' (8000 + r) (replicate_msg p now ''k'' ''v'' PUT) \<in> set (sys_tasks s') \<and>
     handle (demo_env []) (replicate_msg p now ''k'' ''v'' PUT) ((demo_member r)\<lparr>co_ring := quad_ring\<rparr>) = Some (Inr (plain_ack r), q') \<and>
     io_for [p, t] (on_node_failure (demo_env [])) q' = Some (f, q'') \<and>
     handle (demo_env []) (Message0\<lparr>m_type := GET, m_key := ''k''\<rparr>) q'' = Some (Inr (make_ack r True ''v''), q'') \<and>
     io_for [t, p] (on_node_failure (demo_env [])) ((demo_member z)\<lparr>co_ring := quad_ring\<rparr>) = Some (f', z') \<and>
     handle (demo_env []) (Message0\<lparr>m_type := GET, m_key := ''k''\<rparr>) z' =
       forward_to (demo_env []) (ring_node r) (Message0\<lparr>m_type := GET, m_key := ''k''\<rparr>) z'"
proof -
  let ?wr = "Message0\<lparr>m_type := PUT, m_key := ''k'', m_value := ''v''\<rparr>" and ?rd = "Message0\<lparr>m_type := GET, m_key := ''k''\<rparr>"
  obtain p t r z where R: "ring_inv quad_ring" "distinct [p, t, r, z]" "set [p, t, r, z] \<subseteq> {1, 2, 3, 4}"
    "get_replicas ''k'' 3 quad_ring = [ring_node p, ring_node t, ring_node r]" by (rule quad_replicas)
  let ?s = "\<lambda>i. (demo_member i)\<lparr>co_ring := quad_ring\<rparr>" and ?e = "demo_env []"
  have h: "ring_inv (co_ring (?s p))" "rm_my_id (?s p) = co_my_id (?s p)"
    "get_replicas (m_key ?wr) 3 (co_ring (?s p)) = ring_node p # [ring_node t] @ ring_node r # []"
    "ni_id (ring_node p) = co_my_id (?s p)" "m_type ?wr = PUT" "m_type ?rd = GET" "m_key ?rd = m_key ?wr"
    "co_ring (?s r) = co_ring (?s p)" "co_my_id (?s r) = ni_id (ring_node r)" "co_ring (?s z) = co_ring (?s p)"
    "co_my_id (?s z) \<noteq> ni_id (ring_node r)" "ni_id ` set [ring_node p, ring_node t] \<subseteq> set [p, t]"
    "ni_id (ring_node r) \<notin> set [p, t]" "set [t, p] = set [p, t]"
    using R by (auto simp: ring_node_def)
  obtain s' now q' where F: "handle ?e ?wr (?s p) = Some (Inr (make_ack p True []), s')"
    "Task_send_and_forget ''h'' (8000 + r) (replicate_msg p now ''k'' ''v'' PUT) \<in> set (sys_tasks s')"
    "handle ?e (replicate_msg p now ''k'' ''v'' PUT) (?s r) = Some (Inr (plain_ack r), q')"
    "\<And>x q''. io_for [p, t] (on_node_failure ?e) q' = Some (x, q'') \<Longrightarrow> handle ?e ?rd q'' = Some (Inr (make_ack r True ''v''), q'')"
    "\<And>x z'. io_for [t, p] (on_node_failure ?e) (?s z) = Some (x, z') \<Longrightarrow> handle ?e ?rd z' = forward_to ?e (ring_node r) ?rd z'"
    using failover_read [OF h, of ?e ?e ?e ?e ?e ?e] by (auto simp: ring_node_def)
  have pos: "0 < p" "0 < t" using R(3) by auto
  obtain q'' where q: "io_for [p, t] (on_node_failure ?e) q' = Some (Inr (), q'')"
    using demo_failures [of q' "[p, t]" ?e] demo_replicate [OF F(3)] demo_leader pos by auto
  obtain z' where z: "io_for [t, p] (on_node_failure ?e) (?s z) = Some (Inr (), z')"
    using demo_failures [of "?s z" "[t, p]" ?e] demo_leader pos by auto
  from R(2,4) F(1-3) F(4) [OF q] F(5) [OF z] q z show ?thesis by blast
qed

end
