(* ===== verification/Convergence.thy ===== *)
theory Convergence
  imports Failover
begin

text \<open>
  Replication over a sequence of requests: \<^verbatim>\<open>node/coordinator.cpp\<close> and \<^verbatim>\<open>node/replication.cpp\<close> at two
  nodes. The owner of some keys handles requests one after the other and its detached threads
  carry the changes to a replica; the theorems say for which orders of delivery the replica
  ends with the data of the owner.
\<close>

section \<open>Operations on one key each\<close>

text \<open>
  The contract that both sides keep: an operation changes a finite map at its key only, and the
  new binding depends on the old one at most. What a sequence leaves at a key is then decided by
  the operations on that key, in their order.
\<close>

locale keyed_ops =
  fixes key :: "'o \<Rightarrow> 'k" and act :: "'o \<Rightarrow> 'v option \<Rightarrow> 'v option" and exec :: "('k \<rightharpoonup> 'v) \<Rightarrow> 'o \<Rightarrow> ('k \<rightharpoonup> 'v)"
  assumes exec_key: "exec m x = m(key x := act x (m (key x)))"
begin

lemma exec_all_at: "foldl exec m xs k = foldl (\<lambda>v x. act x v) (m k) (filter (\<lambda>x. key x = k) xs)"
  by (induction xs arbitrary: m) (auto simp: exec_key)

lemma exec_order:
  assumes "\<And>k. filter (\<lambda>x. key x = k) xs = filter (\<lambda>x. key x = k) ys"
  shows "foldl exec m xs = foldl exec m ys"
  by (simp add: fun_eq_iff exec_all_at assms)

lemma exec_commute: "key x \<noteq> key y \<Longrightarrow> exec (exec m x) y = exec (exec m y) x"
  by (simp add: exec_key fun_upd_twist)

end

text \<open>A replication message at a replica, and a request at the owner of its key.\<close>

definition repl_act :: "Message \<Rightarrow> string option \<Rightarrow> string option" where
  "repl_act m v = (if m_error m = ''DEL'' then None else Some (m_value m))"

definition repl_exec :: "kv_state \<Rightarrow> Message \<Rightarrow> kv_state" where
  "repl_exec s m = s(m_key m := repl_act m (s (m_key m)))"

definition owner_act :: "Message \<Rightarrow> string option \<Rightarrow> string option" where
  "owner_act m v = (if m_type m = PUT then Some (m_value m) else if m_type m = DEL then None else v)"

definition owner_exec :: "kv_state \<Rightarrow> Message \<Rightarrow> kv_state" where
  "owner_exec s m = s(m_key m := owner_act m (s (m_key m)))"

interpretation repl: keyed_ops m_key repl_act repl_exec
  by unfold_locales (simp add: repl_exec_def)

interpretation owner: keyed_ops m_key owner_act owner_exec
  by unfold_locales (simp add: owner_exec_def)

section \<open>Sequences of messages at a node\<close>

definition handle_all :: "env \<Rightarrow> Message list \<Rightarrow> ('z coord_scheme, unit) io" where
  "handle_all en msgs = io_for msgs (\<lambda>m. io_then (handle en m) (io_return ()))"

lemma handle_all_simps [simp]:
  "handle_all en [] s = Some (Inr (), s)"
  "handle en m s = Some (Inr r, t) \<Longrightarrow> handle_all en (m # ms) s = handle_all en ms t"
  by (simp_all add: handle_all_def)

text \<open>The messages that detached threads carry to one address, in the order in which they were started.\<close>

fun task_to :: "string \<Rightarrow> int \<Rightarrow> task \<Rightarrow> Message option" where
  "task_to host port (Task_send_and_forget h p m) = (if h = host \<and> p = port then Some m else None)"
| "task_to host port _ = None"

definition msgs_to :: "string \<Rightarrow> int \<Rightarrow> task list \<Rightarrow> Message list" where
  "msgs_to host port ts = List.map_filter (task_to host port) ts"

lemma msgs_to_simps [simp]:
  "msgs_to h p [] = []" "msgs_to h p (ts @ us) = msgs_to h p ts @ msgs_to h p us"
  by (simp_all add: msgs_to_def map_filter_def)

lemma filter_unique: "distinct xs \<Longrightarrow> (\<And>x. x \<in> set xs \<Longrightarrow> P x \<longleftrightarrow> x = r) \<Longrightarrow>
    filter P xs = (if r \<in> set xs then [r] else [])"
proof (induction xs)
  case (Cons x xs)
  have "filter P xs = (if r \<in> set xs then [r] else [])" using Cons by simp
  with Cons.prems show ?case by auto
qed simp

lemma msgs_to_replicate:
  assumes "distinct (map ni_id rs)" "ni_id r \<noteq> my_id"
    and "\<And>n. n \<in> set rs \<Longrightarrow> ni_host n = ni_host r \<Longrightarrow> ni_port n = ni_port r \<Longrightarrow> n = r"
  shows "msgs_to (ni_host r) (ni_port r) (replicate_tasks my_id m rs) = (if r \<in> set rs then [m] else [])"
proof -
  have "msgs_to (ni_host r) (ni_port r) (replicate_tasks my_id m rs) =
      map (\<lambda>_. m) (filter (\<lambda>n. ni_id n \<noteq> my_id \<and> ni_host n = ni_host r \<and> ni_port n = ni_port r) rs)"
    by (induction rs) (simp_all add: replicate_tasks_def msgs_to_def map_filter_def)
  also have "filter (\<lambda>n. ni_id n \<noteq> my_id \<and> ni_host n = ni_host r \<and> ni_port n = ni_port r) rs = (if r \<in> set rs then [r] else [])"
    using assms by (intro filter_unique) (auto simp: distinct_map)
  finally show ?thesis by simp
qed

text \<open>A replica that handles replication messages applies each.\<close>

lemma replica_handles:
  assumes "\<forall>m \<in> set ms. m_type m = REPLICATE"
  shows "\<exists>q'. handle_all en ms q = Some (Inr (), q') \<and>
    store_abs (rm_storage q') = foldl repl_exec (store_abs (rm_storage q)) ms"
  using assms
proof (induction ms arbitrary: q)
  case (Cons m ms)
  then have m: "handle en m q = handle_replicate en m q" by (simp add: handle_def)
  obtain q1 where q1: "handle_replicate en m q = Some (Inr (plain_ack (rm_my_id q)), q1)"
    "store_abs (rm_storage q1) = repl_exec (store_abs (rm_storage q)) m"
    using handle_replicate_state [of en m q] by (auto simp: repl_exec_def repl_act_def)
  from Cons.IH [of q1] Cons.prems q1 m show ?case by simp
qed simp

text \<open>
  The owner: a request changes its table as \<open>owner_exec\<close> says, and starts threads only for a write
  that takes effect.
\<close>

definition owned :: "'z coord_scheme \<Rightarrow> string \<Rightarrow> bool" where
  "owned s k \<longleftrightarrow> (\<exists>p. get_primary k (co_ring s) = Some p \<and> ni_id p = co_my_id s)"

definition replica_key :: "'z coord_scheme \<Rightarrow> NodeInfo \<Rightarrow> string \<Rightarrow> bool" where
  "replica_key s r k \<longleftrightarrow> owned s k \<and> r \<in> set (get_replicas k 3 (co_ring s))"

definition takes_effect :: "kv_state \<Rightarrow> Message \<Rightarrow> bool" where
  "takes_effect a w \<longleftrightarrow> m_type w = PUT \<or> m_type w = DEL \<and> a (m_key w) \<noteq> None"

definition change_of :: "int \<Rightarrow> int \<Rightarrow> Message \<Rightarrow> Message" where
  "change_of i now w = replicate_msg i now (m_key w) (if m_type w = PUT then m_value w else []) (m_type w)"

lemma change_of_simps [simp]:
  "m_type (change_of i now w) = REPLICATE" "m_key (change_of i now w) = m_key w"
  by (simp_all add: change_of_def replicate_msg_def)

lemma change_of_exec:
  "takes_effect a w \<Longrightarrow> repl_act (change_of i now w) v = owner_act w (a (m_key w))"
  "\<not> takes_effect a w \<Longrightarrow> owner_act w (a (m_key w)) = a (m_key w)"
  by (auto simp: change_of_def replicate_msg_def repl_act_def owner_act_def takes_effect_def)

definition request :: "Message \<Rightarrow> bool" where
  "request w \<longleftrightarrow> m_type w \<in> {PUT, GET, DEL}"

definition owner_reply :: "'z coord_scheme \<Rightarrow> Message \<Rightarrow> Message" where
  "owner_reply s w = (if m_type w = PUT then make_ack (co_my_id s) True []
     else case store_abs (rm_storage s) (m_key w) of
       None \<Rightarrow> make_error (co_my_id s) (''Key not found: '' @ m_key w)
     | Some v \<Rightarrow> make_ack (co_my_id s) True (if m_type w = GET then v else []))"

lemma owner_step:
  assumes "owned s (m_key w)" "request w"
  shows "\<exists>m s' now. handle en w s = Some (Inr m, s') \<and> co_ring s' = co_ring s \<and> co_my_id s' = co_my_id s \<and>
    rm_my_id s' = rm_my_id s \<and> sys_sent s' = sys_sent s \<and> sys_open s' = sys_open s \<and>
    store_abs (rm_storage s') = owner_exec (store_abs (rm_storage s)) w \<and> m = owner_reply s w \<and>
    sys_tasks s' = sys_tasks s @ (if takes_effect (store_abs (rm_storage s)) w
      then replicate_tasks (rm_my_id s) (change_of (rm_my_id s) now w) (get_replicas (m_key w) 3 (co_ring s)) else [])"
proof -
  obtain p where p: "get_primary (m_key w) (co_ring s) = Some p" "ni_id p = co_my_id s"
    using assms(1) by (auto simp: owned_def)
  consider "m_type w = GET" | "m_type w \<in> {PUT, DEL}" using assms(2) by (auto simp: request_def)
  then show ?thesis
  proof cases
    case 1
    with owner_get [OF p, of en] show ?thesis
      by (simp add: handle_requests takes_effect_def owner_exec_def owner_act_def owner_reply_def split: option.split)
  next
    case 2
    then obtain s' where s': "handle en w s = Some (Inr (owner_reply s w), s')" "written_by w s s'"
      using owner_put [OF p, of en] owner_delete [OF p, of en]
      by (auto simp: handle_requests owner_reply_def split: option.splits)
    from s'(2) 2 show ?thesis
      unfolding written_by_def
      by (intro exI [of _ "owner_reply s w"] exI [of _ s'])
        (auto simp: s'(1) owner_exec_def owner_act_def takes_effect_def change_of_def get_abs REPLICATION_FACTOR_def)
  qed
qed

text \<open>The replica has an address of its own among the nodes of the ring.\<close>

definition own_address :: "HashRing \<Rightarrow> NodeInfo \<Rightarrow> bool" where
  "own_address ring r \<longleftrightarrow> (\<forall>n \<in> snd ` set (hr_ring ring). ni_host n = ni_host r \<and> ni_port n = ni_port r \<longrightarrow> n = r)"

lemma owner_step_to:
  assumes "ring_inv (co_ring s)" "rm_my_id s = co_my_id s" "ni_id r \<noteq> co_my_id s" "own_address (co_ring s) r"
    and "owned s (m_key w)" "request w"
  obtains m t n now where "handle en w s = Some (Inr m, t)" "co_ring t = co_ring s" "co_my_id t = co_my_id s"
    "rm_my_id t = rm_my_id s" "store_abs (rm_storage t) = owner_exec (store_abs (rm_storage s)) w"
    "sys_tasks t = sys_tasks s @ n" "msgs_to (ni_host r) (ni_port r) n =
      (if takes_effect (store_abs (rm_storage s)) w \<and> replica_key s r (m_key w) then [change_of (rm_my_id s) now w] else [])"
proof -
  let ?rs = "get_replicas (m_key w) 3 (co_ring s)"
  have "n = r" if "n \<in> set ?rs" "ni_host n = ni_host r" "ni_port n = ni_port r" for n
    using assms(4) get_replicas_elem [OF assms(1), of 3 n "m_key w"] that by (auto simp: own_address_def)
  then have to_r: "msgs_to (ni_host r) (ni_port r) (replicate_tasks (rm_my_id s) c ?rs) = (if r \<in> set ?rs then [c] else [])" for c
    using msgs_to_replicate [of ?rs r "rm_my_id s" c] hring.replicas_distinct [OF assms(1), of 3 "m_key w"] assms(2,3)
    by auto
  obtain m t now where t: "handle en w s = Some (Inr m, t)" "co_ring t = co_ring s" "co_my_id t = co_my_id s"
    "rm_my_id t = rm_my_id s" "store_abs (rm_storage t) = owner_exec (store_abs (rm_storage s)) w"
    "sys_tasks t = sys_tasks s @ (if takes_effect (store_abs (rm_storage s)) w
      then replicate_tasks (rm_my_id s) (change_of (rm_my_id s) now w) ?rs else [])" (is "_ = _ @ ?n")
    using owner_step [OF assms(5,6), of en] by (elim exE conjE)
  have "msgs_to (ni_host r) (ni_port r) ?n =
      (if takes_effect (store_abs (rm_storage s)) w \<and> replica_key s r (m_key w) then [change_of (rm_my_id s) now w] else [])"
    using to_r assms(5) by (simp add: replica_key_def)
  from that [OF t this] show thesis .
qed

lemma keys_same:
  "co_ring t = co_ring s \<Longrightarrow> co_my_id t = co_my_id s \<Longrightarrow> owned t = owned s"
  "co_ring t = co_ring s \<Longrightarrow> co_my_id t = co_my_id s \<Longrightarrow> replica_key t r = replica_key s r"
  by (auto simp: owned_def replica_key_def fun_eq_iff)

lemma owner_messages:
  assumes "ring_inv (co_ring s)" "rm_my_id s = co_my_id s" "ni_id r \<noteq> co_my_id s" "own_address (co_ring s) r"
    and "\<forall>w \<in> set ws. owned s (m_key w) \<and> request w"
  shows "\<exists>s' new. handle_all en ws s = Some (Inr (), s') \<and> co_ring s' = co_ring s \<and> co_my_id s' = co_my_id s \<and>
    store_abs (rm_storage s') = foldl owner_exec (store_abs (rm_storage s)) ws \<and>
    sys_tasks s' = sys_tasks s @ new \<and> (\<forall>m \<in> set (msgs_to (ni_host r) (ni_port r) new). m_type m = REPLICATE) \<and>
    (\<forall>a. (\<forall>k. replica_key s r k \<longrightarrow> a k = store_abs (rm_storage s) k) \<longrightarrow>
      foldl repl_exec a (msgs_to (ni_host r) (ni_port r) new) =
        (\<lambda>k. if replica_key s r k then store_abs (rm_storage s') k else a k))"
  using assms
proof (induction ws arbitrary: s)
  case Nil
  then show ?case by (intro exI [of _ s] exI [of _ "[]"]) auto
next
  case (Cons w ws)
  let ?a = "store_abs (rm_storage s)"
  have w: "owned s (m_key w)" "request w" using Cons.prems(5) by simp_all
  obtain m t n1 now where t: "handle en w s = Some (Inr m, t)" "co_ring t = co_ring s" "co_my_id t = co_my_id s"
    "rm_my_id t = rm_my_id s" "store_abs (rm_storage t) = owner_exec ?a w" "sys_tasks t = sys_tasks s @ n1"
    and n: "msgs_to (ni_host r) (ni_port r) n1 =
      (if takes_effect ?a w \<and> replica_key s r (m_key w) then [change_of (rm_my_id s) now w] else [])"
    by (rule owner_step_to [OF Cons.prems(1-4) w])
  note keys = keys_same [OF t(2,3)]
  have one: "foldl repl_exec a (msgs_to (ni_host r) (ni_port r) n1) = (\<lambda>k. if replica_key s r k then owner_exec ?a w k else a k)"
    if "\<And>k. replica_key s r k \<Longrightarrow> a k = ?a k" for a
    unfolding n using that change_of_exec [where a = ?a and w = w]
    by (auto simp: fun_eq_iff repl_exec_def owner_exec_def)
  obtain s' new where s': "handle_all en ws t = Some (Inr (), s')" "co_ring s' = co_ring t" "co_my_id s' = co_my_id t"
    "store_abs (rm_storage s') = foldl owner_exec (store_abs (rm_storage t)) ws" "sys_tasks s' = sys_tasks t @ new"
    "\<forall>m \<in> set (msgs_to (ni_host r) (ni_port r) new). m_type m = REPLICATE"
    "\<And>a. (\<And>k. replica_key s r k \<Longrightarrow> a k = store_abs (rm_storage t) k) \<Longrightarrow>
      foldl repl_exec a (msgs_to (ni_host r) (ni_port r) new) =
        (\<lambda>k. if replica_key s r k then store_abs (rm_storage s') k else a k)"
    using Cons.IH [of t] Cons.prems t(2-4) keys by auto
  have "foldl repl_exec a (msgs_to (ni_host r) (ni_port r) (n1 @ new)) = (\<lambda>k. if replica_key s r k then store_abs (rm_storage s') k else a k)"
    if "\<And>k. replica_key s r k \<Longrightarrow> a k = ?a k" for a
    using s'(7) [of "\<lambda>k. if replica_key s r k then owner_exec ?a w k else a k"] t(5) one [OF that]
    by (simp only: msgs_to_simps foldl_append if_True simp_thms cong: if_cong) auto
  moreover have "\<forall>m \<in> set (msgs_to (ni_host r) (ni_port r) (n1 @ new)). m_type m = REPLICATE"
    using s'(6) n by auto
  ultimately show ?case
    using s' t by (intro exI [of _ s'] exI [of _ "n1 @ new"]) auto
qed

section \<open>Properties\<close>

text \<open>C2: a replica converges to the owner. The owner of some keys handles any sequence of reads, writes and
  deletions of them, one after the other, and hands the changes to detached threads. A replica
  that agrees with the owner on the keys it replicates, and that receives all the messages sent
  to its address, those about the same key in the order in which they were sent and otherwise in
  any order, agrees with the owner again, and its other keys keep their values.\<close>

theorem replica_convergence:
  fixes s q :: "'z coord_scheme"
  assumes "ring_inv (co_ring s)" "rm_my_id s = co_my_id s" "ni_id r \<noteq> co_my_id s" "own_address (co_ring s) r"
    and "\<forall>w \<in> set ws. owned s (m_key w) \<and> request w"
    and "\<forall>k. replica_key s r k \<longrightarrow> store_abs (rm_storage q) k = store_abs (rm_storage s) k"
  shows "\<exists>s' new. handle_all en ws s = Some (Inr (), s') \<and> sys_tasks s' = sys_tasks s @ new \<and>
    store_abs (rm_storage s') = foldl owner_exec (store_abs (rm_storage s)) ws \<and>
    (\<forall>arrived. (\<forall>k. filter (\<lambda>m. m_key m = k) arrived = filter (\<lambda>m. m_key m = k) (msgs_to (ni_host r) (ni_port r) new)) \<longrightarrow>
      (\<exists>q'. handle_all en' arrived q = Some (Inr (), q') \<and>
        (\<forall>k. store_abs (rm_storage q') k =
          (if replica_key s r k then store_abs (rm_storage s') k else store_abs (rm_storage q) k))))"
proof -
  obtain s' new where s': "handle_all en ws s = Some (Inr (), s')"
    "store_abs (rm_storage s') = foldl owner_exec (store_abs (rm_storage s)) ws" "sys_tasks s' = sys_tasks s @ new"
    "\<forall>m \<in> set (msgs_to (ni_host r) (ni_port r) new). m_type m = REPLICATE"
    "\<forall>a. (\<forall>k. replica_key s r k \<longrightarrow> a k = store_abs (rm_storage s) k) \<longrightarrow>
      foldl repl_exec a (msgs_to (ni_host r) (ni_port r) new) =
        (\<lambda>k. if replica_key s r k then store_abs (rm_storage s') k else a k)"
    using owner_messages [OF assms(1-5), of en] by (elim exE conjE)
  note mirror = s'(5) [rule_format, OF assms(6) [rule_format]]
  have "\<exists>q'. handle_all en' arrived q = Some (Inr (), q') \<and> (\<forall>k. store_abs (rm_storage q') k =
          (if replica_key s r k then store_abs (rm_storage s') k else store_abs (rm_storage q) k))"
    if a: "\<And>k. filter (\<lambda>m. m_key m = k) arrived = filter (\<lambda>m. m_key m = k) (msgs_to (ni_host r) (ni_port r) new)" for arrived
  proof -
    have "m_type m = REPLICATE" if "m \<in> set arrived" for m
    proof -
      have "m \<in> set (filter (\<lambda>x. m_key x = m_key m) arrived)" using that by simp
      with s'(4) show ?thesis unfolding a by simp
    qed
    with replica_handles [of arrived en' q] mirror repl.exec_order [of arrived, OF a] show ?thesis by auto
  qed
  with s'(1-3) show ?thesis by blast
qed

text \<open>The ring of two nodes: the owner of one key and its replica.\<close>

lemma pair_member:
  obtains p r where "ring_inv pair_ring" "ni_id r \<noteq> p" "own_address pair_ring r"
    "replica_key ((demo_member p)\<lparr>co_ring := pair_ring\<rparr>) r ''k''"
proof -
  obtain p r where pr: "get_replicas ''k'' 3 pair_ring = [p, r]" using pair_replicas by blast
  then have "r \<in> snd ` set (hr_ring pair_ring)" "ni_id r \<noteq> ni_id p"
    using get_replicas_elem [OF pair_ring_inv, of 3 r "''k''"] hring.replicas_distinct [OF pair_ring_inv, of 3 "''k''"] by auto
  then have "own_address pair_ring r" "ni_id r \<noteq> ni_id p" by (auto simp: own_address_def pair_ring_set ring_node_def)
  moreover have "replica_key ((demo_member (ni_id p))\<lparr>co_ring := pair_ring\<rparr>) r ''k''"
    using pr primary_before [OF pair_ring_inv pr] by (simp add: replica_key_def owned_def)
  ultimately show thesis using that pair_ring_inv by blast
qed

theorem replica_convergence_witness:
  "\<exists>p i s' new q'. handle_all (demo_env []) [Message0\<lparr>m_type := PUT, m_key := ''k'', m_value := ''v''\<rparr>,
       Message0\<lparr>m_type := PUT, m_key := ''k'', m_value := ''w''\<rparr>] ((demo_member p)\<lparr>co_ring := pair_ring\<rparr>) = Some (Inr (), s') \<and>
     sys_tasks s' = new \<and>
     handle_all (demo_env []) (msgs_to ''h'' (8000 + i) new) ((demo_member i)\<lparr>co_ring := pair_ring\<rparr>) = Some (Inr (), q') \<and>
     store_abs (rm_storage q') ''k'' = Some ''w''"
proof -
  obtain p r where pr: "ring_inv pair_ring" "ni_id r \<noteq> p" "own_address pair_ring r"
    "replica_key ((demo_member p)\<lparr>co_ring := pair_ring\<rparr>) r ''k''" by (rule pair_member)
  let ?s = "(demo_member p)\<lparr>co_ring := pair_ring\<rparr>" and ?q = "(demo_member (ni_id r))\<lparr>co_ring := pair_ring\<rparr>"
  let ?ws = "[Message0\<lparr>m_type := PUT, m_key := ''k'', m_value := ''v''\<rparr>, Message0\<lparr>m_type := PUT, m_key := ''k'', m_value := ''w''\<rparr>]"
  have addr: "ni_host r = ''h''" "ni_port r = 8000 + ni_id r"
    using pr(4) get_replicas_elem [OF pr(1), of 3 r "''k''"] by (auto simp: replica_key_def pair_ring_set ring_node_def)
  have h: "ring_inv (co_ring ?s)" "rm_my_id ?s = co_my_id ?s" "ni_id r \<noteq> co_my_id ?s" "own_address (co_ring ?s) r"
    "\<forall>w \<in> set ?ws. owned ?s (m_key w) \<and> request w"
    "\<forall>k. replica_key ?s r k \<longrightarrow> store_abs (rm_storage ?q) k = store_abs (rm_storage ?s) k"
    using pr by (auto simp: replica_key_def request_def)
  obtain s' new where c: "handle_all (demo_env []) ?ws ?s = Some (Inr (), s')" "sys_tasks s' = sys_tasks ?s @ new"
    "store_abs (rm_storage s') = foldl owner_exec (store_abs (rm_storage ?s)) ?ws"
    "\<forall>arrived. (\<forall>k. filter (\<lambda>m. m_key m = k) arrived = filter (\<lambda>m. m_key m = k) (msgs_to (ni_host r) (ni_port r) new)) \<longrightarrow>
      (\<exists>q'. handle_all (demo_env []) arrived ?q = Some (Inr (), q') \<and>
        (\<forall>k. store_abs (rm_storage q') k =
          (if replica_key ?s r k then store_abs (rm_storage s') k else store_abs (rm_storage ?q) k)))"
    using replica_convergence [OF h, of "demo_env []" "demo_env []"] by (elim exE conjE)
  obtain q' where q': "handle_all (demo_env []) (msgs_to (ni_host r) (ni_port r) new) ?q = Some (Inr (), q')"
    "store_abs (rm_storage q') ''k'' = store_abs (rm_storage s') ''k''"
    using c(4) pr(4) by auto
  have "store_abs (rm_storage s') ''k'' = Some ''w''"
    using c(3) by (simp add: owner_exec_def owner_act_def)
  with c(1,2) q' addr show ?thesis
    by (intro exI [of _ p] exI [of _ "ni_id r"] exI [of _ s'] exI [of _ new] exI [of _ q']) simp
qed

text \<open>C23: the order of two writes of one key is not restored. The owner writes a key twice and sends both
  changes, with their times, to a replica; each travels in a thread of its own. A replica that
  receives the second before the first ends with the first value while the owner holds the
  second, whatever the times say.\<close>

theorem replica_reordering:
  fixes s q :: "'z coord_scheme"
  assumes "ring_inv (co_ring s)" "rm_my_id s = co_my_id s" "ni_id r \<noteq> co_my_id s" "own_address (co_ring s) r"
    and "replica_key s r k" "m_type w1 = PUT" "m_type w2 = PUT" "m_key w1 = k" "m_key w2 = k"
  shows "\<exists>s' new m1 m2 q'. handle_all en [w1, w2] s = Some (Inr (), s') \<and> sys_tasks s' = sys_tasks s @ new \<and>
    store_abs (rm_storage s') k = Some (m_value w2) \<and> msgs_to (ni_host r) (ni_port r) new = [m1, m2] \<and>
    handle_all en' [m2, m1] q = Some (Inr (), q') \<and> store_abs (rm_storage q') k = Some (m_value w1)"
proof -
  have w: "owned s (m_key w1)" "request w1" "owned s (m_key w2)" "request w2"
    using assms by (simp_all add: replica_key_def request_def)
  obtain x t n1 t1 where t: "handle en w1 s = Some (Inr x, t)" "co_ring t = co_ring s" "co_my_id t = co_my_id s"
    "rm_my_id t = rm_my_id s" "sys_tasks t = sys_tasks s @ n1"
    and n1: "msgs_to (ni_host r) (ni_port r) n1 = [change_of (rm_my_id s) t1 w1]"
    by (rule owner_step_to [OF assms(1-4) w(1,2)]) (use assms in \<open>auto simp: takes_effect_def\<close>)
  have inv: "ring_inv (co_ring t)" "rm_my_id t = co_my_id t" "ni_id r \<noteq> co_my_id t" "own_address (co_ring t) r" "owned t (m_key w2)"
    using assms w t keys_same [OF t(2,3)] by simp_all
  obtain y s' n2 t2 where s': "handle en w2 t = Some (Inr y, s')" "sys_tasks s' = sys_tasks t @ n2"
    "store_abs (rm_storage s') = owner_exec (store_abs (rm_storage t)) w2"
    and n2: "msgs_to (ni_host r) (ni_port r) n2 = [change_of (rm_my_id t) t2 w2]"
    by (rule owner_step_to [OF inv w(4)]) (use assms keys_same [OF t(2,3)] in \<open>auto simp: takes_effect_def\<close>)
  let ?m1 = "change_of (rm_my_id s) t1 w1" and ?m2 = "change_of (rm_my_id t) t2 w2"
  obtain q' where "handle_all en' [?m2, ?m1] q = Some (Inr (), q')"
    "store_abs (rm_storage q') = foldl repl_exec (store_abs (rm_storage q)) [?m2, ?m1]"
    using replica_handles [of "[?m2, ?m1]" en' q] by auto
  with assms t s' n1 n2 show ?thesis
    by (intro exI [of _ s'] exI [of _ "n1 @ n2"] exI [of _ ?m1] exI [of _ ?m2] exI [of _ q'])
      (auto simp: owner_exec_def owner_act_def repl_exec_def repl_act_def change_of_def replicate_msg_def)
qed

theorem replica_reordering_witness:
  "\<exists>p i s' m1 m2 q'. handle_all (demo_env []) [Message0\<lparr>m_type := PUT, m_key := ''k'', m_value := ''v''\<rparr>,
       Message0\<lparr>m_type := PUT, m_key := ''k'', m_value := ''w''\<rparr>] ((demo_member p)\<lparr>co_ring := pair_ring\<rparr>) = Some (Inr (), s') \<and>
     store_abs (rm_storage s') ''k'' = Some ''w'' \<and>
     handle_all (demo_env []) [m2, m1] ((demo_member i)\<lparr>co_ring := pair_ring\<rparr>) = Some (Inr (), q') \<and>
     store_abs (rm_storage q') ''k'' = Some ''v''"
proof -
  obtain p r where pr: "ring_inv pair_ring" "ni_id r \<noteq> p" "own_address pair_ring r"
    "replica_key ((demo_member p)\<lparr>co_ring := pair_ring\<rparr>) r ''k''" by (rule pair_member)
  let ?s = "(demo_member p)\<lparr>co_ring := pair_ring\<rparr>" and ?q = "(demo_member (ni_id r))\<lparr>co_ring := pair_ring\<rparr>"
  let ?w1 = "Message0\<lparr>m_type := PUT, m_key := ''k'', m_value := ''v''\<rparr>" and ?w2 = "Message0\<lparr>m_type := PUT, m_key := ''k'', m_value := ''w''\<rparr>"
  have h: "ring_inv (co_ring ?s)" "rm_my_id ?s = co_my_id ?s" "ni_id r \<noteq> co_my_id ?s" "own_address (co_ring ?s) r"
    "replica_key ?s r ''k''" "m_type ?w1 = PUT" "m_type ?w2 = PUT" "m_key ?w1 = ''k''" "m_key ?w2 = ''k''"
    using pr by simp_all
  obtain s' new m1 m2 q' where "handle_all (demo_env []) [?w1, ?w2] ?s = Some (Inr (), s')"
    "store_abs (rm_storage s') ''k'' = Some (m_value ?w2)"
    "handle_all (demo_env []) [m2, m1] ?q = Some (Inr (), q')" "store_abs (rm_storage q') ''k'' = Some (m_value ?w1)"
    using replica_reordering [OF h, of "demo_env []" "demo_env []" ?q] by (elim exE conjE)
  then show ?thesis
    by (intro exI [of _ p] exI [of _ "ni_id r"] exI [of _ s'] exI [of _ m1] exI [of _ m2] exI [of _ q']) simp
qed

end
