(* ===== verification/Partition.thy ===== *)
theory Partition
  imports Failover
begin

text \<open>
  A node that cannot reach any other node: what its coordinator answers. Reads of a key that the
  node holds a copy of go on, writes of keys that other nodes own are refused.
\<close>

section \<open>No connection succeeds\<close>

definition cut_off :: "env \<Rightarrow> bool" where
  "cut_off en \<longleftrightarrow> (\<forall>k fd ip port. \<not> env_connect en k fd ip port)"

lemma cut_off_connection:
  assumes "cut_off en"
  shows "\<exists>s'. make_connection en host port tm s = Some (Inr (-1), s')"
  using assms by (simp add: make_connection_def open_socket_def set_timeouts_def cut_off_def io_bind_def io_then_def split: option.split)

lemma cut_off_send:
  assumes "cut_off en"
  obtains s' where "send_message en host port msg s = Some (Inr None, s')"
  using cut_off_connection [OF assms, of host port 2000 s] by (auto simp: send_message_def)

lemma cut_off_loop:
  assumes "cut_off en" "texts_utf8 msg"
  shows "\<exists>s'. forward_loop en i msg rs s = Some (Inr (own_answer s msg), s')"
proof (induction rs arbitrary: s)
  case Nil
  then show ?case by (simp add: forward_local_own)
next
  case (Cons r rs)
  obtain t where t: "send_message en (ni_host r) (ni_port r) msg s = Some (Inr None, t)"
    by (rule cut_off_send [OF assms(1)])
  have "own_answer t msg = own_answer s msg"
    by (rule own_answer_talk [OF io_keepsD [OF talk_send [OF assms(2)] t]])
  with Cons [of s] Cons [of t] t show ?case
    by (auto simp: io_store_state own_answer_def get_abs split: option.split)
qed

lemma cut_off_forward:
  assumes "cut_off en" "texts_utf8 msg"
  shows "\<exists>s'. forward_to en target msg s = Some (Inr (own_answer s msg), s')"
proof -
  obtain t where t: "send_message en (ni_host target) (ni_port target) msg s = Some (Inr None, t)"
    by (rule cut_off_send [OF assms(1)])
  let ?l = "t\<lparr>sys_log := sys_log t @ [(WRN, ''Primary node '' @ to_string (ni_id target) @ '' unreachable, trying replicas'')]\<rparr>"
  have "own_answer ?l msg = own_answer s msg"
    using talk_fields [OF io_keepsD [OF talk_send [OF assms(2)] t]] by (intro own_answer_same) simp_all
  with cut_off_loop [OF assms, of "ni_id target" "get_replicas (m_key msg) REPLICATION_FACTOR (co_ring t)" ?l] t
  show ?thesis by (simp add: forward_to_def)
qed

section \<open>Properties\<close>

text \<open>C16: a node that is cut off from the others still answers every request. A read of a key that another
  node owns returns the node's own copy, a read of a key it holds no copy of and every write and
  deletion of such a key get the error that all nodes are unavailable, and its table stays as it
  is. A key that the node owns it serves as ever: a write is stored and acknowledged although no
  replica can be told.\<close>

theorem partitioned_node:
  assumes "cut_off en" "texts_utf8 msg" "m_type msg \<in> {PUT, GET, DEL}"
    and "get_primary (m_key msg) (co_ring s) = Some p"
  shows "\<exists>reply s'. handle en msg s = Some (Inr reply, s') \<and>
    (if ni_id p \<noteq> co_my_id s then rm_storage s' = rm_storage s \<and>
       reply = (case (m_type msg, store_abs (rm_storage s) (m_key msg)) of
          (GET, Some v) \<Rightarrow> make_ack (co_my_id s) True v
        | _ \<Rightarrow> make_error (co_my_id s) ''All nodes for key unavailable'')
     else m_type msg = PUT \<longrightarrow> reply = make_ack (co_my_id s) True [] \<and>
       store_abs (rm_storage s') = (store_abs (rm_storage s))(m_key msg \<mapsto> m_value msg))"
proof (cases "ni_id p = co_my_id s")
  case True
  with assms(3) owner_put [OF assms(4) True, of en] owner_get [OF assms(4) True, of en] owner_delete [OF assms(4) True, of en]
  show ?thesis by (auto simp: handle_requests written_by_def)
next
  case False
  obtain s' where s': "forward_to en p msg s = Some (Inr (own_answer s msg), s')"
    using cut_off_forward [OF assms(1,2)] by blast
  have "handle en msg s = forward_to en p msg s"
    using assms(3) route_cases(3) [OF assms(4) False]
    by (auto simp: handle_requests handle_put_def handle_get_def handle_delete_def)
  moreover have "rm_storage s' = rm_storage s"
    using talk_fields [OF forward_to_talks [OF assms(2) s']] by simp
  ultimately show ?thesis
    using s' assms(3) False by (auto simp: own_answer_def split: option.split)
qed

lemma demo_cut_off: "cut_off ((demo_env [])\<lparr>env_connect := (\<lambda>_ _ _ _. False)\<rparr>)"
  by (simp add: cut_off_def)

theorem partitioned_node_witness:
  "\<exists>i s'. handle ((demo_env [])\<lparr>env_connect := (\<lambda>_ _ _ _. False)\<rparr>) (Message0\<lparr>m_type := GET, m_key := ''k''\<rparr>)
     ((demo_member i)\<lparr>rm_storage := put 0 ''k'' ''v'' (rm_storage (demo_member i))\<rparr>) = Some (Inr (make_ack i True ''v''), s')"
proof -
  let ?en = "(demo_env [])\<lparr>env_connect := (\<lambda>_ _ _ _. False)\<rparr>" and ?m = "Message0\<lparr>m_type := GET, m_key := ''k''\<rparr>"
  obtain p where p: "get_primary ''k'' ring3 = Some p" using ring3_routed by blast
  let ?s = "(demo_member (ni_id p + 1))\<lparr>rm_storage := put 0 ''k'' ''v'' (rm_storage (demo_member (ni_id p + 1)))\<rparr>"
  have h: "texts_utf8 ?m" "m_type ?m \<in> {PUT, GET, DEL}" "get_primary (m_key ?m) (co_ring ?s) = Some p"
    using p by (simp_all add: texts_utf8_def utf8_valid_def utf8_ranges_def)
  have v: "store_abs (rm_storage ?s) ''k'' = Some ''v''" "ni_id p \<noteq> co_my_id ?s" by (simp_all add: store_abs_def update_conv')
  from partitioned_node [OF demo_cut_off h] v show ?thesis by (intro exI [of _ "ni_id p + 1"]) auto
qed

end
