(* ===== verification/Node_Main.thy ===== *)
theory Node_Main
  imports Failure_Detection
begin

text \<open>
  \<^verbatim>\<open>node/main.cpp\<close>: the command line, the construction of a node, the handler of its server and the
  threads it runs. The log file on disk and whether it can be opened are arguments of the
  construction. The lemmas show that a node that is started with its own address and those of
  the others in order knows all nodes under the right identifiers.
\<close>

section \<open>The command line\<close>

record Config =
  cfg_node_id :: int
  cfg_port :: int
  cfg_host :: string
  cfg_wal_path :: string
  cfg_peers :: "NodeInfo list"

definition Config0 :: Config where
  "Config0 = \<lparr>cfg_node_id = 1, cfg_port = 8001, cfg_host = ''localhost'', cfg_wal_path = ''./data/wal.log'', cfg_peers = []\<rparr>"

text \<open>\<^verbatim>\<open>std::string::rfind\<close> of one character.\<close>

definition rfind :: "char \<Rightarrow> string \<Rightarrow> nat option" where
  "rfind c s = (if c \<in> set s then Some (length s - Suc (length (takeWhile (\<lambda>x. x \<noteq> c) (rev s)))) else None)"

definition parse_peer :: "string \<Rightarrow> int \<Rightarrow> std_exn + NodeInfo" where
  "parse_peer s id_hint = (case rfind (CHR '':'') s of
       None \<Rightarrow> Inl (invalid_argument (''Bad peer: '' @ s))
     | Some colon \<Rightarrow> sum_bind (stoi (drop (colon + 1) s)) (\<lambda>port.
         Inr \<lparr>ni_id = id_hint, ni_host = take colon s, ni_port = port, ni_alive = True\<rparr>))"

fun parse_peers :: "int \<Rightarrow> int \<Rightarrow> string list \<Rightarrow> std_exn + NodeInfo list" where
  "parse_peers node_id peer_seq [] = Inr []"
| "parse_peers node_id peer_seq (tok # toks) =
    (if tok = [] then parse_peers node_id peer_seq toks
     else let seq = (if peer_seq = node_id then peer_seq + 1 else peer_seq)
       in sum_bind (parse_peer tok seq) (\<lambda>p. sum_bind (parse_peers node_id (seq + 1) toks) (\<lambda>ps. Inr (p # ps))))"

fun parse_args_loop :: "Config \<Rightarrow> string list \<Rightarrow> std_exn + Config" where
  "parse_args_loop cfg (arg # val # rest) =
    (if arg = ''--id'' then sum_bind (stoi val) (\<lambda>n. parse_args_loop (cfg\<lparr>cfg_node_id := n\<rparr>) rest)
     else if arg = ''--port'' then sum_bind (stoi val) (\<lambda>n. parse_args_loop (cfg\<lparr>cfg_port := n\<rparr>) rest)
     else if arg = ''--host'' then parse_args_loop (cfg\<lparr>cfg_host := val\<rparr>) rest
     else if arg = ''--wal'' then parse_args_loop (cfg\<lparr>cfg_wal_path := val\<rparr>) rest
     else if arg = ''--peers'' then
       sum_bind (parse_peers (cfg_node_id cfg) 1 (getlines (CHR '','') val)) (\<lambda>ps.
         parse_args_loop (cfg\<lparr>cfg_peers := cfg_peers cfg @ ps\<rparr>) rest)
     else parse_args_loop cfg (val # rest))"
| "parse_args_loop cfg args = Inr cfg"

text \<open>The arguments start after the name of the program.\<close>

definition parse_args :: "string list \<Rightarrow> std_exn + Config" where
  "parse_args argv = parse_args_loop Config0 (tl argv)"

section \<open>The node\<close>

definition node_wal :: "Config \<Rightarrow> string" where
  "node_wal cfg = (if cfg_wal_path cfg \<noteq> ''./data/wal.log'' then cfg_wal_path cfg
     else ''./data/node'' @ to_string (cfg_node_id cfg) @ ''_wal.log'')"

definition self_info :: "Config \<Rightarrow> NodeInfo" where
  "self_info cfg = \<lparr>ni_id = cfg_node_id cfg, ni_host = cfg_host cfg, ni_port = cfg_port cfg, ni_alive = True\<rparr>"

definition all_nodes :: "Config \<Rightarrow> NodeInfo list" where
  "all_nodes cfg = self_info cfg # cfg_peers cfg"

definition node_ring :: "Config \<Rightarrow> HashRing" where
  "node_ring cfg = foldl (\<lambda>r n. add_node n r) HashRing_init (all_nodes cfg)"

text \<open>The state when all services exist; the constructor of the failure detector reads the clock.\<close>

definition node_init :: "env \<Rightarrow> Config \<Rightarrow> string option \<Rightarrow> bool \<Rightarrow> coord" where
  "node_init en cfg disk can_append =
    (let s = sys0\<lparr>sys_calls := 1, sys_log := [(INFO, ''Starting distributed-db node id='' @ to_string (cfg_node_id cfg)
           @ '' on port '' @ to_string (cfg_port cfg))] @ ctor_log (node_wal cfg) disk can_append\<rparr>;
         rep = tcp.extend (tcp_init s)
           \<lparr>rm_my_id = cfg_node_id cfg, rm_storage = StorageEngine_ctor (node_wal cfg) disk can_append\<rparr>
     in coordinator_init (cfg_node_id cfg) (self_info cfg) (node_ring cfg)
       (heartbeat_init (env_clock en 0) (cfg_node_id cfg) (cfg_port cfg) (cfg_peers cfg)
         (election_init (cfg_node_id cfg) (all_nodes cfg) rep)))"

text \<open>The handler that \<^verbatim>\<open>main\<close> gives the server.\<close>

definition node_handler :: "env \<Rightarrow> Message \<Rightarrow> (coord, Message) io" where
  "node_handler en msg =
    io_then (mark_alive en (Some on_node_recovery) (m_node_id msg)) (handle en msg)"

text \<open>The body of the synchronization thread: its loop stops after the first peer.\<close>

definition initial_sync :: "env \<Rightarrow> NodeInfo list \<Rightarrow> (coord, unit) io" where
  "initial_sync en peers = (case peers of [] \<Rightarrow> io_return ()
     | p # _ \<Rightarrow> io_then (io_log INFO (''Attempting initial sync from peer node '' @ to_string (ni_id p)))
         (sync_from_peer en p))"

definition node_start :: "Config \<Rightarrow> (coord, unit) io" where
  "node_start cfg =
    io_then heartbeat_start
   (io_then election_start
   (io_then (if cfg_peers cfg \<noteq> [] then spawn (Task_sync (cfg_peers cfg)) else io_return ())
     (io_log INFO ''Node ready. Press Ctrl+C to stop.'')))"

definition node_main :: "env \<Rightarrow> Config \<Rightarrow> (coord, int) io" where
  "node_main en cfg =
    io_then (node_start cfg)
   (io_then (server_start en (cfg_port cfg))
   (io_then heartbeat_stop
   (io_then election_stop
   (io_then (io_log INFO (''Node '' @ to_string (cfg_node_id cfg) @ '' shut down cleanly.''))
     (io_return 0)))))"

text \<open>The process: an exception that leaves \<^verbatim>\<open>parse_args\<close> ends it before there is a node.\<close>

definition main :: "env \<Rightarrow> string option \<Rightarrow> bool \<Rightarrow> string list \<Rightarrow> std_exn + ((std_exn + int) \<times> coord) option" where
  "main en disk can_append argv = sum_bind (parse_args argv) (\<lambda>cfg.
     Inr (node_main en cfg (node_init en cfg disk can_append)))"

section \<open>Threads\<close>

definition run_task :: "env \<Rightarrow> task \<Rightarrow> (coord, unit) io" where
  "run_task en t = (case t of
       Task_send_and_forget host port msg \<Rightarrow> send_and_forget en host port msg
     | Task_trigger_election \<Rightarrow> trigger_election en announce_leader
     | Task_election_timeout term \<Rightarrow> election_timeout en announce_leader term
     | Task_handle_connection fd \<Rightarrow> handle_connection en (Some (node_handler en)) fd
     | Task_sync peers \<Rightarrow> initial_sync en peers)"

text \<open>
  The steps of a node that serves: it accepts a connection, one of its threads runs, the monitor
  or the sender of the failure detector has a turn. A step is one whole operation.
\<close>

inductive node_step :: "env \<Rightarrow> coord \<Rightarrow> coord \<Rightarrow> bool" for en where
  step_accept: "node_step en s (s\<lparr>sys_open := fd # sys_open s, sys_tasks := sys_tasks s @ [Task_handle_connection fd]\<rparr>)"
| step_task: "sys_tasks s = ts @ t # us \<Longrightarrow> run_task en t (s\<lparr>sys_tasks := ts @ us\<rparr>) = Some (r, s') \<Longrightarrow> node_step en s s'"
| step_monitor: "monitor_turn en (Some (on_node_failure en)) s = Some (r, s') \<Longrightarrow> node_step en s s'"
| step_sender: "sender_turn en s = Some (r, s') \<Longrightarrow> node_step en s s'"

definition node_reaches :: "env \<Rightarrow> coord \<Rightarrow> coord \<Rightarrow> bool" where
  "node_reaches en = (node_step en)\<^sup>*\<^sup>*"

section \<open>Identifiers of the peers\<close>

lemma rfind_colon:
  "CHR '':'' \<notin> set t \<Longrightarrow> rfind (CHR '':'') (h @ CHR '':'' # t) = Some (length h)"
proof -
  assume "CHR '':'' \<notin> set t"
  then have e: "takeWhile (\<lambda>x. x \<noteq> CHR '':'') (rev (h @ CHR '':'' # t)) = rev t"
    by (auto simp: takeWhile_append takeWhile_eq_all_conv)
  show ?thesis unfolding rfind_def e by simp
qed

lemma to_string_no_colon [simp]: "CHR '':'' \<notin> set (to_string i)" "CHR '','' \<notin> set (to_string i)"
  by (auto dest: to_string_chars)

lemma parse_peer_addr:
  "int32 (ni_port n) \<Longrightarrow> ni_alive n \<Longrightarrow> parse_peer (addr n) (ni_id n) = Inr n"
  by (simp add: parse_peer_def addr_def rfind_colon stoi_to_string)

text \<open>A list of peers skips the own identifier whether or not it has been reached.\<close>

lemma parse_peers_skip: "parse_peers k k toks = parse_peers k (k + 1) toks"
  by (induction toks) simp_all

lemma parse_peers_addr:
  "map ni_id ns = [q..q + int (length ns) - 1] \<Longrightarrow> (\<And>n. n \<in> set ns \<Longrightarrow> int32 (ni_port n) \<and> ni_alive n) \<Longrightarrow>
   parse_peers k q (map addr (filter (\<lambda>n. ni_id n \<noteq> k) ns)) = Inr (filter (\<lambda>n. ni_id n \<noteq> k) ns)"
proof (induction ns arbitrary: q)
  case (Cons n ns)
  have "[q..q + int (length (n # ns)) - 1] = q # [q + 1..q + 1 + int (length ns) - 1]"
    by (simp add: upto_rec1)
  with Cons.prems(1) have q: "ni_id n = q" and ids: "map ni_id ns = [q + 1..q + 1 + int (length ns) - 1]" by simp_all
  have IH: "parse_peers k (q + 1) (map addr (filter (\<lambda>n. ni_id n \<noteq> k) ns)) = Inr (filter (\<lambda>n. ni_id n \<noteq> k) ns)"
    using Cons.IH [OF ids] Cons.prems(2) by simp
  have "addr n \<noteq> []" by (simp add: addr_def)
  with IH q Cons.prems(2) parse_peer_addr [of n] show ?case
    by (cases "q = k") (auto simp: parse_peers_skip)
qed simp

fun comma_list :: "string list \<Rightarrow> string" where
  "comma_list [] = []"
| "comma_list [x] = x"
| "comma_list (x # y # xs) = x @ CHR '','' # comma_list (y # xs)"

lemma getlines_comma_list:
  "(\<And>x. x \<in> set xs \<Longrightarrow> x \<noteq> [] \<and> CHR '','' \<notin> set x) \<Longrightarrow> getlines (CHR '','') (comma_list xs) = xs"
proof (induction xs rule: comma_list.induct)
  case (2 x)
  then show ?case by (simp add: getlines.simps [of _ x] std_getline_last)
qed simp_all

text \<open>The command line of one node of a cluster, and the configuration read from it.\<close>

definition cluster_args :: "string \<Rightarrow> NodeInfo list \<Rightarrow> NodeInfo \<Rightarrow> string list" where
  "cluster_args prog ns self = [prog, ''--id'', to_string (ni_id self), ''--port'', to_string (ni_port self),
     ''--host'', ni_host self, ''--peers'', comma_list (map addr (filter (\<lambda>n. ni_id n \<noteq> ni_id self) ns))]"

lemma cluster_inj: "map ni_id ns = [1..int (length ns)] \<Longrightarrow> inj_on ni_id (set ns)"
  using distinct_map [of ni_id ns] by simp

lemma cluster_parse:
  assumes "map ni_id ns = [1..int (length ns)]" "int32 (int (length ns))" "self \<in> set ns"
    and "\<And>n. n \<in> set ns \<Longrightarrow> int32 (ni_port n) \<and> ni_alive n \<and> CHR '','' \<notin> set (ni_host n)"
  shows "\<exists>cfg. parse_args (cluster_args prog ns self) = Inr cfg \<and>
    self_info cfg = self \<and> cfg_peers cfg = filter (\<lambda>n. ni_id n \<noteq> ni_id self) ns \<and> set (all_nodes cfg) = set ns"
proof -
  let ?others = "filter (\<lambda>n. ni_id n \<noteq> ni_id self) ns"
  have "ni_id self \<in> set (map ni_id ns)" using assms(3) by simp
  then have "int32 (ni_id self)" using assms(2) unfolding assms(1) by (auto simp: int_range_def)
  then have sid: "stoi (to_string (ni_id self)) = Inr (ni_id self)" "stoi (to_string (ni_port self)) = Inr (ni_port self)"
    using assms(3,4) by (simp_all add: stoi_to_string)
  have toks: "getlines (CHR '','') (comma_list (map addr ?others)) = map addr ?others"
    using assms(4) by (intro getlines_comma_list) (auto simp: addr_def)
  have peers: "parse_peers (ni_id self) 1 (map addr ?others) = Inr ?others"
    using parse_peers_addr [of ns 1 "ni_id self"] assms(1,4) by simp
  have "inj_on ni_id (set ns)" by (rule cluster_inj [OF assms(1)])
  then have "set (self # ?others) = set ns" using assms(3) by (auto dest: inj_onD)
  moreover have "self = \<lparr>ni_id = ni_id self, ni_host = ni_host self, ni_port = ni_port self, ni_alive = True\<rparr>"
    using assms(3,4) by (cases self) auto
  ultimately show ?thesis
    by (simp add: cluster_args_def parse_args_def Config0_def sid toks peers self_info_def all_nodes_def)
qed

end
