(* ===== verification/Cluster_Routing.thy ===== *)
theory Cluster_Routing
  imports Node_Main
begin

text \<open>
  The rings of several nodes, which \<^verbatim>\<open>node/main.cpp\<close> builds one by one: every node adds itself first
  and then its peers. The theorems show that the order does not matter as long as no two nodes
  share a point of the ring, so that all nodes of a cluster route alike, and what happens to a
  key at a point that two nodes share.
\<close>

section \<open>Rings are determined by their entries\<close>

lemma map_wf_unique:
  assumes "map_wf m" "map_wf m'" "map_of m = map_of m'"
  shows "m = m'"
proof -
  have d: "distinct (map fst m)" "distinct (map fst m')" using assms(1,2) by (simp_all add: map_wf_distinct)
  have "e \<in> set m \<longleftrightarrow> e \<in> set m'" for e
    using map_of_eq_Some_iff [OF d(1), of "fst e" "snd e"] map_of_eq_Some_iff [OF d(2), of "fst e" "snd e"] assms(3) by simp
  then have s: "set m = set m'" by blast
  show ?thesis
  proof (rule map_sorted_distinct_set_unique [of fst])
    show "inj_on fst (set m \<union> set m')" using d(1) s by (simp add: distinct_map)
    show "sorted (map fst m)" "sorted (map fst m')"
      using assms(1,2) by (simp_all add: map_wf_def strict_sorted_iff)
  qed (use d s in auto)
qed

text \<open>The points of a node on the ring.\<close>

definition points :: "NodeInfo \<Rightarrow> u32 set" where
  "points n = (\<lambda>i. vnode_hash (ni_id n) (int i)) ` {0..<VIRTUAL_NODES}"

definition add_nodes :: "NodeInfo list \<Rightarrow> HashRing \<Rightarrow> HashRing" where
  "add_nodes ns r = foldl (\<lambda>r n. add_node n r) r ns"

lemma add_nodes_inv: "ring_inv r \<Longrightarrow> ring_inv (add_nodes ns r)"
  by (induction ns arbitrary: r) (simp_all add: add_nodes_def ring_inv_add)

lemma node_ring_nodes: "node_ring cfg = add_nodes (all_nodes cfg) HashRing_init"
  by (simp add: node_ring_def add_nodes_def)

text \<open>The node that was added last wins a point; the table of nodes holds the last of each identifier.\<close>

lemma add_nodes_lookup:
  "map_of (hr_ring (add_nodes ns r)) h = (case find (\<lambda>n. h \<in> points n) (rev ns) of
     Some n \<Rightarrow> Some n | None \<Rightarrow> map_of (hr_ring r) h)"
  "map_of (hr_nodes (add_nodes ns r)) i = (case find (\<lambda>n. ni_id n = i) (rev ns) of
     Some n \<Rightarrow> Some n | None \<Rightarrow> map_of (hr_nodes r) i)"
  by (induction ns rule: rev_induct)
    (simp_all add: add_nodes_def add_node_def add_vnodes_lookup points_def)

lemma find_same:
  assumes "set xs = set ys" "\<And>a b. a \<in> set xs \<Longrightarrow> b \<in> set xs \<Longrightarrow> P a \<Longrightarrow> P b \<Longrightarrow> a = b"
  shows "find P xs = find P ys"
proof (cases "find P xs")
  case None
  then have "\<not> (\<exists>x. x \<in> set ys \<and> P x)" using assms(1) by (simp add: find_None_iff)
  then have "find P ys = None" by (simp only: find_None_iff) blast
  with None show ?thesis by simp
next
  case (Some x)
  then have x: "x \<in> set xs" "P x" by (auto dest: find_Some_set)
  then obtain y where y: "find P ys = Some y" using assms(1) by (cases "find P ys") (auto simp: find_None_iff)
  with Some x assms find_Some_set [OF y] show ?thesis by auto
qed

lemma add_nodes_order:
  assumes "set ns = set ns'" "inj_on ni_id (set ns)"
    and "\<And>a b. a \<in> set ns \<Longrightarrow> b \<in> set ns \<Longrightarrow> a \<noteq> b \<Longrightarrow> points a \<inter> points b = {}"
  shows "add_nodes ns HashRing_init = add_nodes ns' HashRing_init"
proof -
  have inv: "ring_inv (add_nodes ns HashRing_init)" "ring_inv (add_nodes ns' HashRing_init)"
    by (simp_all add: add_nodes_inv)
  have "find (\<lambda>n. h \<in> points n) (rev ns) = find (\<lambda>n. h \<in> points n) (rev ns')" for h
    using assms(1,3) by (intro find_same) auto
  then have "hr_ring (add_nodes ns HashRing_init) = hr_ring (add_nodes ns' HashRing_init)"
    by (intro map_wf_unique ring_invD(1) inv) (simp add: add_nodes_lookup fun_eq_iff)
  moreover have "find (\<lambda>n. ni_id n = i) (rev ns) = find (\<lambda>n. ni_id n = i) (rev ns')" for i
    using assms(1,2) by (intro find_same) (auto dest: inj_onD)
  then have "hr_nodes (add_nodes ns HashRing_init) = hr_nodes (add_nodes ns' HashRing_init)"
    by (intro map_wf_unique ring_invD(2) inv) (simp add: add_nodes_lookup fun_eq_iff)
  ultimately show ?thesis by (cases "add_nodes ns HashRing_init"; cases "add_nodes ns' HashRing_init") simp
qed

text \<open>A key whose hash is a point of the ring belongs to the node at that point.\<close>

lemma primary_at_point:
  assumes "ring_inv r" "map_of (hr_ring r) (murmur3 key) = Some n" "ni_alive n"
  shows "get_primary key r = Some n"
proof -
  let ?h = "murmur3 key"
  have "\<exists>es. filter (\<lambda>e. ?h \<le> fst e) m = (?h, n) # es" if "map_wf m" "map_of m ?h = Some n" for m
    using that
  proof (induction m)
    case (Cons e es)
    have "fst e < ?h" if "fst e \<noteq> ?h"
      using Cons.prems that map_of_SomeD [of es ?h n] by (auto split: if_splits)
    with Cons show ?case by (cases e; cases "fst e = ?h") (auto split: if_splits)
  qed simp
  from this [OF ring_invD(1) [OF assms(1)] assms(2)] assms(1,3) show ?thesis
    by (auto simp: primary_clockwise clockwise_def)
qed

section \<open>Properties\<close>

text \<open>C9: all nodes of a cluster route alike. The nodes have the identifiers 1, 2, and so on, and each is
  started with its own identifier and address and the addresses of the others in that order. Then
  each knows itself and every other node under the right identifier, host and port, and any two
  build the same ring, although each adds itself first, and so agree on the owner and on the
  replicas of every key, unless two nodes of the cluster share a point of the ring.\<close>

theorem routing_agreement:
  assumes "map ni_id ns = [1..int (length ns)]" "int32 (int (length ns))" "a \<in> set ns" "b \<in> set ns"
    and "\<And>n. n \<in> set ns \<Longrightarrow> int32 (ni_port n) \<and> ni_alive n \<and> CHR '','' \<notin> set (ni_host n)"
  shows "\<exists>cfg cfg'. parse_args (cluster_args prog ns a) = Inr cfg \<and> parse_args (cluster_args prog ns b) = Inr cfg' \<and>
    self_info cfg = a \<and> set (all_nodes cfg) = set ns \<and> self_info cfg' = b \<and> set (all_nodes cfg') = set ns \<and>
    (node_ring cfg = node_ring cfg' \<and>
       (\<forall>key rf. get_primary key (node_ring cfg) = get_primary key (node_ring cfg') \<and>
          get_replicas key rf (node_ring cfg) = get_replicas key rf (node_ring cfg')) \<or>
     (\<exists>x \<in> set ns. \<exists>y \<in> set ns. ni_id x < ni_id y \<and> (\<exists>i < VIRTUAL_NODES. \<exists>j < VIRTUAL_NODES.
       vnode_hash (ni_id x) (int i) = vnode_hash (ni_id y) (int j))))"
proof -
  obtain cfg cfg' where cfg: "parse_args (cluster_args prog ns a) = Inr cfg" "set (all_nodes cfg) = set ns"
    "parse_args (cluster_args prog ns b) = Inr cfg'" "set (all_nodes cfg') = set ns"
    and self: "self_info cfg = a" "self_info cfg' = b"
    using cluster_parse [OF assms(1-3,5)] cluster_parse [OF assms(1,2,4,5)] by meson
  note inj = cluster_inj [OF assms(1)]
  have "node_ring cfg = node_ring cfg'"
    if "\<not> (\<exists>x \<in> set ns. \<exists>y \<in> set ns. ni_id x < ni_id y \<and> (\<exists>i < VIRTUAL_NODES. \<exists>j < VIRTUAL_NODES.
       vnode_hash (ni_id x) (int i) = vnode_hash (ni_id y) (int j)))"
  proof -
    have lt: "points x \<inter> points y = {}" if "x \<in> set ns" "y \<in> set ns" "ni_id x < ni_id y" for x y
      using \<open>\<not> _\<close> that unfolding points_def by force
    have "points x \<inter> points y = {}" if "x \<in> set ns" "y \<in> set ns" "x \<noteq> y" for x y
    proof -
      have "ni_id x \<noteq> ni_id y" using inj_onD [OF inj _ that(1,2)] that(3) by blast
      then consider "ni_id x < ni_id y" | "ni_id y < ni_id x" by linarith
      then show ?thesis using lt [OF that(1,2)] lt [OF that(2,1)] by cases blast+
    qed
    with inj show ?thesis
      unfolding node_ring_nodes by (intro add_nodes_order) (simp_all add: cfg)
  qed
  then show ?thesis using cfg self by metis
qed

text \<open>Three nodes and their ring.\<close>

theorem routing_agreement_witness:
  "\<exists>cfg cfg'. parse_args (cluster_args ''node'' (map ring_node [1, 2, 3]) (ring_node 1)) = Inr cfg \<and>
     parse_args (cluster_args ''node'' (map ring_node [1, 2, 3]) (ring_node 3)) = Inr cfg' \<and>
     (get_primary ''k'' (node_ring cfg) = get_primary ''k'' (node_ring cfg') \<or>
      (\<exists>x \<in> {1, 2, 3}. \<exists>y \<in> {1, 2, 3}. x < y \<and> (\<exists>i < VIRTUAL_NODES. \<exists>j < VIRTUAL_NODES. vnode_hash x (int i) = vnode_hash y (int j))))"
proof -
  let ?ns = "map ring_node [1, 2, 3]"
  have h: "map ni_id ?ns = [1..int (length ?ns)]" "int32 (int (length ?ns))" "ring_node 1 \<in> set ?ns" "ring_node 3 \<in> set ?ns"
    "\<And>n. n \<in> set ?ns \<Longrightarrow> int32 (ni_port n) \<and> ni_alive n \<and> CHR '','' \<notin> set (ni_host n)"
    by (auto simp: ring_node_def int_range_def upto_rec1)
  have ids: "(\<exists>x \<in> set ?ns. \<exists>y \<in> set ?ns. P (ni_id x) (ni_id y)) = (\<exists>x \<in> {1, 2, 3}. \<exists>y \<in> {1, 2, 3}. P x y)" for P
    by (simp add: ring_node_def)
  from routing_agreement [OF h(1-4), of "''node''"] h(5) show ?thesis
    unfolding ids [of "\<lambda>x y. x < y \<and> (\<exists>i < VIRTUAL_NODES. \<exists>j < VIRTUAL_NODES. vnode_hash x (int i) = vnode_hash y (int j))"]
    by blast
qed

text \<open>The node that each member of a cluster sees at a point of the ring: the greatest other node that
  has the point.\<close>

lemma find_rev: "find P (rev xs) = (if filter P xs = [] then None else Some (last (filter P xs)))"
  by (induction xs rule: rev_induct) auto

lemma point_holders:
  assumes "distinct (map ni_id ns)" "a \<in> set ns" "b \<in> set ns" "a \<noteq> b" "h \<in> points a" "h \<in> points b"
  obtains c d where "c \<in> set ns" "d \<in> set ns" "c \<noteq> d"
    "\<And>x. x \<in> set ns \<Longrightarrow> find (\<lambda>n. h \<in> points n) (rev (x # filter (\<lambda>n. ni_id n \<noteq> ni_id x) ns)) = Some (if x = c then d else c)"
proof -
  let ?P = "\<lambda>n. h \<in> points n"
  have ab: "a \<in> set (filter ?P ns)" "b \<in> set (filter ?P ns)" using assms by simp_all
  obtain T d c where S: "filter ?P ns = T @ [d, c]"
  proof (cases "filter ?P ns" rule: rev_cases)
    case Nil
    with ab show thesis by simp
  next
    case (snoc U c)
    with ab assms(4) that show thesis by (cases U rule: rev_cases) auto
  qed
  have mem: "c \<in> set ns" "d \<in> set ns" using S by (metis filter_is_subset in_set_conv_decomp subsetD append_Cons append_assoc append_Nil)+
  have dist: "distinct (map ni_id (T @ [d, c]))" using distinct_map_filter [OF assms(1), of ?P] unfolding S .
  have F: "filter ?P (x # filter (\<lambda>n. ni_id n \<noteq> ni_id x) ns) = (if ?P x then [x] else []) @ filter (\<lambda>n. ni_id n \<noteq> ni_id x) (T @ [d, c])" for x
    unfolding S [symmetric] by (simp add: conj_commute)
  have T: "filter (\<lambda>n. ni_id n \<noteq> ni_id c) T = T" using dist by (auto simp: filter_id_conv image_iff)
  have L: "filter (\<lambda>n. ni_id n \<noteq> ni_id x) (T @ [d, c]) \<noteq> [] \<and> last (filter (\<lambda>n. ni_id n \<noteq> ni_id x) (T @ [d, c])) = (if x = c then d else c)"
    if "x \<in> set ns" for x
  proof (cases "x = c")
    case True
    with T dist show ?thesis by simp
  next
    case False
    with assms(1) that mem(1) have "ni_id c \<noteq> ni_id x" by (auto simp: distinct_map dest: inj_onD)
    with False show ?thesis by simp
  qed
  have "find ?P (rev (x # filter (\<lambda>n. ni_id n \<noteq> ni_id x) ns)) = Some (if x = c then d else c)" if "x \<in> set ns" for x
    using L [OF that] unfolding find_rev F by (simp only: append_is_Nil_conv if_False last_append simp_thms)
  with mem dist show thesis by (intro that [of c d]) auto
qed

text \<open>C24: a key at a point of the ring that two nodes share is served by no node. In a cluster whose nodes
  are numbered 1, 2, and so on, and each started with the addresses of the others, let two nodes
  have a virtual node at the hash of the key. Then there are two different nodes \<open>c\<close> and \<open>d\<close> such
  that \<open>c\<close> takes \<open>d\<close> for the owner and every other node, \<open>d\<close> included, takes \<open>c\<close> for the owner: each
  node adds itself first, and the one that is added last takes the point. So as
  long as the nodes have the rings that they started with, every request for the key is forwarded
  at every node, and \<open>c\<close> and \<open>d\<close> send it to each other.\<close>

theorem shared_point_loop:
  assumes "map ni_id ns = [1..int (length ns)]" "int32 (int (length ns))"
    and "\<And>n. n \<in> set ns \<Longrightarrow> int32 (ni_port n) \<and> ni_alive n \<and> CHR '','' \<notin> set (ni_host n)"
    and "a \<in> set ns" "b \<in> set ns" "ni_id a \<noteq> ni_id b" "i < VIRTUAL_NODES" "j < VIRTUAL_NODES"
    and "vnode_hash (ni_id a) (int i) = vnode_hash (ni_id b) (int j)" "murmur3 (m_key msg) = vnode_hash (ni_id a) (int i)"
    and "m_type msg \<in> {PUT, GET, DEL}"
  shows "\<exists>c \<in> set ns. \<exists>d \<in> set ns. c \<noteq> d \<and> (\<forall>x \<in> set ns. \<exists>cfg owner. parse_args (cluster_args prog ns x) = Inr cfg \<and>
    owner = (if x = c then d else c) \<and> owner \<noteq> x \<and> get_primary (m_key msg) (node_ring cfg) = Some owner \<and>
    (\<forall>en (s :: 'z coord_scheme). co_my_id s = ni_id x \<longrightarrow> co_ring s = node_ring cfg \<longrightarrow> handle en msg s = forward_to en owner msg s))"
proof -
  let ?h = "murmur3 (m_key msg)"
  have h: "?h \<in> points a" "?h \<in> points b" "a \<noteq> b"
    unfolding points_def using assms(6-10) by (auto intro: image_eqI [of _ _ i] image_eqI [of _ _ j])
  have dist: "distinct (map ni_id ns)" by (simp add: assms(1))
  obtain c d where cd: "c \<in> set ns" "d \<in> set ns" "c \<noteq> d"
    "\<And>x. x \<in> set ns \<Longrightarrow> find (\<lambda>n. ?h \<in> points n) (rev (x # filter (\<lambda>n. ni_id n \<noteq> ni_id x) ns)) = Some (if x = c then d else c)"
    using point_holders [OF dist assms(4,5) h(3,1,2)] by metis
  have "\<exists>cfg owner. parse_args (cluster_args prog ns x) = Inr cfg \<and> owner = (if x = c then d else c) \<and> owner \<noteq> x \<and>
      get_primary (m_key msg) (node_ring cfg) = Some owner \<and>
      (\<forall>en (s :: 'z coord_scheme). co_my_id s = ni_id x \<longrightarrow> co_ring s = node_ring cfg \<longrightarrow> handle en msg s = forward_to en owner msg s)"
    if x: "x \<in> set ns" for x
  proof -
    define owner where "owner = (if x = c then d else c)"
    have o: "owner \<in> set ns" "owner \<noteq> x" using cd(1-3) by (auto simp: owner_def)
    then have id: "ni_id owner \<noteq> ni_id x" using x cluster_inj [OF assms(1)] by (auto dest: inj_onD)
    obtain cfg where cfg: "parse_args (cluster_args prog ns x) = Inr cfg" "self_info cfg = x"
      "cfg_peers cfg = filter (\<lambda>n. ni_id n \<noteq> ni_id x) ns"
      using cluster_parse [OF assms(1,2) x assms(3)] by blast
    have "map_of (hr_ring (node_ring cfg)) ?h = Some owner"
      unfolding node_ring_nodes add_nodes_lookup all_nodes_def cfg(2,3) cd(4) [OF x] by (simp add: owner_def)
    then have p: "get_primary (m_key msg) (node_ring cfg) = Some owner"
      using assms(3) [OF o(1)] by (intro primary_at_point) (simp_all add: node_ring_nodes add_nodes_inv)
    have "handle en msg s = forward_to en owner msg s"
      if "co_my_id s = ni_id x" "co_ring s = node_ring cfg" for en and s :: "'z coord_scheme"
      using assms(11) p id that
      by (auto simp: handle_requests handle_put_def handle_get_def handle_delete_def route_cases(3))
    with cfg(1) p o(2) show ?thesis unfolding owner_def by blast
  qed
  with cd(1-3) show ?thesis by blast
qed

text \<open>A cluster of 675 nodes: the points 90 of node 284 and 139 of node 675 have the same hash.\<close>

lemma shared_point: "vnode_hash 284 90 = vnode_hash 675 139"
  by code_simp

definition large_cluster :: "NodeInfo list" where
  "large_cluster = map ring_node [1..675]"

lemma ring_cluster:
  assumes "0 \<le> k" "k < 1000000"
  shows "map ni_id (map ring_node [1..k]) = [1..int (length (map ring_node [1..k]))]" "int32 (int (length (map ring_node [1..k])))"
    "n \<in> set (map ring_node [1..k]) \<Longrightarrow> int32 (ni_port n) \<and> ni_alive n \<and> CHR '','' \<notin> set (ni_host n)"
    "1 \<le> i \<Longrightarrow> i \<le> k \<Longrightarrow> ring_node i \<in> set (map ring_node [1..k])"
  using assms by (auto simp: ring_node_def comp_def int_range_def)

theorem shared_point_loop_witness:
  "\<exists>cfg p cfg' p'. parse_args (cluster_args ''node'' large_cluster (ring_node 284)) = Inr cfg \<and> p \<noteq> ring_node 284 \<and>
     handle (demo_env []) (Message0\<lparr>m_type := PUT, m_key := vnode_label 284 90\<rparr>) ((demo_member 284)\<lparr>co_ring := node_ring cfg\<rparr>) =
       forward_to (demo_env []) p (Message0\<lparr>m_type := PUT, m_key := vnode_label 284 90\<rparr>) ((demo_member 284)\<lparr>co_ring := node_ring cfg\<rparr>) \<and>
     parse_args (cluster_args ''node'' large_cluster (ring_node 675)) = Inr cfg' \<and> p' \<noteq> ring_node 675 \<and>
     handle (demo_env []) (Message0\<lparr>m_type := PUT, m_key := vnode_label 284 90\<rparr>) ((demo_member 675)\<lparr>co_ring := node_ring cfg'\<rparr>) =
       forward_to (demo_env []) p' (Message0\<lparr>m_type := PUT, m_key := vnode_label 284 90\<rparr>) ((demo_member 675)\<lparr>co_ring := node_ring cfg'\<rparr>)"
proof -
  let ?msg = "Message0\<lparr>m_type := PUT, m_key := vnode_label 284 90\<rparr>"
  note C = ring_cluster [of 675, folded large_cluster_def, simplified]
  have m: "ring_node 284 \<in> set large_cluster" "ring_node 675 \<in> set large_cluster" by (simp_all add: C(4))
  have h: "ni_id (ring_node 284) \<noteq> ni_id (ring_node 675)"
    "(90 :: nat) < VIRTUAL_NODES" "(139 :: nat) < VIRTUAL_NODES"
    "vnode_hash (ni_id (ring_node 284)) (int 90) = vnode_hash (ni_id (ring_node 675)) (int 139)"
    "murmur3 (m_key ?msg) = vnode_hash (ni_id (ring_node 284)) (int 90)" "m_type ?msg \<in> {PUT, GET, DEL}"
    using shared_point by (simp_all add: VIRTUAL_NODES_def ring_node_def vnode_hash_def)
  obtain c d where "\<forall>x \<in> set large_cluster. \<exists>cfg owner. parse_args (cluster_args ''node'' large_cluster x) = Inr cfg \<and>
      owner = (if x = c then d else c) \<and> owner \<noteq> x \<and> get_primary (m_key ?msg) (node_ring cfg) = Some owner \<and>
      (\<forall>en (s :: coord). co_my_id s = ni_id x \<longrightarrow> co_ring s = node_ring cfg \<longrightarrow> handle en ?msg s = forward_to en owner ?msg s)"
    using shared_point_loop [OF C(1-3) m h, of "''node''"] by blast
  from this [rule_format, OF m(1)] this [rule_format, OF m(2)] obtain cfg p cfg' p' where W:
    "parse_args (cluster_args ''node'' large_cluster (ring_node 284)) = Inr cfg" "p \<noteq> ring_node 284"
    "\<And>en (s :: coord). co_my_id s = ni_id (ring_node 284) \<Longrightarrow> co_ring s = node_ring cfg \<Longrightarrow> handle en ?msg s = forward_to en p ?msg s"
    "parse_args (cluster_args ''node'' large_cluster (ring_node 675)) = Inr cfg'" "p' \<noteq> ring_node 675"
    "\<And>en (s :: coord). co_my_id s = ni_id (ring_node 675) \<Longrightarrow> co_ring s = node_ring cfg' \<Longrightarrow> handle en ?msg s = forward_to en p' ?msg s"
    by blast
  have "co_my_id ((demo_member i)\<lparr>co_ring := r\<rparr>) = ni_id (ring_node i)" "co_ring ((demo_member i)\<lparr>co_ring := r\<rparr>) = r" for i r
    by (simp_all add: ring_node_def)
  from W(1,2,4,5) W(3) [OF this] W(6) [OF this] show ?thesis by blast
qed

end
