(* ===== verification/Node_Safety.thy ===== *)
theory Node_Safety
  imports Node_Main Wal_Recovery
begin

text \<open>
  The invariant of a running node over every sequence of its steps: received messages, threads,
  and turns of the failure detector, in any order. It joins the invariants of the ring, the
  failure detector, the election, the storage and the messages that wait to be sent. The lemmas
  go up from the effects, through the handlers, to the steps; the last ones show that no
  exception leaves a thread of the node, which would end the process.
\<close>

section \<open>The invariant\<close>

fun task_ok :: "task \<Rightarrow> bool" where
  "task_ok (Task_send_and_forget host port msg) = texts_utf8 msg"
| "task_ok _ = True"

text \<open>The sockets of the connections that wait for their thread, and the tasks that a handler may add.\<close>

fun conn_fd :: "task \<Rightarrow> int list" where
  "conn_fd (Task_handle_connection fd) = [fd]"
| "conn_fd _ = []"

definition conns :: "task list \<Rightarrow> int list" where
  "conns ts = concat (map conn_fd ts)"

definition spawn_ok :: "task \<Rightarrow> bool" where
  "spawn_ok t \<longleftrightarrow> task_ok t \<and> conn_fd t = []"

lemma conns_simps [simp]: "conns [] = []" "conns (t # ts) = conn_fd t @ conns ts" "conns (ts @ us) = conns ts @ conns us"
  by (simp_all add: conns_def)

lemma conns_spawned: "(\<And>t. t \<in> set ts \<Longrightarrow> spawn_ok t) \<Longrightarrow> conns ts = []"
  by (auto simp: conns_def spawn_ok_def)

text \<open>Everything but the ring and the failure detector.\<close>

definition rest_inv :: "coord \<Rightarrow> bool" where
  "rest_inv s \<longleftrightarrow> election_inv s \<and> store_inv (rm_storage s) \<and> rm_my_id s = co_my_id s \<and> le_my_id s = co_my_id s \<and>
     (\<forall>t \<in> set (sys_tasks s). task_ok t)"

definition node_inv :: "coord \<Rightarrow> bool" where
  "node_inv s \<longleftrightarrow> view_inv s \<and> rest_inv s"

text \<open>Operations that keep the rest, and those that moreover leave the ring and the detector alone.\<close>

definition keeps_rest :: "coord \<Rightarrow> coord \<Rightarrow> bool" where
  "keeps_rest s s' \<longleftrightarrow> (rest_inv s \<longrightarrow> rest_inv s') \<and>
     sys_open s' = sys_open s \<and> conns (sys_tasks s') = conns (sys_tasks s)"

definition keeps_node :: "coord \<Rightarrow> coord \<Rightarrow> bool" where
  "keeps_node s s' \<longleftrightarrow> keeps_rest s s' \<and> election.more s' = election.more s"

interpretation rest: io_frame keeps_rest
  by unfold_locales (auto simp: keeps_rest_def)

interpretation node: io_frame keeps_node
  by unfold_locales (auto simp: keeps_node_def keeps_rest_def)

lemma keeps_node_rest: "io_keeps keeps_node m \<Longrightarrow> io_keeps keeps_rest m"
  by (auto simp: io_keeps_def keeps_node_def)

lemma keeps_node_inv:
  assumes "io_keeps keeps_node m" "node_inv s" "m s = Some (r, s')"
  shows "node_inv s'"
proof -
  have k: "rest_inv s'" "election.more s' = election.more s"
    using io_keepsD [OF assms(1,3)] assms(2) by (auto simp: keeps_node_def keeps_rest_def node_inv_def)
  have "view_inv s'"
    using coord_more [OF k(2)] assms(2) heartbeat_inv_same [of s s']
    by (auto simp: node_inv_def view_inv_def detector_agrees_def same_heartbeat_def)
  with k(1) show ?thesis by (simp add: node_inv_def)
qed

section \<open>Effects\<close>

lemma node_talks: "only_talks s s' \<Longrightarrow> keeps_node s s'"
  by (cases s; cases s')
    (simp add: keeps_node_def keeps_rest_def rest_inv_def election_inv_def only_talks_def same_more_def)

lemma talks_keep: "io_keeps only_talks m \<Longrightarrow> io_keeps keeps_node m"
  by (auto simp: io_keeps_def node_talks)

lemma store_inv_ops:
  assumes "store_inv e"
  shows "store_inv (put ts k v e)" "store_inv (fst (del ts k e))" "store_inv (put_batch tms ps e)"
  using store_inv_exec [OF assms, of "OpPut ts k v"] store_inv_exec [OF assms, of "OpDel ts k"]
    store_inv_exec [OF assms, of "OpBatch tms ps"]
  by simp_all

lemma node_effects:
  "io_keeps keeps_node (sys_call f)" "io_keeps keeps_node (now_ms en)" "io_keeps keeps_node (io_log lvl txt)"
  "spawn_ok t \<Longrightarrow> io_keeps keeps_node (spawn t)"
  "io_keeps keeps_node (io_put en k v)" "io_keeps keeps_node (io_get k)" "io_keeps keeps_node (io_del en k)"
  "io_keeps keeps_node (io_put_batch en ps)"
  by (auto simp: io_keeps_def keeps_node_def keeps_rest_def rest_inv_def election_inv_def now_ms_def io_store_state
      io_put_batch_def store_inv_ops spawn_ok_def)

lemma node_send: "io_keeps keeps_node (io_send en fd data)"
  by (auto simp: io_send_def io_keeps_def only_talks_def dest!: send_loop_frame intro!: node_talks split: prod.splits)

lemma node_recv: "io_keeps keeps_node (io_recv en fd)"
  by (auto simp: io_recv_def io_keeps_def only_talks_def same_more_def dest!: recv_loop_frame intro!: node_talks split: option.splits)

lemma utf8_ops [simp]: "utf8_valid ''PUT''" "utf8_valid ''DEL''"
  by (simp_all add: utf8_valid_def utf8_ranges_def)

lemma node_replicate:
  assumes "utf8_valid key" "utf8_valid val"
  shows "io_keeps keeps_node (replicate_to en key val oper rs)"
proof -
  have ok: "spawn_ok t" if "t \<in> set (replicate_tasks i (replicate_msg j now key val oper) rs)" for t i j now
    using that assms by (auto simp: replicate_tasks_def replicate_msg_def texts_utf8_def spawn_ok_def)
  with conns_spawned show ?thesis
    by (auto simp: io_keeps_def replicate_to_state keeps_node_def keeps_rest_def rest_inv_def election_inv_def spawn_ok_def)
qed

section \<open>Elections\<close>

lemma trigger_tasks:
  assumes "trigger_election en announce_leader s = Some (r, s')"
  shows "\<exists>ts. sys_tasks s' = sys_tasks s @ ts \<and> (\<forall>t \<in> set ts. spawn_ok t)"
proof (cases "le_running s \<and> \<not> le_in_progress s")
  case True
  with announce.trigger_result(11) [OF _ _ assms] show ?thesis
    by (auto simp: replicate_tasks_def spawn_ok_def)
next
  case False
  with announce.trigger_idle [of s en] assms show ?thesis by auto
qed

lemma node_trigger: "io_keeps keeps_node (trigger_election en announce_leader)"
  unfolding io_keeps_def
proof (intro allI impI)
  fix s s' :: coord and r assume t: "trigger_election en announce_leader s = Some (r, s')"
  note F = announce.trigger_frame [OF t]
  obtain ts where "sys_tasks s' = sys_tasks s @ ts" "\<And>t. t \<in> set ts \<Longrightarrow> spawn_ok t"
    using trigger_tasks [OF t] by blast
  with F coord_more [OF F(2)] announce.trigger_inv [OF _ t] conns_spawned show "keeps_node s s'"
    by (auto simp: keeps_node_def keeps_rest_def rest_inv_def spawn_ok_def)
qed

lemma node_timeout: "io_keeps keeps_node (election_timeout en announce_leader tm)"
  unfolding election_timeout_def
  by (intro node.keeps_rules node.keeps_pure node_trigger)
    (simp add: keeps_node_def keeps_rest_def rest_inv_def election_inv_def)

lemma node_message:
  assumes "int32 (m_term msg)"
  shows "io_keeps keeps_node (handle_message announce_leader msg)"
  unfolding io_keeps_def
proof (intro allI impI)
  fix s s' :: coord and r assume h: "handle_message announce_leader msg s = Some (r, s')"
  note F = announce.message_frame [OF h]
  from F coord_more [of s' s] announce.message_inv [OF _ assms h] show "keeps_node s s'"
    by (auto simp: keeps_node_def keeps_rest_def rest_inv_def)
qed

section \<open>The handler\<close>

text \<open>What can be read from a line: a message of no known type, or a good one.\<close>

definition wire_msg :: "Message \<Rightarrow> bool" where
  "wire_msg msg \<longleftrightarrow> m_type msg \<noteq> UNKNOWN \<longrightarrow> message_ok msg"

lemma wire_msg_line: "wire_msg (deserialize_message line)"
  using deserialize_ok by (auto simp: wire_msg_def)

lemma wire_msgD: "wire_msg msg \<Longrightarrow> m_type msg \<noteq> UNKNOWN \<Longrightarrow> texts_utf8 msg" "wire_msg msg \<Longrightarrow> m_type msg \<noteq> UNKNOWN \<Longrightarrow> int32 (m_term msg)"
  "wire_msg msg \<Longrightarrow> m_type msg \<noteq> UNKNOWN \<Longrightarrow> utf8_valid (m_key msg)" "wire_msg msg \<Longrightarrow> m_type msg \<noteq> UNKNOWN \<Longrightarrow> utf8_valid (m_value msg)"
  by (auto simp: wire_msg_def message_ok_def texts_utf8_def)

lemmas node_rules = node.keeps_rules node.keeps_pure node_effects

lemma node_route:
  assumes "texts_utf8 msg" "\<And>i. io_keeps keeps_node (f i)"
  shows "io_keeps keeps_node (route en msg f)"
  unfolding route_def by (intro node_rules assms talks_keep forward_talks)

lemma node_requests:
  assumes "wire_msg msg" "m_type msg \<noteq> UNKNOWN"
  shows "io_keeps keeps_node (handle_put en msg)" "io_keeps keeps_node (handle_get en msg)" "io_keeps keeps_node (handle_delete en msg)"
proof -
  have u: "texts_utf8 msg" "utf8_valid (m_key msg)" "utf8_valid (m_value msg)" using wire_msgD [OF assms] by blast+
  have r: "io_keeps keeps_node (replicate_key en (m_key msg) v oper)" if "utf8_valid v" for v oper
    unfolding replicate_key_def by (intro node_rules node_replicate u that)
  show "io_keeps keeps_node (handle_put en msg)" "io_keeps keeps_node (handle_get en msg)" "io_keeps keeps_node (handle_delete en msg)"
    unfolding handle_put_def handle_get_def handle_delete_def
    by (intro node_route node_rules r u utf8_valid_Nil)+
qed

lemma node_handle:
  assumes "wire_msg msg"
  shows "io_keeps keeps_node (handle en msg)"
proof -
  have m: "m_type msg \<noteq> UNKNOWN \<Longrightarrow> io_keeps keeps_node (handle_message announce_leader msg)"
    using node_message wire_msgD(2) [OF assms] by blast
  have rep: "io_keeps keeps_node (handle_replicate en msg)" "io_keeps keeps_node (handle_sync_request en msg)"
    "io_keeps keeps_node (handle_sync_data en msg)"
    unfolding handle_replicate_def handle_sync_request_def handle_sync_data_def by (intro node_rules)+
  show ?thesis
    unfolding handle_def using node_requests [OF assms, of en] m rep
    by (cases "m_type msg") (simp_all only: MsgType.case MsgType.distinct not_False_eq_True simp_thms,
      (intro node_rules; simp)+)
qed

section \<open>The failure detector\<close>

lemma rest_tables:
  "io_keeps keeps_rest (io_modify (\<lambda>s. s\<lparr>hb_last_seen := f s\<rparr>))" "io_keeps keeps_rest (set_known i b)" "io_keeps keeps_rest (set_status i b)"
  by (auto simp: io_keeps_def set_known_def set_status_def keeps_rest_def rest_inv_def election_inv_def)

lemmas rest_rules = rest.keeps_rules rest.keeps_pure rest_tables keeps_node_rest [OF node_trigger]
  node_effects [THEN keeps_node_rest]

lemma rest_callbacks: "io_keeps keeps_rest (on_node_failure en i)" "io_keeps keeps_rest (on_node_recovery i)"
  unfolding on_node_failure_def on_node_recovery_def by (intro rest_rules)+

lemma rest_mark_alive: "io_keeps keeps_rest (mark_alive en (Some on_node_recovery) i)"
  unfolding mark_alive_def run_callback_def option.case by (intro rest_rules rest_callbacks)

lemma rest_monitor: "io_keeps keeps_rest (monitor_turn en (Some (on_node_failure en)))"
proof -
  have "io_keeps keeps_rest (monitor_node (Some (on_node_failure en)) now e)" for now e
    unfolding monitor_node_def run_callback_def option.case
    by (cases e) (simp only: prod.case, intro rest_rules rest_callbacks)
  then show ?thesis unfolding monitor_turn_def by (intro rest_rules)
qed

lemma node_mark_alive:
  assumes "node_inv s" "mark_alive en (Some on_node_recovery) i s = Some (r, s')"
  shows "r = Inr ()" "node_inv s'"
  using mark_alive_agrees [OF _ assms(2)] io_keepsD [OF rest_mark_alive assms(2)] assms(1)
  by (auto simp: node_inv_def keeps_rest_def)

lemma node_monitor:
  assumes "node_inv s" "walk_ok (env_walk_seen en)" "monitor_turn en (Some (on_node_failure en)) s = Some (r, s')"
  shows "r = Inr ()" "node_inv s'"
  using monitor_agrees [OF _ assms(2,3)] io_keepsD [OF rest_monitor assms(3)] assms(1)
  by (auto simp: node_inv_def keeps_rest_def)

lemma node_sender: "io_keeps keeps_node (sender_turn en)"
  unfolding sender_turn_def by (intro node_rules) (simp add: heartbeat_msg_def texts_utf8_def spawn_ok_def)

section \<open>The threads\<close>

text \<open>The invariant over one operation, as a frame.\<close>

definition keeps_inv :: "coord \<Rightarrow> coord \<Rightarrow> bool" where
  "keeps_inv s s' \<longleftrightarrow> (node_inv s \<longrightarrow> node_inv s') \<and> sys_open s' = sys_open s \<and> conns (sys_tasks s') = conns (sys_tasks s)"

interpretation inv: io_frame keeps_inv
  by unfold_locales (auto simp: keeps_inv_def)

lemma node_keeps_inv: "io_keeps keeps_node m \<Longrightarrow> io_keeps keeps_inv m"
  unfolding io_keeps_def [of keeps_inv] keeps_inv_def
  using keeps_node_inv by (fastforce dest: io_keepsD simp: keeps_node_def keeps_rest_def)

lemma inv_handler: "wire_msg msg \<Longrightarrow> io_keeps keeps_inv (node_handler en msg)"
  unfolding node_handler_def
  by (intro inv.keeps_then node_keeps_inv [OF node_handle])
    (auto simp: io_keeps_def keeps_inv_def dest: node_mark_alive io_keepsD [OF rest_mark_alive, unfolded keeps_rest_def])

text \<open>A connection closes its socket.\<close>

lemma inv_connection:
  assumes "handle_connection en (Some (node_handler en)) fd s = Some (r, s')"
  shows "r = Inr ()" "node_inv s \<Longrightarrow> node_inv s'" "sys_open s' = remove1 fd (sys_open s)" "conns (sys_tasks s') = conns (sys_tasks s)"
proof -
  let ?body = "io_catch (io_bind (recv_line en fd) (\<lambda>line. if line = [] then io_return ()
      else io_bind (node_handler en (deserialize_message line)) (\<lambda>resp.
        io_bind (io_sum (serialize_message (env_float en) resp)) (send_all en fd))))
    (\<lambda>e. io_log ERR (''Connection handler error: '' @ what e))"
  have k: "io_keeps keeps_inv ?body"
    unfolding recv_line_def send_all_def
    by (intro inv.keeps_rules inv.keeps_pure inv_handler wire_msg_line node_effects [THEN node_keeps_inv]
        node_send [THEN node_keeps_inv] node_recv [THEN node_keeps_inv])
  have safe: "io_safe ?body" by (intro safe_catch safe_sys)
  have eq: "handle_connection en (Some (node_handler en)) fd = io_then ?body (close_sock fd)"
    by (simp add: handle_connection_def)
  obtain t where t: "?body s = Some (Inr (), t)" "close_sock fd t = Some (r, s')"
    by (rule safe_thenE [OF safe assms [unfolded eq]]) auto
  then have s': "r = Inr ()" "s' = t\<lparr>sys_open := remove1 fd (sys_open t)\<rparr>" by auto
  have "node_inv s' = node_inv t"
    by (simp add: s' node_inv_def view_inv_def heartbeat_inv_def detector_agrees_def rest_inv_def election_inv_def)
  with io_keepsD [OF k t(1)] s' show "r = Inr ()" "node_inv s \<Longrightarrow> node_inv s'"
    "sys_open s' = remove1 fd (sys_open s)" "conns (sys_tasks s') = conns (sys_tasks s)"
    by (auto simp: keeps_inv_def)
qed

lemma node_sync: "io_keeps keeps_node (initial_sync en peers)"
proof -
  have d: "io_keeps keeps_node (handle_sync_data en m)" for m
    unfolding handle_sync_data_def by (intro node_rules)
  have u: "texts_utf8 (Message0\<lparr>m_type := SYNC_REQUEST, m_node_id := i\<rparr>)" for i by (simp add: texts_utf8_def)
  have "io_keeps keeps_node (sync_from_peer en p)" for p
    unfolding sync_from_peer_def
    by (intro node.keeps_then keeps_gets node.keeps_bind talks_keep [OF talk_send] u keeps_option keeps_if node_effects d)
  then show ?thesis
    unfolding initial_sync_def by (cases peers) (simp_all only: list.case, (intro node_rules; blast)+)
qed

lemma talks_and_forgets:
  assumes "texts_utf8 msg"
  shows "io_keeps only_talks (send_and_forget en host port msg)" "io_safe (send_and_forget en host port msg)"
proof -
  have "only_talks s s' \<and> (\<exists>a. r = Inr a)" if "send_and_forget en host port msg s = Some (r, s')" for s s' :: "'z sys_scheme" and r
  proof -
    obtain q t where "send_and_forget en host port msg s = Some (q, t)" "client_exit msg s q t"
      using send_and_forget_exit by blast
    with that assms show ?thesis by (auto simp: client_exit_def only_talks_def split: sum.splits)
  qed
  then show "io_keeps only_talks (send_and_forget en host port msg)" "io_safe (send_and_forget en host port msg)"
    by (auto simp: io_keeps_def io_safe_def)
qed

lemma inv_task:
  assumes "task_ok t" "run_task en t s = Some (r, s')"
  shows "node_inv s \<Longrightarrow> node_inv s'" "sys_open s' = foldr remove1 (conn_fd t) (sys_open s)" "conns (sys_tasks s') = conns (sys_tasks s)"
proof -
  have "(node_inv s \<longrightarrow> node_inv s') \<and> sys_open s' = foldr remove1 (conn_fd t) (sys_open s) \<and> conns (sys_tasks s') = conns (sys_tasks s)"
  proof (cases "\<exists>fd. t = Task_handle_connection fd")
    case True
    with inv_connection [of en _ s r s'] assms(2) show ?thesis by (auto simp: run_task_def)
  next
    case False
    then have "io_keeps keeps_inv (run_task en t)"
      using assms(1) by (cases t) (simp_all add: run_task_def node_keeps_inv node_trigger node_timeout node_sync talks_keep talks_and_forgets)
    from io_keepsD [OF this assms(2)] False show ?thesis by (cases t) (auto simp: keeps_inv_def)
  qed
  then show "node_inv s \<Longrightarrow> node_inv s'" "sys_open s' = foldr remove1 (conn_fd t) (sys_open s)" "conns (sys_tasks s') = conns (sys_tasks s)"
    by simp_all
qed

section \<open>The invariant holds\<close>

lemma node_inv_taskD: "node_inv s \<Longrightarrow> t \<in> set (sys_tasks s) \<Longrightarrow> task_ok t"
  by (auto simp: node_inv_def rest_inv_def)

lemma node_inv_upd:
  assumes "node_inv s" "\<And>t. t \<in> set ts \<Longrightarrow> task_ok t"
  shows "node_inv (s\<lparr>sys_tasks := ts\<rparr>)" "node_inv (s\<lparr>sys_open := fds, sys_tasks := ts\<rparr>)"
  using assms
  by (simp_all add: node_inv_def view_inv_def heartbeat_inv_def detector_agrees_def rest_inv_def election_inv_def)

text \<open>The open sockets are those that were open at first and those of the waiting connections.\<close>

definition sockets_inv :: "int list \<Rightarrow> coord \<Rightarrow> bool" where
  "sockets_inv fds s \<longleftrightarrow> mset (sys_open s) = mset fds + mset (conns (sys_tasks s))"

lemma step_inv:
  assumes "node_step en s s'" "walk_ok (env_walk_seen en)" "node_inv s"
  shows "node_inv s'" "sockets_inv fds s \<Longrightarrow> sockets_inv fds s'"
proof -
  have "node_inv s' \<and> (sockets_inv fds s \<longrightarrow> sockets_inv fds s')"
    using assms(1)
  proof cases
    case (step_accept fd)
    have "node_inv s'"
      unfolding step_accept by (rule node_inv_upd(2) [OF assms(3)]) (auto dest: node_inv_taskD [OF assms(3)])
    then show ?thesis by (simp add: sockets_inv_def step_accept)
  next
    case (step_task ts t us r)
    let ?s = "s\<lparr>sys_tasks := ts @ us\<rparr>"
    have t: "task_ok t" "node_inv ?s"
      using node_inv_taskD [OF assms(3)] step_task(1) by (auto intro!: node_inv_upd(1) [OF assms(3)])
    have "mset (sys_open s) - mset (conn_fd t) = mset (foldr remove1 (conn_fd t) (sys_open s))"
      by (cases t) simp_all
    with inv_task [OF t(1) step_task(2)] t(2) step_task(1) show ?thesis
      by (auto simp: sockets_inv_def)
  next
    case (step_monitor r)
    with node_monitor [OF assms(3,2)] io_keepsD [OF rest_monitor step_monitor] show ?thesis
      by (auto simp: keeps_rest_def sockets_inv_def)
  next
    case (step_sender r)
    with keeps_node_inv [OF node_sender assms(3)] io_keepsD [OF node_sender step_sender] show ?thesis
      by (auto simp: keeps_node_def keeps_rest_def sockets_inv_def)
  qed
  then show "node_inv s'" "sockets_inv fds s \<Longrightarrow> sockets_inv fds s'" by simp_all
qed

lemma reaches_inv:
  assumes "node_reaches en s s'" "walk_ok (env_walk_seen en)" "node_inv s"
  shows "node_inv s'" "sockets_inv fds s \<Longrightarrow> sockets_inv fds s'"
proof -
  have "node_inv s' \<and> (sockets_inv fds s \<longrightarrow> sockets_inv fds s')"
    using assms unfolding node_reaches_def
    by (induction rule: rtranclp_induct) (auto intro: step_inv)
  then show "node_inv s'" "sockets_inv fds s \<Longrightarrow> sockets_inv fds s'" by simp_all
qed

section \<open>The first state\<close>

lemma parse_peers_alive: "parse_peers k q toks = Inr ps \<Longrightarrow> p \<in> set ps \<Longrightarrow> ni_alive p"
  by (induction k q toks arbitrary: ps rule: parse_peers.induct)
    (auto simp: Let_def sum_bind_Inr_conv parse_peer_def split: if_splits option.splits)

lemma parse_args_alive:
  assumes "parse_args argv = Inr cfg" "p \<in> set (cfg_peers cfg)"
  shows "ni_alive p"
proof -
  have "parse_args_loop c args = Inr d \<Longrightarrow> (\<And>p. p \<in> set (cfg_peers c) \<Longrightarrow> ni_alive p) \<Longrightarrow>
      p \<in> set (cfg_peers d) \<Longrightarrow> ni_alive p" for c d args
    by (induction c args rule: parse_args_loop.induct)
      (auto simp: sum_bind_Inr_conv dest: parse_peers_alive split: if_splits)
  with assms show ?thesis by (fastforce simp: parse_args_def Config0_def)
qed

lemma ring_of_nodes:
  assumes "ring_inv r" "\<And>n. n \<in> snd ` set (hr_ring r) \<Longrightarrow> ni_alive n" "\<And>n. n \<in> set ns \<Longrightarrow> ni_alive n"
  shows "ring_inv (foldl (\<lambda>r n. add_node n r) r ns)"
    "n \<in> snd ` set (hr_ring (foldl (\<lambda>r n. add_node n r) r ns)) \<Longrightarrow> ni_alive n"
proof -
  have "ring_inv (foldl (\<lambda>r n. add_node n r) r ns) \<and>
      (\<forall>n \<in> snd ` set (hr_ring (foldl (\<lambda>r n. add_node n r) r ns)). ni_alive n)"
    using assms
  proof (induction ns arbitrary: r)
    case (Cons m ns)
    have "ni_alive n" if n: "n \<in> snd ` set (hr_ring (add_node m r))" for n
    proof -
      obtain h where "(h, n) \<in> set (foldl (add_vnode m) (hr_ring r) [0..<VIRTUAL_NODES])"
        using n by (auto simp: add_node_def)
      from add_vnodes_entries [OF ring_invD(1) [OF Cons.prems(1)] this] have "n = m \<or> (h, n) \<in> set (hr_ring r)" by blast
      with Cons.prems(2,3) show ?thesis by (metis image_eqI list.set_intros(1) snd_conv)
    qed
    then have "ring_inv (foldl (\<lambda>r n. add_node n r) (add_node m r) ns) \<and>
        (\<forall>n \<in> snd ` set (hr_ring (foldl (\<lambda>r n. add_node n r) (add_node m r) ns)). ni_alive n)"
      by (rule Cons.IH [OF ring_inv_add [OF Cons.prems(1)]]) (auto intro: Cons.prems(3))
    then show ?case unfolding foldl_Cons .
  qed simp
  then show "ring_inv (foldl (\<lambda>r n. add_node n r) r ns)"
    "n \<in> snd ` set (hr_ring (foldl (\<lambda>r n. add_node n r) r ns)) \<Longrightarrow> ni_alive n" by blast+
qed

lemma init_fields:
  "co_ring (node_init en cfg disk a) = node_ring cfg" "co_my_id (node_init en cfg disk a) = cfg_node_id cfg"
  "rm_my_id (node_init en cfg disk a) = cfg_node_id cfg" "le_my_id (node_init en cfg disk a) = cfg_node_id cfg"
  "rm_storage (node_init en cfg disk a) = StorageEngine_ctor (node_wal cfg) disk a" "sys_tasks (node_init en cfg disk a) = []"
  "sys_open (node_init en cfg disk a) = []" "le_all_nodes (node_init en cfg disk a) = all_nodes cfg"
  "le_node_alive (node_init en cfg disk a) = foldl (\<lambda>m n. AList.update (ni_id n) True m) [] (all_nodes cfg)"
  "hb_known_alive (node_init en cfg disk a) = foldl (\<lambda>m p. AList.update (ni_id p) True m) [] (cfg_peers cfg)"
  "le_in_progress (node_init en cfg disk a) = False" "le_term (node_init en cfg disk a) = 0"
  by (simp_all add: node_init_def Let_def coordinator_init_def heartbeat.defs heartbeat_init_def election.defs
      election_init_def replica.defs tcp.defs tcp_init_def sys.defs sys0_def)

lemma all_true:
  "map_of (foldl (\<lambda>m n. AList.update (ni_id n) True m) m ns) i = (if i \<in> ni_id ` set ns then Some True else map_of m i)"
  by (induction ns arbitrary: m) (auto simp: update_conv')

lemma init_inv:
  assumes "\<And>p. p \<in> set (cfg_peers cfg) \<Longrightarrow> ni_alive p"
  shows "node_inv (node_init en cfg disk a)"
proof -
  have "hb_last_seen (coordinator_init i n ring s) = hb_last_seen s"
      "hb_known_alive (coordinator_init i n ring s) = hb_known_alive s" for i n ring s
    by (simp_all add: coordinator_init_def heartbeat.defs)
  then have "heartbeat_inv (coordinator_init i n ring s) = heartbeat_inv s" for i n ring s
    by (simp only: heartbeat_inv_def)
  then have hb: "heartbeat_inv (node_init en cfg disk a)"
    unfolding node_init_def Let_def by (simp only: heartbeat_init_inv)
  have al: "\<And>n. n \<in> set (all_nodes cfg) \<Longrightarrow> ni_alive n"
    using assms by (auto simp: all_nodes_def self_info_def)
  have none: "\<And>n. n \<in> snd ` set (hr_ring HashRing_init) \<Longrightarrow> ni_alive n" by (simp add: HashRing_init_def)
  have ring: "ring_inv (node_ring cfg)" "\<And>n. n \<in> snd ` set (hr_ring (node_ring cfg)) \<Longrightarrow> ni_alive n"
    unfolding node_ring_def using ring_of_nodes [OF ring_inv_init none al] by blast+
  have "detector_agrees (node_init en cfg disk a)"
    using ring(2) by (auto simp: detector_agrees_def init_fields all_true)
  with hb ring(1) show ?thesis
    by (simp add: node_inv_def view_inv_def rest_inv_def election_inv_def init_fields all_true store_inv_ctor int_range_def)
qed

lemma inv_start: "io_keeps keeps_inv (heartbeat_start)" "io_keeps keeps_inv (election_start)"
  by (auto simp: io_keeps_def heartbeat_start_def election_start_def keeps_inv_def node_inv_def view_inv_def
      heartbeat_inv_def detector_agrees_def rest_inv_def election_inv_def)

lemma start_result:
  assumes "node_start cfg s = Some (r, s')" "node_inv s" "sys_open s = []" "sys_tasks s = []"
  shows "r = Inr ()" "node_inv s'" "sockets_inv [] s'"
proof -
  have "io_keeps keeps_inv (node_start cfg)"
    unfolding node_start_def
    by (intro inv.keeps_rules inv.keeps_pure inv_start node_effects [THEN node_keeps_inv]) (simp add: spawn_ok_def)
  from io_keepsD [OF this assms(1)] assms(2-4) show "node_inv s'" "sockets_inv [] s'"
    by (simp_all add: keeps_inv_def sockets_inv_def)
  have "io_safe (node_start cfg)"
    unfolding node_start_def heartbeat_start_def election_start_def by (intro safe_rules safe_pure safe_sys)
  from io_safeD [OF this assms(1)] show "r = Inr ()" by auto
qed

text \<open>All that follows for a running node.\<close>

lemma running_inv:
  assumes "parse_args argv = Inr cfg" "node_start cfg (node_init en cfg disk a) = Some (r, s0)"
    and "walk_ok (env_walk_seen en)" "node_reaches en s0 s"
  shows "node_inv s" "sockets_inv [] s"
proof -
  have "node_inv (node_init en cfg disk a)" using init_inv parse_args_alive [OF assms(1)] by blast
  note S = start_result [OF assms(2) this init_fields(7,6)]
  show "node_inv s" "sockets_inv [] s"
    using reaches_inv(1) [OF assms(4,3) S(2)] reaches_inv(2) [OF assms(4,3) S(2) S(3)] by blast+
qed

lemma task_safe:
  assumes "node_inv s" "task_ok t" "run_task en t s = Some (r, s')"
  shows "r = Inr ()"
proof (cases t)
  case (Task_election_timeout tm)
  have "election_inv s" using assms(1) by (simp add: node_inv_def rest_inv_def)
  from announce.timeout_idle [OF this] assms(3) Task_election_timeout show ?thesis by (simp add: run_task_def)
next
  case (Task_sync peers)
  have u: "texts_utf8 (Message0\<lparr>m_type := SYNC_REQUEST, m_node_id := i\<rparr>)" for i by (simp add: texts_utf8_def)
  have b: "io_safe (io_put_batch en ps)" for ps by (simp add: io_put_batch_def)
  have "io_safe (initial_sync en peers)"
    unfolding initial_sync_def sync_from_peer_def handle_sync_data_def
    by (cases peers) (simp_all only: list.case, (intro safe_pure safe_then safe_gets safe_bind send_message_safe u safe_option safe_if safe_sys b)+)
  from io_safeD [OF this, of s r s'] assms(3) Task_sync show ?thesis by (auto simp: run_task_def)
next
  case (Task_send_and_forget host port msg)
  have "io_safe (run_task en t)"
    using assms(2) talks_and_forgets(2) by (simp add: run_task_def Task_send_and_forget)
  from io_safeD [OF this assms(3)] show ?thesis by auto
next
  case Task_trigger_election
  with assms(3) show ?thesis using announce.trigger_frame(1) [of en s r s'] by (simp add: run_task_def)
next
  case (Task_handle_connection fd)
  with assms(3) show ?thesis using inv_connection(1) [of en fd s r s'] by (simp add: run_task_def)
qed

section \<open>Properties\<close>

text \<open>The command line and the environment of the witnesses: a node without peers, and one step.\<close>

lemma demo_args: "parse_args [''node''] = Inr Config0"
  by (simp add: parse_args_def)

lemma demo_running:
  "\<exists>s0. node_start Config0 (node_init (demo_env []) Config0 None True) = Some (Inr (), s0) \<and>
     sys_tasks s0 = [Task_trigger_election] \<and> le_my_id s0 = 1 \<and> le_all_nodes s0 = [self_info Config0] \<and> le_running s0"
  by (simp add: node_start_def heartbeat_start_def election_start_def Config0_def init_fields all_nodes_def)

text \<open>C6: the invariant of a running node. In every state that a node reaches from its start, by messages,
  threads and turns of the failure detector in any order: the two containers of the ring agree
  and an entry is live exactly when the detector has not reported its node; the tables of the
  detector are about the same nodes; no election is marked as running and the term is a 32-bit
  number; the table of pairs has one value for each key; the services use one identifier; the
  messages that wait to be sent are UTF-8; and the open sockets, besides the listening one, are
  those of the connections that wait for their thread.\<close>

theorem node_invariant:
  assumes "parse_args argv = Inr cfg" "node_start cfg (node_init en cfg disk a) = Some (r, s0)"
    and "walk_ok (env_walk_seen en)" "node_reaches en s0 s"
  shows "ring_inv (co_ring s) \<and> detector_agrees s \<and> heartbeat_inv s \<and> election_inv s \<and> store_inv (rm_storage s) \<and>
    rm_my_id s = co_my_id s \<and> le_my_id s = co_my_id s \<and>
    (\<forall>host port m. Task_send_and_forget host port m \<in> set (sys_tasks s) \<longrightarrow> texts_utf8 m) \<and>
    mset (sys_open s) = mset (conns (sys_tasks s))"
proof -
  note R = running_inv [OF assms]
  have "\<forall>host port m. Task_send_and_forget host port m \<in> set (sys_tasks s) \<longrightarrow> texts_utf8 m"
    using node_inv_taskD [OF R(1)] task_ok.simps(1) by blast
  with R show ?thesis by (simp add: node_inv_def view_inv_def rest_inv_def sockets_inv_def)
qed

theorem node_invariant_witness:
  "\<exists>s0 s. node_start Config0 (node_init (demo_env []) Config0 None True) = Some (Inr (), s0) \<and>
     node_step (demo_env []) s0 s \<and> sys_tasks s = [Task_trigger_election, Task_handle_connection 7] \<and>
     sys_open s = [7] \<and> ring_inv (co_ring s) \<and> detector_agrees s"
proof -
  obtain s0 where s0: "node_start Config0 (node_init (demo_env []) Config0 None True) = Some (Inr (), s0)"
    "sys_tasks s0 = [Task_trigger_election]"
    using demo_running by blast
  let ?s = "s0\<lparr>sys_open := 7 # sys_open s0, sys_tasks := sys_tasks s0 @ [Task_handle_connection 7]\<rparr>"
  have st: "node_step (demo_env []) s0 ?s" by (rule step_accept)
  then have "node_reaches (demo_env []) s0 ?s" "node_reaches (demo_env []) s0 s0" by (auto simp: node_reaches_def)
  have w: "walk_ok (env_walk_seen (demo_env []))" by (simp add: demo_env_def)
  note I = node_invariant [OF demo_args s0(1) w]
  have "sys_open s0 = []" using I [OF \<open>node_reaches (demo_env []) s0 s0\<close>] s0(2) by simp
  with I [OF \<open>node_reaches (demo_env []) s0 ?s\<close>] s0 st show ?thesis
    by (intro exI [of _ s0] exI [of _ ?s]) simp
qed

text \<open>C7: no exception leaves a thread. In every state that a node reaches, each of its threads that
  returns, whichever message or answer it deals with, returns normally, and so do the turns of
  the failure detector: an exception there would end the process.\<close>

theorem threads_never_throw:
  assumes "parse_args argv = Inr cfg" "node_start cfg (node_init en cfg disk a) = Some (r, s0)"
    and "walk_ok (env_walk_seen en)" "node_reaches en s0 s"
  shows "(\<forall>ts t us q s'. sys_tasks s = ts @ t # us \<and> run_task en t (s\<lparr>sys_tasks := ts @ us\<rparr>) = Some (q, s') \<longrightarrow> q = Inr ()) \<and>
    (\<forall>q s'. monitor_turn en (Some (on_node_failure en)) s = Some (q, s') \<longrightarrow> q = Inr ()) \<and>
    (\<exists>s'. sender_turn en s = Some (Inr (), s'))"
proof (intro conjI allI impI; (elim conjE)?)
  note R = running_inv [OF assms]
  fix q s'
  show "q = Inr ()" if "sys_tasks s = ts @ t # us" "run_task en t (s\<lparr>sys_tasks := ts @ us\<rparr>) = Some (q, s')" for ts t us
    using task_safe [OF node_inv_upd(1) [OF R(1)] _ that(2)] node_inv_taskD [OF R(1)] that(1) by auto
  show "q = Inr ()" if "monitor_turn en (Some (on_node_failure en)) s = Some (q, s')"
    using node_monitor(1) [OF R(1) assms(3) that] .
  show "\<exists>s'. sender_turn en s = Some (Inr (), s')"
    by (simp add: sender_turn_def now_ms_def spawn_def io_for_modify)
qed

theorem threads_never_throw_witness:
  "\<exists>s0 s'. node_start Config0 (node_init (demo_env []) Config0 None True) = Some (Inr (), s0) \<and>
     run_task (demo_env []) Task_trigger_election (s0\<lparr>sys_tasks := []\<rparr>) = Some (Inr (), s')"
proof -
  obtain s0 where s0: "node_start Config0 (node_init (demo_env []) Config0 None True) = Some (Inr (), s0)"
    "sys_tasks s0 = [Task_trigger_election]" "le_my_id s0 = 1" "le_all_nodes s0 = [self_info Config0]" "le_running s0"
    using demo_running by blast
  have w: "walk_ok (env_walk_seen (demo_env []))" by (simp add: demo_env_def)
  have rf: "node_reaches (demo_env []) s0 s0" by (simp add: node_reaches_def)
  note T = threads_never_throw [OF demo_args s0(1) w rf]
  have "\<not> le_in_progress s0"
    using running_inv(1) [OF demo_args s0(1) w rf] by (simp add: node_inv_def rest_inv_def election_inv_def)
  then obtain q s' where q: "run_task (demo_env []) Task_trigger_election (s0\<lparr>sys_tasks := []\<rparr>) = Some (q, s')"
    using announce.trigger_top [of "s0\<lparr>sys_tasks := []\<rparr>" "demo_env []"] s0
    by (auto simp: run_task_def self_info_def Config0_def)
  moreover have "q = Inr ()"
  proof -
    have "sys_tasks s0 = [] @ Task_trigger_election # []" using s0(2) by simp
    with T q show ?thesis by (metis append_Nil)
  qed
  ultimately show ?thesis using s0(1) by blast
qed

end
