(* ===== verification/Remote_Request.thy ===== *)
theory Remote_Request
  imports Convergence Node_Main
begin

text \<open>
  A request that goes through two nodes: the coordinator of one, its client side of TCP, the wire
  format, and the server side, the handler and the coordinator of the other.
\<close>

section \<open>Lines\<close>

definition msg_line :: "Message \<Rightarrow> string" where
  "msg_line m = json_text (JObject (message_map m)) @ [CHR 0x0A]"

lemma serialize_line: "message_ok m \<Longrightarrow> serialize_message fl m = Inr (msg_line m)"
  using dump_text [OF message_map_plain, of m fl]
  by (simp add: serialize_message_def message_json_map json_dump_def msg_line_def)

lemma utf8_texts [simp]: "utf8_valid ''Key not found: ''"
  by (simp add: utf8_valid_def utf8_ranges_def)

lemma owner_reply_ok:
  assumes "utf8_valid (m_key w)" "int32 (co_my_id s)" "\<And>v. store_abs (rm_storage s) (m_key w) = Some v \<Longrightarrow> utf8_valid v"
  shows "message_ok (owner_reply s w)"
  using assms utf8_valid_append [OF utf8_texts assms(1)]
  by (auto simp: owner_reply_def make_ack_def make_error_def message_ok_iff int_range_def split: option.split)

section \<open>The owner behind its server\<close>

text \<open>A sign of life of a node that was not reported changes the tables of the failure detector only.\<close>

lemma node_handler_known:
  assumes "map_of (hb_known_alive s) (m_node_id msg) \<noteq> Some False"
  obtains t where "node_handler en msg s = handle en msg t" "co_ring t = co_ring s" "co_my_id t = co_my_id s"
    "rm_storage t = rm_storage s" "sys_sent t = sys_sent s" "sys_open t = sys_open s"
proof -
  obtain t where t: "mark_alive en (Some on_node_recovery) (m_node_id msg) s = Some (Inr (), t)"
    "t = s\<lparr>sys_calls := Suc (sys_calls s), hb_last_seen := AList.update (m_node_id msg) (env_clock en (sys_calls s)) (hb_last_seen s),
       hb_known_alive := AList.update (m_node_id msg) True (hb_known_alive s)\<rparr>"
    using mark_alive_state [of en on_node_recovery "m_node_id msg" s] assms by auto
  then have "node_handler en msg s = handle en msg t" by (simp add: node_handler_def)
  with t(2) that [of t] show thesis by simp
qed

lemma owner_connection:
  assumes "message_ok msg" "request msg" "owned b (m_key msg)" "int32 (co_my_id b)"
    and "map_of (hb_known_alive b) (m_node_id msg) \<noteq> Some False"
    and "\<And>v. store_abs (rm_storage b) (m_key msg) = Some v \<Longrightarrow> utf8_valid v"
    and "stream_at en fd (sys_calls b) (msg_line msg)" "send_bounded en" "send_works en fd"
  shows "\<exists>b'. handle_connection en (Some (node_handler en)) fd b = Some (Inr (), b') \<and>
    written fd b' = written fd b @ msg_line (owner_reply b msg) \<and>
    store_abs (rm_storage b') = owner_exec (store_abs (rm_storage b)) msg \<and> sys_open b' = remove1 fd (sys_open b)"
proof -
  let ?b = "b\<lparr>sys_calls := sys_calls b + length (msg_line msg)\<rparr>"
  obtain t where t: "node_handler en msg ?b = handle en msg t" "co_ring t = co_ring ?b" "co_my_id t = co_my_id ?b"
    "rm_storage t = rm_storage ?b" "sys_sent t = sys_sent ?b" "sys_open t = sys_open ?b"
    by (rule node_handler_known [of ?b msg en]) (simp_all add: assms(5))
  have same: "owned t (m_key msg)" "owner_reply t msg = owner_reply b msg"
    using assms(3) t by (simp_all add: owned_def owner_reply_def split: option.split)
  obtain c where c: "handle en msg t = Some (Inr (owner_reply b msg), c)" "sys_sent c = sys_sent t" "sys_open c = sys_open t"
    "store_abs (rm_storage c) = owner_exec (store_abs (rm_storage t)) msg"
    using owner_step [OF same(1) assms(2), of en] unfolding same(2) by (elim exE conjE) simp
  have h: "node_handler en msg ?b = Some (Inr (owner_reply b msg), c)" using t(1) c(1) by simp
  have ok: "message_ok (owner_reply b msg)"
    using assms(1,4,6) by (intro owner_reply_ok) (simp_all add: message_ok_iff)
  obtain b' where b': "handle_connection en (Some (node_handler en)) fd b = Some (Inr (), b')"
    "written fd b' = written fd c @ msg_line (owner_reply b msg)" "same_more c b'" "sys_open b' = remove1 fd (sys_open c)"
    using handle_connection_reply [where h = "node_handler en", OF assms(1) serialize_line [OF assms(1)] assms(7) h serialize_line [OF ok] assms(8,9)] by blast
  have "written fd c = written fd b" using c(2) t(5) by (simp add: written_def)
  moreover have "rm_storage b' = rm_storage c" using b'(3) by (rule replica_same_more [THEN conjunct1])
  ultimately show ?thesis using b' c(3,4) t(4,6) by auto
qed

section \<open>Properties\<close>

text \<open>C5: a request through two nodes. A node that receives a read, write or deletion of a key that another
  node owns sends it on over TCP; the owner reads the line, carries the request out on its table,
  and writes one line back; and the first node answers its client with exactly what the owner
  decided, its own table unchanged. Both rings agree, the connection works, the owner has not
  reported the sender as failed, and the value that is stored is UTF-8.\<close>

theorem remote_request:
  assumes "message_ok msg" "request msg"
    and "get_primary (m_key msg) (co_ring a) = Some p" "ni_id p \<noteq> co_my_id a"
    and "co_ring b = co_ring a" "co_my_id b = ni_id p" "int32 (ni_id p)"
    and "map_of (hb_known_alive b) (m_node_id msg) \<noteq> Some False"
    and "\<And>v. store_abs (rm_storage b) (m_key msg) = Some v \<Longrightarrow> utf8_valid v"
    and "make_connection en (ni_host p) (ni_port p) 2000 a = Some (Inr fd, a1)" "fd \<noteq> -1" "send_bounded en" "send_works en fd"
    and "stream_at en' fd' (sys_calls b) (msg_line msg)" "send_bounded en'" "send_works en' fd'"
    and "stream_at en fd (sys_calls (snd (send_loop en fd (msg_line msg) 0 a1))) (msg_line (owner_reply b msg))"
  shows "\<exists>a' b'. handle en msg a = Some (Inr (owner_reply b msg), a') \<and>
    written fd a' = written fd a @ msg_line msg \<and> rm_storage a' = rm_storage a \<and>
    handle_connection en' (Some (node_handler en')) fd' b = Some (Inr (), b') \<and>
    written fd' b' = written fd' b @ msg_line (owner_reply b msg) \<and>
    store_abs (rm_storage b') = owner_exec (store_abs (rm_storage b)) msg"
proof -
  have own: "owned b (m_key msg)" using assms(3,5,6) by (simp add: owned_def)
  have ok: "message_ok (owner_reply b msg)"
    using assms(1,6,7,9) by (intro owner_reply_ok) (simp_all add: message_ok_iff)
  obtain a' where a': "send_message en (ni_host p) (ni_port p) msg a = Some (Inr (Some (owner_reply b msg)), a')"
    "written fd a' = written fd a @ msg_line msg"
    using send_message_reply [OF assms(10-13) serialize_line [OF assms(1)] ok serialize_line [OF ok] assms(17)] by blast
  then have f: "forward_to en p msg a = Some (Inr (owner_reply b msg), a')" by (simp add: forward_to_def)
  have h: "handle en msg a = forward_to en p msg a"
    using assms(2) route_cases(3) [OF assms(3,4)]
    by (auto simp: request_def handle_requests handle_put_def handle_get_def handle_delete_def)
  have "texts_utf8 msg" using assms(1) by (simp add: message_ok_def)
  from talk_fields [OF forward_to_talks [OF this f]] have "rm_storage a' = rm_storage a" by simp
  moreover have "\<exists>b'. handle_connection en' (Some (node_handler en')) fd' b = Some (Inr (), b') \<and>
    written fd' b' = written fd' b @ msg_line (owner_reply b msg) \<and>
    store_abs (rm_storage b') = owner_exec (store_abs (rm_storage b)) msg"
    using owner_connection [OF assms(1,2) own _ assms(8,9,14-16)] assms(6,7) by auto
  ultimately show ?thesis using h f a'(2) by auto
qed

text \<open>Two members of the cluster of three: the owner of a key and another node, and their environments.\<close>

lemma demo_connect: "\<exists>os ts. make_connection (demo_env u) host port tm s =
    Some (Inr 5, s\<lparr>sys_calls := sys_calls s + 3, sys_open := os, sys_timeouts := ts\<rparr>)"
  by (rule exI [of _ "5 # sys_open s"], rule exI [of _ "sys_timeouts s @ [(5, tm div 1000, tm mod 1000 * 1000)]"])
    (simp add: make_connection_def open_socket_def set_timeouts_def demo_env_def numeral_3_eq_3)

lemma demo_member_known [simp]: "map_of (hb_known_alive (demo_member i)) j = None" "sys_calls (demo_member i) = 0"
  by (simp_all add: demo_member_def coordinator_init_def heartbeat.defs heartbeat_init_def election.defs demo_election_def
      election_init_def replica.defs demo_replica_def tcp.defs tcp_init_def sys.defs sys0_def)

lemma ring3_owner: "get_primary key ring3 = Some p \<Longrightarrow> int32 (ni_id p)"
  using get_replicas_hd [OF ring3_inv, of 1 key p] get_replicas_elem [OF ring3_inv, of 1 p key] ring3_alive [of p]
  by (auto simp: int_range_def)

theorem remote_request_witness:
  "\<exists>i u t a' b'. handle (demo_env u) (Message0\<lparr>m_type := PUT, m_key := ''k'', m_value := ''v''\<rparr>) (demo_member (i + 1)) =
       Some (Inr (make_ack i True []), a') \<and>
     handle_connection (demo_env t) (Some (node_handler (demo_env t))) 7 ((demo_member i)\<lparr>sys_calls := 4\<rparr>) = Some (Inr (), b') \<and>
     store_abs (rm_storage b') ''k'' = Some ''v''"
proof -
  let ?m = "Message0\<lparr>m_type := PUT, m_key := ''k'', m_value := ''v''\<rparr>"
  obtain p where p: "get_primary ''k'' ring3 = Some p" using ring3_routed by blast
  let ?a = "demo_member (ni_id p + 1)" and ?b = "(demo_member (ni_id p))\<lparr>sys_calls := 4\<rparr>"
  let ?t = "msg_line ?m" and ?u = "msg_line (owner_reply ?b ?m)"
  obtain os ts where con: "make_connection (demo_env ?u) (ni_host p) (ni_port p) 2000 ?a =
      Some (Inr 5, ?a\<lparr>sys_calls := sys_calls ?a + 3, sys_open := os, sys_timeouts := ts\<rparr>)"
    using demo_connect by blast
  have m: "message_ok ?m" "request ?m"
    by (simp_all add: message_ok_iff utf8_valid_def utf8_ranges_def int_range_def request_def)
  have own: "get_primary (m_key ?m) (co_ring ?a) = Some p" "ni_id p \<noteq> co_my_id ?a" "co_ring ?b = co_ring ?a"
    "co_my_id ?b = ni_id p" "int32 (ni_id p)" "map_of (hb_known_alive ?b) (m_node_id ?m) \<noteq> Some False"
    "\<And>v. store_abs (rm_storage ?b) (m_key ?m) = Some v \<Longrightarrow> utf8_valid v"
    using p ring3_owner [OF p] by simp_all
  have "?t \<noteq> []" by (simp add: msg_line_def)
  then have str: "stream_at (demo_env ?u) 5 (sys_calls (snd (send_loop (demo_env ?u) 5 ?t 0
      (?a\<lparr>sys_calls := sys_calls ?a + 3, sys_open := os, sys_timeouts := ts\<rparr>)))) ?u" "stream_at (demo_env ?t) 7 (sys_calls ?b) ?t"
    by (simp_all add: demo_send)
  have "\<exists>a' b'. handle (demo_env ?u) ?m ?a = Some (Inr (owner_reply ?b ?m), a') \<and>
      written 5 a' = written 5 ?a @ ?t \<and> rm_storage a' = rm_storage ?a \<and>
      handle_connection (demo_env ?t) (Some (node_handler (demo_env ?t))) 7 ?b = Some (Inr (), b') \<and>
      written 7 b' = written 7 ?b @ ?u \<and> store_abs (rm_storage b') = owner_exec (store_abs (rm_storage ?b)) ?m"
    by (rule remote_request [OF m own con _ _ _ str(2) _ _ str(1)]) simp_all
  then obtain a' b' where "handle (demo_env ?u) ?m ?a = Some (Inr (owner_reply ?b ?m), a')"
    "handle_connection (demo_env ?t) (Some (node_handler (demo_env ?t))) 7 ?b = Some (Inr (), b')"
    "store_abs (rm_storage b') = owner_exec (store_abs (rm_storage ?b)) ?m" by (elim exE conjE)
  moreover have "owner_reply ?b ?m = make_ack (ni_id p) True []" by (simp add: owner_reply_def)
  ultimately show ?thesis
    by (intro exI [of _ "ni_id p"] exI [of _ ?u] exI [of _ ?t] exI [of _ a'] exI [of _ b'])
      (simp add: owner_exec_def owner_act_def)
qed

end
