(* ===== verification/Stored_Data.thy ===== *)
theory Stored_Data
  imports Node_Safety Remote_Request "HOL-Library.Sublist"
begin

text \<open>
  What the storage engine of a running node may come to hold, over every sequence of steps of
  \<open>Node_Main.node_step\<close>. Whatever bytes arrive, only texts that the JSON parser accepted are written:
  a property of the engine that such writes keep holds in every state that the node reaches.
  It is stated as a locale; the log being append-only, the log being a sequence of whole lines
  and the table being UTF-8 are its interpretations.
\<close>

section \<open>Properties of the engine that writes keep\<close>

definition keeps_data :: "(StorageEngine \<Rightarrow> bool) \<Rightarrow> coord \<Rightarrow> coord \<Rightarrow> bool" where
  "keeps_data D s s' \<longleftrightarrow> (D (rm_storage s) \<longrightarrow> D (rm_storage s'))"

interpretation data: io_frame "keeps_data D" for D
  by unfold_locales (auto simp: keeps_data_def)

lemma data_same: "(\<And>s r s'. m s = Some (r, s') \<Longrightarrow> rm_storage s' = rm_storage s) \<Longrightarrow> io_keeps (keeps_data D) m"
  by (simp add: io_keeps_def keeps_data_def)

lemma data_talks: "io_keeps only_talks m \<Longrightarrow> io_keeps (keeps_data D) m"
  by (rule data_same) (auto dest: io_keepsD talk_fields(1))

lemma data_effects:
  "io_keeps (keeps_data D) (sys_call f)" "io_keeps (keeps_data D) (now_ms en)" "io_keeps (keeps_data D) (io_log lvl txt)"
  "io_keeps (keeps_data D) (spawn t)" "io_keeps (keeps_data D) (close_sock fd)" "io_keeps (keeps_data D) (io_get k)"
  "io_keeps (keeps_data D) (io_send en fd data)" "io_keeps (keeps_data D) (io_recv en fd)"
  "io_keeps (keeps_data D) (set_known i b)" "io_keeps (keeps_data D) (set_status i b)"
  "io_keeps (keeps_data D) (io_modify (\<lambda>s. s\<lparr>hb_last_seen := g s\<rparr>))"
  "io_keeps (keeps_data D) (io_modify (\<lambda>s. s\<lparr>le_in_progress := b\<rparr>))"
  "io_keeps (keeps_data D) (replicate_to en key val oper rs)"
  "io_keeps (keeps_data D) (handle_sync_request en msg)"
  by (auto intro!: data_same simp: now_ms_def io_store_state set_known_def set_status_def replicate_to_state
      io_send_def io_recv_def handle_sync_request_def
      dest!: send_loop_frame recv_loop_frame replica_same_more split: prod.splits option.splits)

lemma data_elections:
  "io_keeps (keeps_data D) (trigger_election en announce_leader)" "io_keeps (keeps_data D) (handle_message announce_leader msg)"
  by (auto intro!: data_same dest: announce.trigger_frame(3) announce.message_frame)

text \<open>The reply to a message that was sent is one that was read from a line.\<close>

lemma data_send_bind:
  assumes "texts_utf8 msg" "io_keeps (keeps_data D) (f None)"
    and "\<And>line. io_keeps (keeps_data D) (f (Some (deserialize_message line)))"
  shows "io_keeps (keeps_data D) (io_bind (send_message en host port msg) f)"
  unfolding io_keeps_def
proof (intro allI impI)
  fix s r s' assume "io_bind (send_message en host port msg) f s = Some (r, s')"
  then obtain resp t where t: "send_message en host port msg s = Some (Inr resp, t)" "f resp t = Some (r, s')"
    by (rule safe_bindE [OF send_message_safe [OF assms(1)]])
  have "keeps_data D s t" using io_keepsD [OF data_talks [OF talk_send [OF assms(1)]] t(1)] .
  moreover have "keeps_data D t s'"
  proof (cases resp)
    case None
    with io_keepsD [OF assms(2)] t(2) show ?thesis by simp
  next
    case (Some m)
    with send_message_line t(1) obtain line where "m = deserialize_message line" by blast
    with Some io_keepsD [OF assms(3)] t(2) show ?thesis by blast
  qed
  ultimately show "keeps_data D s s'" by (rule data.frame_trans)
qed

lemmas data_rules = data.keeps_rules data.keeps_pure data_effects data_elections

locale store_data =
  fixes D :: "StorageEngine \<Rightarrow> bool"
  assumes put_data: "D e \<Longrightarrow> utf8_valid k \<Longrightarrow> utf8_valid v \<Longrightarrow> D (put ts k v e)"
    and del_data: "D e \<Longrightarrow> D (fst (del ts k e))"
    and batch_data: "D e \<Longrightarrow> (\<And>p. p \<in> set ps \<Longrightarrow> utf8_valid (fst p) \<and> utf8_valid (snd p)) \<Longrightarrow> D (put_batch tms ps e)"
begin

lemma writes:
  "utf8_valid k \<Longrightarrow> utf8_valid v \<Longrightarrow> io_keeps (keeps_data D) (io_put en k v)" "io_keeps (keeps_data D) (io_del en k)"
  "(\<And>p. p \<in> set ps \<Longrightarrow> utf8_valid (fst p) \<and> utf8_valid (snd p)) \<Longrightarrow> io_keeps (keeps_data D) (io_put_batch en ps)"
  using put_data del_data batch_data
  by (auto simp: io_keeps_def keeps_data_def io_store_state io_put_batch_def)

lemma route_keeps:
  assumes "texts_utf8 msg" "\<And>i. io_keeps (keeps_data D) (f i)"
  shows "io_keeps (keeps_data D) (route en msg f)"
  unfolding route_def by (intro data_rules data_talks [OF forward_talks(1)] assms)

lemma sync_keeps: "message_ok msg \<Longrightarrow> io_keeps (keeps_data D) (handle_sync_data en msg)"
  unfolding handle_sync_data_def by (intro data_rules writes) (simp add: message_ok_iff)

lemma handle_keeps:
  assumes "wire_msg msg"
  shows "io_keeps (keeps_data D) (handle en msg)"
proof (cases "m_type msg = UNKNOWN")
  case True
  then show ?thesis by (simp add: handle_def)
next
  case False
  then have ok: "message_ok msg" "texts_utf8 msg" "utf8_valid (m_key msg)" "utf8_valid (m_value msg)"
    using assms by (auto simp: wire_msg_def message_ok_def texts_utf8_def)
  have "io_keeps (keeps_data D) (handle_put en msg)" "io_keeps (keeps_data D) (handle_get en msg)"
    "io_keeps (keeps_data D) (handle_delete en msg)" "io_keeps (keeps_data D) (handle_replicate en msg)"
    unfolding handle_put_def handle_get_def handle_delete_def handle_replicate_def replicate_key_def
    by (intro route_keeps data_rules writes ok)+
  with False show ?thesis
    unfolding handle_def
    by (cases "m_type msg") (simp_all only: MsgType.case MsgType.distinct not_False_eq_True simp_thms,
      (intro data_rules sync_keeps ok; simp)+)
qed

lemma handler_keeps: "wire_msg msg \<Longrightarrow> io_keeps (keeps_data D) (node_handler en msg)"
  unfolding node_handler_def mark_alive_def run_callback_def option.case on_node_recovery_def
  by (intro data_rules handle_keeps)

lemma connection_keeps: "io_keeps (keeps_data D) (handle_connection en (Some (node_handler en)) fd)"
  unfolding handle_connection_def option.case recv_line_def send_all_def
  by (intro data_rules handler_keeps wire_msg_line)

lemma initial_sync_keeps: "io_keeps (keeps_data D) (initial_sync en peers)"
proof -
  have u: "texts_utf8 (Message0\<lparr>m_type := SYNC_REQUEST, m_node_id := i\<rparr>)" for i by (simp add: texts_utf8_def)
  have d: "io_keeps (keeps_data D) (if m_type (deserialize_message line) \<noteq> SYNC_DATA then io_log WRN w
      else handle_sync_data en (deserialize_message line))" for line w
    using sync_keeps [OF deserialize_ok] data_effects(3) by auto
  have "io_keeps (keeps_data D) (sync_from_peer en p)" for p
    unfolding sync_from_peer_def
    by (intro data.keeps_then keeps_gets data_effects data_send_bind u) (simp_all only: option.case data_effects d)
  then show ?thesis
    unfolding initial_sync_def by (cases peers) (simp_all only: list.case, (intro data_rules; blast)+)
qed

lemma task_keeps: "task_ok t \<Longrightarrow> io_keeps (keeps_data D) (run_task en t)"
  by (cases t) (simp_all add: run_task_def connection_keeps initial_sync_keeps data_elections data_talks talks_and_forgets,
    simp add: election_timeout_def, intro data_rules)

lemma callbacks_keep: "io_keeps (keeps_data D) (on_node_failure en i)"
  unfolding on_node_failure_def by (intro data_rules)

lemma turns_keep: "io_keeps (keeps_data D) (monitor_turn en (Some (on_node_failure en)))" "io_keeps (keeps_data D) (sender_turn en)"
proof -
  have "io_keeps (keeps_data D) (monitor_node (Some (on_node_failure en)) now e)" for now e
    unfolding monitor_node_def run_callback_def option.case
    by (cases e) (simp only: prod.case, intro data_rules callbacks_keep)
  then show "io_keeps (keeps_data D) (monitor_turn en (Some (on_node_failure en)))"
    unfolding monitor_turn_def by (intro data_rules)
  show "io_keeps (keeps_data D) (sender_turn en)"
    unfolding sender_turn_def by (intro data_rules)
qed

lemma step_keeps:
  assumes "node_step en s s'" "node_inv s" "D (rm_storage s)"
  shows "D (rm_storage s')"
  using assms(1)
proof cases
  case (step_accept fd)
  then show ?thesis using assms(3) by simp
next
  case (step_task ts t us r)
  then have "task_ok t" using node_inv_taskD [OF assms(2)] by simp
  from io_keepsD [OF task_keeps [OF this] step_task(2)] assms(3) show ?thesis by (simp add: keeps_data_def)
next
  case (step_monitor r)
  from io_keepsD [OF turns_keep(1) this] assms(3) show ?thesis by (simp add: keeps_data_def)
next
  case (step_sender r)
  from io_keepsD [OF turns_keep(2) this] assms(3) show ?thesis by (simp add: keeps_data_def)
qed

lemma reaches_keeps:
  assumes "node_reaches en s s'" "walk_ok (env_walk_seen en)" "node_inv s" "D (rm_storage s)"
  shows "D (rm_storage s')"
proof -
  have "node_inv s' \<and> D (rm_storage s')"
    using assms(1) [unfolded node_reaches_def] assms(2-4)
    by (induction rule: rtranclp_induct) (auto intro: step_inv step_keeps)
  then show ?thesis by simp
qed

end

section \<open>The log and the table\<close>

definition store_utf8 :: "StorageEngine \<Rightarrow> bool" where
  "store_utf8 e \<longleftrightarrow> (\<forall>k v. store_abs e k = Some v \<longrightarrow> utf8_valid k \<and> utf8_valid v)"

lemma wal_extends: "\<exists>w. se_wal (append_wal ts oper k v e) = se_wal e @ w" "\<exists>w. se_wal (append_batch tms ps e) = se_wal e @ w"
proof -
  show one: "\<exists>w. se_wal (append_wal ts oper k v e) = se_wal e @ w" for ts oper k v e
    by (simp add: append_wal_def)
  show "\<exists>w. se_wal (append_batch tms ps e) = se_wal e @ w"
  proof (induction tms ps e rule: append_batch.induct)
    case (2 ts k v ps e)
    with one [of "ts 0" "''PUT''" k v e] show ?case by auto
  qed simp
qed

lemma mem_wal [simp]: "se_wal (put_mem k v e) = se_wal e" "se_wal (fst (del_mem k e)) = se_wal e" "se_wal (put_batch_mem ps e) = se_wal e"
  by (simp_all add: put_mem_def del_mem_def put_batch_mem_def split: option.split)

lemma del_fst: "fst (del ts k e) = (if snd (del_mem k e) then append_wal ts ''DEL'' k [] (fst (del_mem k e)) else fst (del_mem k e))"
  by (simp add: del_def split: prod.split)

interpretation append_only: store_data "\<lambda>e. prefix w (se_wal e)" for w
proof unfold_locales
  fix e :: StorageEngine and ts k v assume "prefix w (se_wal e)"
  then show "prefix w (se_wal (put ts k v e))" "prefix w (se_wal (fst (del ts k e)))"
    using wal_extends(1) [of ts "''PUT''" k v "put_mem k v e"] wal_extends(1) [of ts "''DEL''" k "[]" "fst (del_mem k e)"]
    by (auto simp: put_def del_fst)
next
  fix e :: StorageEngine and ps tms assume "prefix w (se_wal e)"
  then show "prefix w (se_wal (put_batch tms ps e))"
    using wal_extends(2) [of tms ps "put_batch_mem ps e"] by (auto simp: put_batch_def)
qed

lemma append_batch_closed: "line_closed (se_wal e) \<Longrightarrow> line_closed (se_wal (append_batch tms ps e))"
  by (induction tms ps e rule: append_batch.induct) (simp_all add: append_wal_def)

interpretation whole_lines: store_data "\<lambda>e. line_closed (se_wal e)"
proof unfold_locales
  fix e :: StorageEngine and ts k v assume "line_closed (se_wal e)"
  then show "line_closed (se_wal (put ts k v e))" "line_closed (se_wal (fst (del ts k e)))"
    by (auto simp: put_def append_wal_def del_def del_mem_def put_mem_def split: option.split)
next
  fix e :: StorageEngine and ps tms assume "line_closed (se_wal e)"
  then show "line_closed (se_wal (put_batch tms ps e))" by (simp add: put_batch_def append_batch_closed)
qed

interpretation texts: store_data store_utf8
proof unfold_locales
  fix e :: StorageEngine and ts k v assume "store_utf8 e"
  then show "store_utf8 (fst (del ts k e))" by (simp add: store_utf8_def del_store)
  assume "utf8_valid k" "utf8_valid v"
  with \<open>store_utf8 e\<close> show "store_utf8 (put ts k v e)" by (simp add: store_utf8_def store_abs_def update_conv')
next
  fix e :: StorageEngine and ps tms assume e: "store_utf8 e" and ps: "\<And>p. p \<in> set ps \<Longrightarrow> utf8_valid (fst p) \<and> utf8_valid (snd p)"
  show "store_utf8 (put_batch tms ps e)"
    using e ps unfolding store_utf8_def store_abs_def put_batch_store map_of_update_list
    by (auto simp: map_add_Some_iff dest!: map_of_SomeD [of "rev ps"])
qed

section \<open>Properties\<close>

text \<open>C10: the storage engine of a node that is started and then runs, in every state that it reaches,
  whatever arrives and in whatever order its threads run. The log only grows: the file that was
  on disk is a prefix of it. A log of whole lines stays one. If what was recovered is UTF-8, so
  is all that is ever stored; and then a read, write or deletion of a key that the node owns
  always gets an answer that can be sent.\<close>

theorem running_store:
  assumes "parse_args argv = Inr cfg" "node_start cfg (node_init en cfg disk a) = Some (r, s0)"
    and "walk_ok (env_walk_seen en)" "node_reaches en s0 s"
  shows "prefix (case disk of None \<Rightarrow> [] | Some f \<Rightarrow> f) (se_wal (rm_storage s)) \<and>
    (line_closed (case disk of None \<Rightarrow> [] | Some f \<Rightarrow> f) \<longrightarrow> line_closed (se_wal (rm_storage s))) \<and>
    (store_utf8 (StorageEngine_ctor (node_wal cfg) disk a) \<longrightarrow> store_utf8 (rm_storage s) \<and>
      (\<forall>rd en'. message_ok rd \<and> request rd \<and> owned s (m_key rd) \<longrightarrow>
        (\<exists>m s' t. handle en' rd s = Some (Inr m, s') \<and> serialize_message (env_float en') m = Inr t)))"
proof -
  have s0: "rm_storage s0 = StorageEngine_ctor (node_wal cfg) disk a"
    using assms(2) by (auto simp: node_start_def heartbeat_start_def election_start_def init_fields split: if_splits)
  have inv: "node_inv s0" by (rule running_inv(1) [OF assms(1-3)]) (simp add: node_reaches_def)
  have wal: "se_wal (rm_storage s0) = (case disk of None \<Rightarrow> [] | Some f \<Rightarrow> f)"
    by (simp add: s0 StorageEngine_ctor_def)
  note keeps = append_only.reaches_keeps [OF assms(4,3) inv] whole_lines.reaches_keeps [OF assms(4,3) inv]
    texts.reaches_keeps [OF assms(4,3) inv]
  have "\<exists>m s' t. handle en' rd s = Some (Inr m, s') \<and> serialize_message (env_float en') m = Inr t"
    if rd: "store_utf8 (rm_storage s)" "message_ok rd" "request rd" "owned s (m_key rd)" for rd en'
  proof -
    obtain s' where h: "handle en' rd s = Some (Inr (owner_reply s rd), s')"
      using owner_step [OF rd(4,3), of en'] by blast
    have "texts_utf8 (owner_reply s rd)"
      using rd(1) utf8_valid_append [OF utf8_texts, of "m_key rd"] rd(2)
      by (auto simp: owner_reply_def make_ack_def make_error_def texts_utf8_def store_utf8_def message_ok_iff split: option.split)
    then obtain t where "serialize_message (env_float en') (owner_reply s rd) = Inr t"
      using serialize_throws [of "owner_reply s rd" "env_float en'"] by (auto simp: throws_unless_def split: sum.splits)
    with h show ?thesis by blast
  qed
  with keeps(3) keeps(1) [of "se_wal (rm_storage s0)"] keeps(2) show ?thesis by (auto simp: s0 [symmetric] wal [symmetric])
qed

theorem running_store_witness:
  "\<exists>s0 s. node_start Config0 (node_init (demo_env []) Config0 None True) = Some (Inr (), s0) \<and>
     node_step (demo_env []) s0 s \<and> line_closed (se_wal (rm_storage s)) \<and> store_utf8 (rm_storage s)"
proof -
  obtain s0 where s0: "node_start Config0 (node_init (demo_env []) Config0 None True) = Some (Inr (), s0)"
    using demo_running by blast
  let ?s = "s0\<lparr>sys_open := 7 # sys_open s0, sys_tasks := sys_tasks s0 @ [Task_handle_connection 7]\<rparr>"
  have st: "node_step (demo_env []) s0 ?s" by (rule step_accept)
  then have r: "node_reaches (demo_env []) s0 ?s" by (auto simp: node_reaches_def)
  have w: "walk_ok (env_walk_seen (demo_env []))" by (simp add: demo_env_def)
  have e: "store_utf8 (StorageEngine_ctor (node_wal Config0) None True)"
    by (simp add: store_utf8_def store_abs_def StorageEngine_ctor_def recover_def)
  from running_store [OF demo_args s0 w r] e s0 st show ?thesis
    by (intro exI [of _ s0] exI [of _ ?s]) (simp add: line_closed_def)
qed

end
