(* ===== verification/Spec2Isabelle.thy ===== *)
theory Spec2Isabelle
  imports Storage_Concurrency Convergence Partition Cluster_Routing Stored_Data
begin

text \<open>
  A verification library for the node of the distributed key-value database: the C++ program
  under \<^verbatim>\<open>src/node\<close> and \<^verbatim>\<open>src/include\<close>. A node keeps pairs in memory and in an append-only log, routes
  requests to the owner of a key by a consistent-hash ring, copies writes to replicas, watches
  the other nodes and elects a leader. Nodes and clients exchange one line of JSON for a request
  and one for the reply.

  \<^bold>\<open>How a node works.\<close> \<^verbatim>\<open>main\<close> builds the services and starts them. The server runs one thread for each
  connection: it reads a line, makes a message of it, marks the sender as alive, and lets the
  coordinator answer. The coordinator serves the keys it owns from the storage engine and hands
  changes to the replication manager; other requests it forwards. The heartbeat service sends a
  message to every peer and reports peers that stay silent; the coordinator then marks the node
  as down in the ring and triggers an election if it was the leader.

  \<^bold>\<open>How it is modelled.\<close> Data are records and datatypes with the fields of the source; a \<^verbatim>\<open>std::string\<close>
  is a list of bytes, \<^verbatim>\<open>int\<close> and \<^verbatim>\<open>int64_t\<close> are integers with their ranges, and the hash works on
  32-bit words. Code without effects is a function, with exceptions as the left part of a sum.
  Code with effects is a function from the state to nothing, if it does not return, or to its
  result and the new state (\<open>io\<close> in System). The state of a node is one record that every service
  extends: what the process did to the system, the server, the replication manager with its
  storage, the election, the heartbeat service and the coordinator. What the system calls return,
  the clock and the iteration order of hash tables are an argument \<open>env\<close> over which all theorems
  quantify; where iteration matters, the hypothesis \<open>walk_ok\<close> says that it visits each entry once.
  A detached thread is a task in the state; a step of \<open>node_step\<close> runs one of them to its end.

  \<^bold>\<open>Theories, from the bottom.\<close>
  \<^item> Prelude, Std_Map: machine integers, \<^verbatim>\<open>std::to_string\<close>, \<^verbatim>\<open>std::stoi\<close>, \<^verbatim>\<open>std::getline\<close>; ordered and
    unordered maps behind the locales that their clients use; the locale \<open>refinement\<close>.
  \<^item> Utils (\<^verbatim>\<open>include/utils.h\<close>, \<^verbatim>\<open>node/utils.cpp\<close>): the logger, node descriptions, messages.
  \<^item> Storage_Engine, Wal_Recovery (\<^verbatim>\<open>node/storage_engine.cpp\<close>): the table implements a finite map; replay
    of the log gives it back, for texts without separators and over any number of restarts; what
    replay does to separators and to a record cut by a crash.
  \<^item> Storage_Concurrency (the same file): the critical sections of concurrent operations; a restart recovers
    the table when threads use different keys, and may not when they write one key.
  \<^item> Murmur, Hash_Ring, Ring_Routing (\<^verbatim>\<open>node/hash_ring.cpp\<close>): the hash, the ring and its loops, which
    compute what consistent hashing prescribes; replica sets; which keys move when nodes join,
    leave, fail and recover.
  \<^item> Json_Value, Json_Serializer, Json_Utf8, Json_Integer, Json_Lexer, Json_Parser, Json_Tokens, Json_Roundtrip,
    Json_Safety (\<^verbatim>\<open>include/nlohmann/json.hpp\<close>): the parts of the library that messages pass through;
    parsing reads back what dumping wrote, and every parsed value can be dumped.
  \<^item> Message_Codec (\<^verbatim>\<open>node/utils.cpp\<close>): a good message survives the line format; what is read from any
    other line, field by field, with the text of the exception for the first that is wrong.
  \<^item> System, Tcp_Client, Tcp_Server (\<^verbatim>\<open>include/tcp_client.h\<close>, \<^verbatim>\<open>node/tcp_server.cpp\<close>): effects and frame
    conditions; exchanges, when they return, what their replies depend on, and that sockets
    are closed; the life of the server over the calls that it makes.
  \<^item> Replication, Leader_Election, Heartbeat, Coordinator (the files of the same names): each operation on
    every branch, and the invariants of the services.
  \<^item> Failure_Detection, Failover: the heartbeat service with the callbacks of the coordinator; the ring
    and the detector agree; reads of a key after the owner and further replicas have failed.
  \<^item> Convergence: the coordinators of an owner and of a replica over a sequence of requests; for which
    orders of delivery the replica ends with the data of the owner, and for which it does not.
  \<^item> Partition: what a node answers that can reach no other node.
  \<^item> Node_Main, Node_Safety (\<^verbatim>\<open>node/main.cpp\<close>): command line, start, threads; the invariant of every
    reachable state, no leaked socket, and no exception that leaves a thread.
  \<^item> Cluster_Routing: the rings of the nodes of a cluster are equal unless two nodes share a point of the
    ring; what happens to requests for a key at such a point.
  \<^item> Remote_Request: a request from one node over the wire to the owner of the key and back.
  \<^item> Stored_Data: what the log and the table of a running node may hold: the log only grows and stays a
    sequence of lines, the table stays UTF-8, and answers can be sent.

  \<^bold>\<open>Interfaces\<close> are locales that are interpreted on the definitions of the model: the maps (Std_Map), the
  refinement of a finite map by the table (Wal_Recovery), the ring as a router (\<open>hring\<close>), the line
  codec (\<open>wire\<close>), the leader callback (\<open>announce\<close>), the node callbacks (\<open>failure\<close>, \<open>recovery\<close>), operations
  that touch one key each (\<open>repl\<close> and \<open>owner\<close> in Convergence), properties of the storage engine that
  all writes keep (\<open>append_only\<close>, \<open>whole_lines\<close>, \<open>texts\<close> in Stored_Data), and the frame conditions of
  computations (\<open>io_frame\<close>) for the parts of the state that operations keep.

  \<^bold>\<open>Loops.\<close> The loops of the ring, the serializer and the lexer terminate by measures. The loops that
  wait for the network are partial functions whose result is \<open>None\<close> when they wait forever; that
  reading a line returns exactly when the peer sends a line end, closes or times out is a
  theorem. No bound or fuel restricts the model.

  \<^bold>\<open>Not modelled.\<close> Interleaving inside an operation, except for the storage engine: an operation of
  another service runs to its end before the next one starts, although the source holds a lock
  for a part of it only. The network between nodes as one system: the theorems about two nodes
  relate what one of them writes to what the other one reads. Sleeping, and therefore when the
  periodic turns happen. A full disk and other failures of writing to an open
  file, the exception of \<^verbatim>\<open>create_directories\<close>, and a log that can be appended to but not read.
  Exceptions of \<^verbatim>\<open>std::thread\<close> and of memory allocation. A read from a socket always gives a byte, the
  end or an error: a peer that stays silent for ever shows as one that sends for ever, and
  SIGPIPE on a closed connection is not raised. The clock is an unbounded integer. The minimum
  level of the logger, which selects what is printed. The text of floating-point numbers, which is an argument and appears in no message of
  the node; the parts of the JSON library that the node does not call; the Windows branches of
  the socket code. The signal handler, which sets a flag that is never read. The Python gateway,
  the scripts, the tests and the files that CMake generated.
\<close>

end
